(* ===== verification/Snvm_Prelude.thy ===== *)
theory Snvm_Prelude
  imports Main "HOL-Library.Word"
begin

text \<open>
  Types, error codes and generic lemmas shared by the components of the development.
  Pointers are natural numbers with \<open>NULL = 0\<close>; machine integers keep their C width.
  An operation of the driver that returns \<open>int\<close> returns 0 or a negative error code.
\<close>

section \<open>Types\<close>

type_synonym u8 = "8 word"
type_synonym u16 = "16 word"
type_synonym u32 = "32 word"
type_synonym u64 = "64 word"

type_synonym ptr = nat
type_synonym task = nat
type_synonym pdev = nat
type_synonym page = nat

abbreviation NULL :: ptr where "NULL \<equiv> 0"

section \<open>Error codes of the kernel that the driver returns\<close>

definition EPERM :: int where "EPERM = 1"
definition ENOENT :: int where "ENOENT = 2"
definition EIO :: int where "EIO = 5"
definition EBADF :: int where "EBADF = 9"
definition EAGAIN :: int where "EAGAIN = 11"
definition ENOMEM :: int where "ENOMEM = 12"
definition EFAULT :: int where "EFAULT = 14"
definition EBUSY :: int where "EBUSY = 16"
definition ENODEV :: int where "ENODEV = 19"
definition EINVAL :: int where "EINVAL = 22"
definition ENOTTY :: int where "ENOTTY = 25"
definition ENOSYS :: int where "ENOSYS = 38"
definition EOPNOTSUPP :: int where "EOPNOTSUPP = 95"

text \<open>
  Not a kernel error code: the result of a model step at which the C code would
  dereference a NULL pointer.
\<close>

definition KERNEL_OOPS :: int where "KERNEL_OOPS = 4096"

named_theorems errno_defs

declare EPERM_def [errno_defs] ENOENT_def [errno_defs] EIO_def [errno_defs]
  EBADF_def [errno_defs] EAGAIN_def [errno_defs] ENOMEM_def [errno_defs]
  EFAULT_def [errno_defs] EBUSY_def [errno_defs] ENODEV_def [errno_defs]
  EINVAL_def [errno_defs] ENOTTY_def [errno_defs] ENOSYS_def [errno_defs]
  EOPNOTSUPP_def [errno_defs] KERNEL_OOPS_def [errno_defs]

section \<open>Lists\<close>

lemma remove1_distinct_filter:
  "distinct xs \<Longrightarrow> remove1 x xs = filter (\<lambda>y. y \<noteq> x) xs"
  by (auto simp: distinct_remove1_removeAll removeAll_filter_not_eq intro: filter_cong)

definition hd0 :: "ptr list \<Rightarrow> ptr" where
  "hd0 xs = (case xs of [] \<Rightarrow> NULL | x # _ \<Rightarrow> x)"

lemma hd0_simps [simp]: "hd0 [] = NULL" "hd0 (x # xs) = x"
  by (simp_all add: hd0_def)

lemma find_Some_mem: "find P xs = Some x \<Longrightarrow> x \<in> set xs \<and> P x"
  by (induction xs) (auto split: if_splits)

section \<open>Words\<close>

lemma unat_u16_less: "unat (q :: u16) < 65536"
  using unsigned_less [of q] by simp

lemma unat_ucast_u16_u32: "unat (ucast (q :: u16) :: u32) = unat q"
  using unat_u16_less [of q] by (simp add: unsigned_ucast_eq take_bit_nat_eq_self)

section \<open>Bitmaps\<close>

definition set_bits :: "nat list \<Rightarrow> bool list \<Rightarrow> bool list" where
  "set_bits bs bm = fold (\<lambda>b m. m[b := True]) bs bm"

definition clear_bits :: "nat list \<Rightarrow> bool list \<Rightarrow> bool list" where
  "clear_bits bs bm = fold (\<lambda>b m. m[b := False]) bs bm"

lemma length_set_bits [simp]: "length (set_bits bs bm) = length bm"
  by (induction bs arbitrary: bm) (auto simp: set_bits_def)

lemma length_clear_bits [simp]: "length (clear_bits bs bm) = length bm"
  by (induction bs arbitrary: bm) (auto simp: clear_bits_def)

lemma nth_set_bits: "i < length bm \<Longrightarrow> set_bits bs bm ! i \<longleftrightarrow> i \<in> set bs \<or> bm ! i"
proof (induction bs arbitrary: bm)
  case (Cons b bs)
  then show ?case using Cons.IH [of "bm[b := True]"]
    by (cases "b = i") (auto simp: set_bits_def)
qed (simp add: set_bits_def)

lemma nth_clear_bits: "i < length bm \<Longrightarrow> clear_bits bs bm ! i \<longleftrightarrow> i \<notin> set bs \<and> bm ! i"
proof (induction bs arbitrary: bm)
  case (Cons b bs)
  then show ?case using Cons.IH [of "bm[b := False]"]
    by (cases "b = i") (auto simp: clear_bits_def)
qed (simp add: clear_bits_def)

lemma clear_set_bits:
  assumes "\<forall>b \<in> set bs. b < length bm \<and> \<not> bm ! b" and "set cs = set bs"
  shows "clear_bits cs (set_bits bs bm) = bm"
  by (rule nth_equalityI) (use assms in \<open>auto simp: nth_clear_bits nth_set_bits\<close>)

lemma set_bits_Cons: "set_bits (b # bs) bm = set_bits bs (bm[b := True])"
  by (simp add: set_bits_def)

end
