(* ===== verification/Snvm_List.thy ===== *)
theory Snvm_List
  imports Snvm_Prelude
begin

text \<open>
  The driver's intrusive doubly linked list (\<open>snvme/list.h\<close>, \<open>snvme/list.c\<close>): pointer-level
  operations over a heap of node fields, the abstraction to the sequence of elements, and
  the traversal loops the driver writes over it. The head is the first member of
  \<open>struct list\<close>, so the address of a list is the address of its head.
\<close>

section \<open>Nodes and operations\<close>

record list_heap =
  node_list :: "ptr \<Rightarrow> ptr"
  node_next :: "ptr \<Rightarrow> ptr"
  node_prev :: "ptr \<Rightarrow> ptr"

definition list_node_init :: "list_heap \<Rightarrow> ptr \<Rightarrow> list_heap" where
  "list_node_init h e =
     h\<lparr>node_list := (node_list h)(e := NULL),
       node_next := (node_next h)(e := NULL),
       node_prev := (node_prev h)(e := NULL)\<rparr>"

definition list_next :: "list_heap \<Rightarrow> ptr \<Rightarrow> ptr" where
  "list_next h cur =
     (if node_next h cur \<noteq> node_list h cur then node_next h cur else NULL)"

definition list_init :: "list_heap \<Rightarrow> ptr \<Rightarrow> list_heap" where
  "list_init h l =
     h\<lparr>node_list := (node_list h)(l := l),
       node_prev := (node_prev h)(l := l),
       node_next := (node_next h)(l := l)\<rparr>"

definition list_remove :: "list_heap \<Rightarrow> ptr \<Rightarrow> list_heap" where
  "list_remove h e =
     (if e \<noteq> NULL \<and> node_list h e \<noteq> NULL \<and> e \<noteq> node_list h e then
        let h1 = h\<lparr>node_next := (node_next h)(node_prev h e := node_next h e)\<rparr>;
            h2 = h1\<lparr>node_prev := (node_prev h1)(node_next h1 e := node_prev h1 e)\<rparr>
        in h2\<lparr>node_list := (node_list h2)(e := NULL),
              node_next := (node_next h2)(e := NULL),
              node_prev := (node_prev h2)(e := NULL)\<rparr>
      else h)"

definition list_insert :: "list_heap \<Rightarrow> ptr \<Rightarrow> ptr \<Rightarrow> list_heap" where
  "list_insert h l e =
     (let last = node_prev h l;
          h1 = h\<lparr>node_next := (node_next h)(last := e)\<rparr>;
          h2 = h1\<lparr>node_list := (node_list h1)(e := l),
                  node_prev := (node_prev h1)(e := last),
                  node_next := (node_next h1)(e := l)\<rparr>
      in h2\<lparr>node_prev := (node_prev h2)(l := e)\<rparr>)"

section \<open>Abstraction to sequences\<close>

fun chain :: "(ptr \<Rightarrow> ptr) \<Rightarrow> ptr \<Rightarrow> ptr list \<Rightarrow> ptr \<Rightarrow> bool" where
  "chain f a [] b \<longleftrightarrow> f a = b"
| "chain f a (x # xs) b \<longleftrightarrow> f a = x \<and> chain f x xs b"

definition dll :: "ptr \<Rightarrow> list_heap \<Rightarrow> ptr list \<Rightarrow> bool" where
  "dll l h xs \<longleftrightarrow>
     distinct (l # xs) \<and> NULL \<notin> set (l # xs) \<and>
     (\<forall>n \<in> set (l # xs). node_list h n = l) \<and>
     chain (node_next h) l xs l \<and> chain (node_prev h) l (rev xs) l"

lemma chain_append:
  "chain f a (xs @ y # ys) b \<longleftrightarrow> chain f a xs y \<and> chain f y ys b"
  by (induction xs arbitrary: a) auto

lemma chain_upd_notin [simp]:
  "u \<noteq> a \<Longrightarrow> u \<notin> set xs \<Longrightarrow> chain (f(u := v)) a xs b = chain f a xs b"
  by (induction xs arbitrary: a) auto

lemma chain_retarget:
  "chain f a xs b \<Longrightarrow> distinct (a # xs) \<Longrightarrow>
   chain (f(last (a # xs) := c)) a xs c"
  by (induction xs arbitrary: a) auto

lemma chain_last: "chain f a xs b \<Longrightarrow> f (last (a # xs)) = b"
  by (induction xs arbitrary: a) auto

lemma dll_init: "l \<noteq> NULL \<Longrightarrow> dll l (list_init h l) []"
  by (simp add: dll_def list_init_def)

lemma dll_distinct: "dll l h xs \<Longrightarrow> distinct xs"
  by (simp add: dll_def)

lemma dll_not_null: "dll l h xs \<Longrightarrow> NULL \<notin> set xs"
  by (simp add: dll_def)

lemma dll_prev_head: "dll l h xs \<Longrightarrow> node_prev h l = last (l # xs)"
  by (cases xs rule: rev_cases) (auto simp: dll_def)

lemma dll_insert:
  assumes d: "dll l h xs" and e: "e \<noteq> NULL" "e \<noteq> l" "e \<notin> set xs"
  shows "dll l (list_insert h l e) (xs @ [e])"
proof -
  define z where "z = last (l # xs)"
  have z: "node_prev h l = z" using dll_prev_head [OF d] by (simp add: z_def)
  have zin: "z \<in> set (l # xs)" unfolding z_def by (rule last_in_set) simp
  have ez: "z \<noteq> e" using e zin by auto
  have dist: "distinct (l # xs)" using d by (simp add: dll_def)
  have nx: "chain ((node_next h)(z := e)) l xs e"
    using d chain_retarget [of "node_next h" l xs l e] by (simp add: dll_def z_def)
  have next': "chain ((node_next h)(z := e, e := l)) l (xs @ [e]) l"
    using nx e by (simp add: chain_append)
  have prev': "chain ((node_prev h)(e := z, l := e)) l (rev (xs @ [e])) l"
    using d e by (cases xs rule: rev_cases) (auto simp: dll_def z_def)
  have fields: "node_next (list_insert h l e) = (node_next h)(z := e, e := l)"
    "node_prev (list_insert h l e) = (node_prev h)(e := z, l := e)"
    "node_list (list_insert h l e) = (node_list h)(e := l)"
    by (simp_all add: list_insert_def Let_def z)
  show ?thesis
    unfolding dll_def fields using next' prev' d e by (simp add: dll_def)
qed

lemma list_remove_fields:
  assumes "e \<noteq> NULL" "node_list h e \<noteq> NULL" "e \<noteq> node_list h e"
    and "node_next h e = n" "node_prev h e = p" "p \<noteq> e"
  shows "node_next (list_remove h e) = (node_next h)(p := n, e := NULL)"
    and "node_prev (list_remove h e) = (node_prev h)(n := p, e := NULL)"
    and "node_list (list_remove h e) = (node_list h)(e := NULL)"
  using assms by (simp_all add: list_remove_def Let_def)

lemma dll_neighbours:
  assumes "dll l h (xs @ e # ys)"
  shows "node_next h e = hd (ys @ [l])" and "node_prev h e = last (l # xs)"
proof -
  have cn: "chain (node_next h) e ys l" and cp: "chain (node_prev h) e (rev xs) l"
    using assms by (auto simp: dll_def chain_append)
  show "node_next h e = hd (ys @ [l])" using cn by (cases ys) auto
  show "node_prev h e = last (l # xs)" using cp by (cases xs rule: rev_cases) auto
qed

lemma chain_bypass:
  assumes "chain f a xs e" "chain f e ys b" "distinct (a # xs @ e # ys)" "b \<notin> set (xs @ e # ys)"
  shows "chain (f(last (a # xs) := hd (ys @ [b]))) a (xs @ ys) b"
proof (cases ys)
  case Nil
  then show ?thesis using assms chain_retarget [of f a xs e b] by simp
next
  case (Cons y zs)
  have "chain (f(last (a # xs) := y)) a xs y"
    using assms chain_retarget [of f a xs e y] by simp
  moreover have "last (a # xs) \<in> set (a # xs)" by (rule last_in_set) simp
  then have "last (a # xs) \<noteq> y" "last (a # xs) \<notin> set zs"
    using assms(3) Cons by (auto simp del: last.simps)
  ultimately show ?thesis using assms(2) Cons by (simp add: chain_append del: last.simps)
qed

lemma last_rev_Cons: "last (l # rev ys) = hd (ys @ [l])"
  by (cases ys) auto

lemma hd_rev_snoc: "hd (rev xs @ [l]) = last (l # xs)"
  by (cases xs rule: rev_cases) auto

lemma dll_remove:
  assumes d: "dll l h (xs @ e # ys)"
  shows "dll l (list_remove h e) (xs @ ys)"
proof -
  define p where "p = last (l # xs)"
  define n where "n = hd (ys @ [l])"
  have dist: "distinct (l # xs @ e # ys)" using d by (simp add: dll_def)
  have guard: "e \<noteq> NULL" "node_list h e = l" "l \<noteq> NULL" "e \<noteq> l"
    using d by (auto simp: dll_def)
  have "p \<in> set (l # xs)" unfolding p_def by (rule last_in_set) simp
  then have pe: "p \<noteq> e" using dist by auto
  have nb: "node_next h e = n" "node_prev h e = p"
    using dll_neighbours [OF d] by (simp_all add: p_def n_def)
  have cn: "chain (node_next h) l xs e" "chain (node_next h) e ys l"
    and cp: "chain (node_prev h) l (rev ys) e" "chain (node_prev h) e (rev xs) l"
    using d by (auto simp: dll_def chain_append)
  have n1: "chain ((node_next h)(p := n)) l (xs @ ys) l"
    using chain_bypass [OF cn] dist by (simp add: p_def n_def)
  have p1: "chain ((node_prev h)(n := p)) l (rev ys @ rev xs) l"
    using chain_bypass [OF cp] dist
    by (simp add: p_def n_def last_rev_Cons hd_rev_snoc Int_commute del: last.simps)
  note f = list_remove_fields [of e h n p]
  show ?thesis
    unfolding dll_def using n1 p1 d dist guard pe nb
    by (auto simp: f dll_def)
qed

lemma list_remove_idem: "list_remove (list_remove h e) e = list_remove h e"
  by (simp add: list_remove_def Let_def)

text \<open>Operations on one list leave every other list of the same heap as it was.\<close>

lemma dll_cong:
  assumes "dll l h xs"
    and "\<And>n. n \<in> set (l # xs) \<Longrightarrow> node_next h' n = node_next h n"
    and "\<And>n. n \<in> set (l # xs) \<Longrightarrow> node_prev h' n = node_prev h n"
    and "\<And>n. n \<in> set (l # xs) \<Longrightarrow> node_list h' n = node_list h n"
  shows "dll l h' xs"
proof -
  have c: "chain f a ys b \<Longrightarrow> (\<And>n. n \<in> set (a # ys) \<Longrightarrow> g n = f n) \<Longrightarrow> chain g a ys b"
    for f g a ys b by (induction ys arbitrary: a) auto
  show ?thesis
    using assms c [of "node_next h" l xs l "node_next h'"]
      c [of "node_prev h" l "rev xs" l "node_prev h'"]
    by (simp add: dll_def)
qed

lemma dll_insert_frame:
  assumes "dll l h xs" "dll l' h ys" "set (l # xs) \<inter> set (l' # ys) = {}" "e \<notin> set (l' # ys)"
  shows "dll l' (list_insert h l e) ys"
proof (rule dll_cong [OF assms(2)])
  have "last (l # xs) \<in> set (l # xs)" by (rule last_in_set) simp
  then have out: "node_prev h l \<notin> set (l' # ys)" "l \<notin> set (l' # ys)"
    using assms(3) dll_prev_head [OF assms(1)] by auto
  fix n assume n: "n \<in> set (l' # ys)"
  then have ne: "n \<noteq> e" "n \<noteq> l" "n \<noteq> node_prev h l" using out assms(4) by metis+
  then show "node_next (list_insert h l e) n = node_next h n"
    "node_prev (list_insert h l e) n = node_prev h n"
    "node_list (list_insert h l e) n = node_list h n"
    by (simp_all add: list_insert_def Let_def)
qed

lemma dll_remove_frame:
  assumes d: "dll l h (xs @ e # zs)" and d': "dll l' h ys"
    and dis: "set (l # xs @ e # zs) \<inter> set (l' # ys) = {}"
  shows "dll l' (list_remove h e) ys"
proof (rule dll_cong [OF d'])
  let ?n = "hd (zs @ [l])" and ?p = "last (l # xs)"
  have dist: "distinct (l # xs @ e # zs)" using d by (simp add: dll_def)
  have pin: "?p \<in> set (l # xs)" by (rule last_in_set) simp
  have nin: "?n \<in> set (l # zs)" by (cases zs) auto
  have guard: "e \<noteq> NULL" "node_list h e = l" "l \<noteq> NULL" "e \<noteq> l"
    using d by (auto simp: dll_def)
  have pe: "?p \<noteq> e" using pin dist by (auto simp del: last.simps)
  note f = list_remove_fields [of e h ?n ?p]
  fix m assume "m \<in> set (l' # ys)"
  then have "m \<noteq> e" "m \<noteq> ?n" "m \<noteq> ?p" using dis pin nin by (auto simp del: last.simps)
  then show "node_next (list_remove h e) m = node_next h m"
    "node_prev (list_remove h e) m = node_prev h m"
    "node_list (list_remove h e) m = node_list h m"
    using f guard pe dll_neighbours [OF d] by (simp_all del: last.simps)
qed

lemma dll_next_head: "dll l h xs \<Longrightarrow> list_next h l = hd0 xs"
  by (cases xs) (auto simp: dll_def list_next_def)

lemma dll_next_elem: "dll l h (xs @ e # ys) \<Longrightarrow> list_next h e = hd0 ys"
  using dll_neighbours(1) [of l h xs e ys]
  by (cases ys) (auto simp: dll_def list_next_def)

section \<open>The loops over a list\<close>

text \<open>
  The three loop shapes of the driver: search (\<open>ctrl_find_by_pci_dev\<close>, \<open>ctrl_find_by_inode\<close>,
  \<open>map_find\<close>), drain (\<open>clear_ctrl_list\<close>, \<open>clear_map_list\<close>) and purge with a restart from the
  front after each removal (\<open>map_purge_by_owner\<close>). A corrupted list may make them run
  forever, so they are partial.
\<close>

partial_function (option) find_loop ::
  "(ptr \<Rightarrow> ptr) \<Rightarrow> (ptr \<Rightarrow> bool) \<Rightarrow> ptr \<Rightarrow> ptr option" where
  "find_loop nxt P e =
     (if e = NULL then Some NULL
      else if P e then Some e
      else find_loop nxt P (nxt e))"

partial_function (option) drain_loop ::
  "('h \<Rightarrow> ptr) \<Rightarrow> ('h \<Rightarrow> ptr \<Rightarrow> 'h) \<Rightarrow> 'h \<Rightarrow> nat \<Rightarrow> ('h \<times> nat) option" where
  "drain_loop first del h i =
     (if first h = NULL then Some (h, i)
      else drain_loop first del (del h (first h)) (i + 1))"

partial_function (option) purge_loop ::
  "('h \<Rightarrow> ptr) \<Rightarrow> ('h \<Rightarrow> ptr \<Rightarrow> ptr) \<Rightarrow> ('h \<Rightarrow> ptr \<Rightarrow> 'h) \<Rightarrow> ('h \<Rightarrow> ptr \<Rightarrow> bool) \<Rightarrow>
   'h \<Rightarrow> ptr \<Rightarrow> nat \<Rightarrow> ('h \<times> nat) option" where
  "purge_loop first nxt del P h e freed =
     (if e = NULL then Some (h, freed)
      else if P h e then purge_loop first nxt del P (del h e) (first (del h e)) (freed + 1)
      else purge_loop first nxt del P h (nxt h e) freed)"

section \<open>The registry interface\<close>

text \<open>
  What the loops rely on: \<open>first\<close> and \<open>nxt\<close> enumerate a sequence of elements, and a removal
  deletes one of them. A registry can also be extended: an insertion appends.
\<close>

locale enumerable =
  fixes reg :: "'h \<Rightarrow> ptr list \<Rightarrow> bool"
    and first :: "'h \<Rightarrow> ptr"
    and nxt :: "'h \<Rightarrow> ptr \<Rightarrow> ptr"
    and del :: "'h \<Rightarrow> ptr \<Rightarrow> 'h"
  assumes reg_distinct: "reg h xs \<Longrightarrow> distinct xs"
    and reg_not_null: "reg h xs \<Longrightarrow> NULL \<notin> set xs"
    and reg_first: "reg h xs \<Longrightarrow> first h = hd0 xs"
    and reg_nxt: "reg h (xs @ e # ys) \<Longrightarrow> nxt h e = hd0 ys"
    and reg_del: "reg h (xs @ e # ys) \<Longrightarrow> reg (del h e) (xs @ ys)"
begin

lemma find_loop_suffix:
  "reg h (ys @ xs) \<Longrightarrow>
   find_loop (nxt h) P (hd0 xs) = Some (case find P xs of None \<Rightarrow> NULL | Some x \<Rightarrow> x)"
proof (induction xs arbitrary: ys)
  case Nil
  then show ?case by (simp add: find_loop.simps)
next
  case (Cons x xs)
  have "x \<noteq> NULL" using reg_not_null [OF Cons.prems] by auto
  moreover have "nxt h x = hd0 xs" using Cons.prems by (rule reg_nxt)
  moreover have "find_loop (nxt h) P (hd0 xs) = Some (case find P xs of None \<Rightarrow> NULL | Some x \<Rightarrow> x)"
    using Cons.IH [of "ys @ [x]"] Cons.prems by simp
  ultimately show ?case by (simp add: find_loop.simps [of _ _ x])
qed

lemma find_loop_spec:
  "reg h xs \<Longrightarrow>
   find_loop (nxt h) P (first h) = Some (case find P xs of None \<Rightarrow> NULL | Some x \<Rightarrow> x)"
  using find_loop_suffix [of h "[]" xs P] by (simp add: reg_first)

lemma drain_loop_spec:
  assumes step: "\<And>h xs e. reg h xs \<Longrightarrow> e \<in> set xs \<Longrightarrow> Q h \<Longrightarrow> Q (del h e)"
  shows "reg h xs \<Longrightarrow> Q h \<Longrightarrow>
   \<exists>h'. drain_loop first del h i = Some (h', i + length xs) \<and> reg h' [] \<and> Q h'"
proof (induction xs arbitrary: h i)
  case Nil
  then show ?case by (auto simp: drain_loop.simps reg_first)
next
  case (Cons x xs)
  have "first h = x" "x \<noteq> NULL" using Cons.prems(1) reg_not_null reg_first by fastforce+
  moreover have "reg (del h x) xs" using Cons.prems(1) reg_del [of h "[]" x xs] by simp
  moreover have "Q (del h x)" using step [OF Cons.prems(1) _ Cons.prems(2)] by simp
  ultimately show ?case
    using Cons.IH [of "del h x" "i + 1"] by (simp add: drain_loop.simps [of _ _ h])
qed

lemma purge_loop_skip:
  "reg h (ys @ xs @ zs) \<Longrightarrow> \<forall>x \<in> set xs. \<not> P h x \<Longrightarrow>
   purge_loop first nxt del P h (hd0 (xs @ zs)) n = purge_loop first nxt del P h (hd0 zs) n"
proof (induction xs arbitrary: ys)
  case Nil
  then show ?case by simp
next
  case (Cons x xs)
  have "x \<noteq> NULL" using reg_not_null [OF Cons.prems(1)] by auto
  moreover have "nxt h x = hd0 (xs @ zs)" using Cons.prems(1) reg_nxt by simp
  ultimately have "purge_loop first nxt del P h (hd0 ((x # xs) @ zs)) n =
      purge_loop first nxt del P h (hd0 (xs @ zs)) n"
    using Cons.prems(2) by (simp add: purge_loop.simps [of _ _ _ _ h x])
  then show ?case using Cons.IH [of "ys @ [x]"] Cons.prems by simp
qed

text \<open>
  The loop reads the predicate in the current state. If a removal does not change it on the
  elements that remain, the loop filters with the predicate of the initial state; \<open>Q\<close> is any
  property of the state that every single removal of a selected element keeps.
\<close>

lemma purge_loop_spec:
  assumes stable: "\<And>h xs e x. reg h xs \<Longrightarrow> e \<in> set xs \<Longrightarrow> x \<in> set xs \<Longrightarrow> x \<noteq> e \<Longrightarrow>
      P (del h e) x = P h x"
    and step: "\<And>h xs e. reg h xs \<Longrightarrow> e \<in> set xs \<Longrightarrow> P h e \<Longrightarrow> Q h \<Longrightarrow> Q (del h e)"
  shows "reg h xs \<Longrightarrow> Q h \<Longrightarrow>
   \<exists>h'. purge_loop first nxt del P h (first h) n = Some (h', n + length (filter (P h) xs)) \<and>
        reg h' (filter (\<lambda>x. \<not> P h x) xs) \<and> Q h'"
proof (induction "length (filter (P h) xs)" arbitrary: h xs n)
  case 0
  then have "\<forall>x \<in> set xs. \<not> P h x" by (simp add: filter_empty_conv)
  then have "purge_loop first nxt del P h (hd0 xs) n = Some (h, n)"
    using purge_loop_skip [of h "[]" xs "[]" P n] "0.prems" by (simp add: purge_loop.simps)
  with \<open>\<forall>x \<in> set xs. \<not> P h x\<close> show ?case using "0.prems" by (simp add: reg_first)
next
  case (Suc k)
  then have "\<exists>x \<in> set xs. P h x" by (metis filter_False length_0_conv nat.simps(3))
  then obtain ys x zs where xs: "xs = ys @ x # zs" and px: "P h x" and ys: "\<forall>y \<in> set ys. \<not> P h y"
    using split_list_first_prop [of xs "P h"] by blast
  have dist: "distinct xs" using Suc.prems(1) by (rule reg_distinct)
  have "x \<noteq> NULL" using reg_not_null [OF Suc.prems(1)] xs by auto
  then have loop: "purge_loop first nxt del P h (hd0 xs) n =
      purge_loop first nxt del P (del h x) (first (del h x)) (n + 1)"
    using purge_loop_skip [of h "[]" ys "x # zs" P n] Suc.prems px ys xs
    by (simp add: purge_loop.simps [of _ _ _ _ h x])
  have reg': "reg (del h x) (ys @ zs)" using Suc.prems xs reg_del by simp
  have "P (del h x) y = P h y" if "y \<in> set (ys @ zs)" for y
    by (rule stable [OF Suc.prems(1)]) (use that dist xs in auto)
  then have same: "filter (P (del h x)) (ys @ zs) = filter (P h) (ys @ zs)"
    "filter (\<lambda>y. \<not> P (del h x) y) (ys @ zs) = filter (\<lambda>y. \<not> P h y) (ys @ zs)"
    by (auto intro!: filter_cong arg_cong2 [where f = append])
  have Q': "Q (del h x)" using step [OF Suc.prems(1) _ px Suc.prems(2)] xs by simp
  have k: "k = length (filter (P (del h x)) (ys @ zs))" using Suc.hyps(2) xs px same(1) by simp
  have f: "filter (P h) xs = x # filter (P h) (ys @ zs)"
    "filter (\<lambda>y. \<not> P h y) xs = filter (\<lambda>y. \<not> P h y) (ys @ zs)"
    using xs px ys by (auto simp: filter_empty_conv)
  show ?case
    using Suc.hyps(1) [OF k reg' Q', of "n + 1"] loop Suc.prems(1) unfolding f same
    by (simp add: reg_first)
qed

end

locale registry = enumerable reg first nxt del
  for reg :: "'h \<Rightarrow> ptr list \<Rightarrow> bool" and first nxt del +
  fixes ok :: "ptr \<Rightarrow> bool"
    and ins :: "'h \<Rightarrow> ptr \<Rightarrow> 'h"
  assumes reg_ins: "reg h xs \<Longrightarrow> ok e \<Longrightarrow> e \<notin> set xs \<Longrightarrow> reg (ins h e) (xs @ [e])"
begin

lemma ins_del:
  assumes "reg h xs" "ok e" "e \<notin> set xs"
  shows "reg (del (ins h e) e) xs"
  using reg_del [of "ins h e" xs e "[]"] reg_ins [OF assms] by simp

end

text \<open>The pointer-level list of \<open>list.c\<close> provides the interface.\<close>

interpretation dlist: registry "dll l" "\<lambda>h. list_next h l" list_next list_remove
    "\<lambda>e. e \<noteq> NULL \<and> e \<noteq> l" "\<lambda>h e. list_insert h l e" for l
  by unfold_locales
    (simp_all add: dll_distinct dll_not_null dll_next_head dll_next_elem dll_insert dll_remove)

text \<open>
  So does a plain sequence of addresses, the view of a registry in the theories that follow.
\<close>

fun seq_next :: "ptr list \<Rightarrow> ptr \<Rightarrow> ptr" where
  "seq_next [] e = NULL"
| "seq_next (x # xs) e = (if x = e then hd0 xs else seq_next xs e)"

lemma seq_next_split: "e \<notin> set xs \<Longrightarrow> seq_next (xs @ e # ys) e = hd0 ys"
  by (induction xs) auto

interpretation seq: registry "\<lambda>h xs. h = xs \<and> distinct xs \<and> NULL \<notin> set xs"
    hd0 seq_next "\<lambda>h e. remove1 e h" "\<lambda>e. e \<noteq> NULL" "\<lambda>h e. h @ [e]"
  by unfold_locales (auto simp: seq_next_split remove1_append)

section \<open>Properties\<close>

text \<open>
  (C37) Inserting an element that is not yet linked appends it to the sequence the list
  represents, leaves any other list of the heap untouched, and removing it again gives
  back the original sequence with the element's links cleared.
\<close>

theorem list_insert_remove:
  assumes "dll l h xs" and "dll l' h ys" and "set (l # xs) \<inter> set (l' # ys) = {}"
    and "e \<noteq> NULL" and "e \<notin> set (l # xs)" and "e \<notin> set (l' # ys)"
  shows "dll l (list_insert h l e) (xs @ [e]) \<and> dll l' (list_insert h l e) ys \<and>
    dll l (list_remove (list_insert h l e) e) xs \<and>
    dll l' (list_remove (list_insert h l e) e) ys \<and>
    node_list (list_remove (list_insert h l e) e) e = NULL"
proof -
  have a: "dll l (list_insert h l e) (xs @ [e])" using assms by (simp add: dll_insert)
  have b: "dll l' (list_insert h l e) ys" using assms by (simp add: dll_insert_frame)
  have c: "dll l (list_remove (list_insert h l e) e) xs"
    using dll_remove [of l "list_insert h l e" xs e "[]"] a by simp
  have d: "dll l' (list_remove (list_insert h l e) e) ys"
    using dll_remove_frame [of l "list_insert h l e" xs e "[]" l' ys] a b assms by simp
  have "node_list (list_remove (list_insert h l e) e) e = NULL"
    using assms by (auto simp: list_remove_def list_insert_def Let_def)
  with a b c d show ?thesis by simp
qed

definition heap0 :: list_heap where
  "heap0 = \<lparr>node_list = (\<lambda>_. 0), node_next = (\<lambda>_. 0), node_prev = (\<lambda>_. 0)\<rparr>"

lemma dll_heap0: "dll 1 (list_init (list_init heap0 2) 1) []" "dll 2 (list_init (list_init heap0 2) 1) []"
  by (simp_all add: dll_def list_init_def heap0_def)

theorem list_insert_remove_witness:
  "dll 1 (list_insert (list_init (list_init heap0 2) 1) 1 7) [7]"
  using list_insert_remove [OF dll_heap0, of 7] by simp

text \<open>
  (C38) The purge loop, which restarts from the front of the list after every removal,
  terminates on every well-formed list, removes exactly the elements selected by the
  predicate, keeps the others in order, and returns the number of elements removed.
\<close>

theorem purge_loop_filters:
  assumes "dll l h xs"
  shows "\<exists>h'. purge_loop (\<lambda>h. list_next h l) list_next list_remove (\<lambda>_. P) h (list_next h l) 0
                = Some (h', length (filter P xs)) \<and>
              dll l h' (filter (\<lambda>x. \<not> P x) xs)"
  using dlist.purge_loop_spec [of l "\<lambda>_. P" "\<lambda>_. True", OF _ _ assms, of 0] by simp

theorem purge_loop_filters_witness:
  "\<exists>h'. purge_loop (\<lambda>h. list_next h 1) list_next list_remove (\<lambda>_ e. e = 7)
      (list_insert (list_init (list_init heap0 2) 1) 1 7)
      (list_next (list_insert (list_init (list_init heap0 2) 1) 1 7) 1) 0 = Some (h', 1) \<and> dll 1 h' []"
proof -
  have "dll 1 (list_insert (list_init (list_init heap0 2) 1) 1 7) [7]"
    using dll_insert [OF dll_heap0(1), of 7] by simp
  from purge_loop_filters [OF this, of "\<lambda>e. e = 7"] show ?thesis by simp
qed

end
