(* ===== verification/Snvm_Dev.thy ===== *)
theory Snvm_Dev
  imports Snvm_Prelude
begin

text \<open>
  The data the shared layer of the driver works on: the constants and payloads of the user
  interface (\<open>include/uapi/tutti_snvme.h\<close>), the per-controller descriptor (\<open>snvme/ctrl.h\<close>)
  and the device structure of the 6.8 baseline (\<open>baseline/6.8/snvm_ndev.h\<close>).
\<close>

section \<open>User interface\<close>

definition TUTTI_SNVME_ABI_VERSION :: u32 where "TUTTI_SNVME_ABI_VERSION = 2"

definition TUTTI_SNVME_CAP_ALL :: u32 where
  "TUTTI_SNVME_CAP_ALL =
     or (or (or (or (push_bit 0 1) (push_bit 1 1)) (push_bit 2 1)) (push_bit 3 1)) (push_bit 4 1)"

definition NVM_MAP_KIND_UNSPECIFIED :: u8 where "NVM_MAP_KIND_UNSPECIFIED = 0"
definition NVM_MAP_KIND_RING_SQ :: u8 where "NVM_MAP_KIND_RING_SQ = 1"
definition NVM_MAP_KIND_RING_CQ :: u8 where "NVM_MAP_KIND_RING_CQ = 2"
definition NVM_MAP_KIND_DATA :: u8 where "NVM_MAP_KIND_DATA = 3"

named_theorems kind_defs

declare NVM_MAP_KIND_UNSPECIFIED_def [kind_defs] NVM_MAP_KIND_RING_SQ_def [kind_defs]
  NVM_MAP_KIND_RING_CQ_def [kind_defs] NVM_MAP_KIND_DATA_def [kind_defs]

definition NVM_MAX_GROUPS_PER_FD :: u32 where "NVM_MAX_GROUPS_PER_FD = 1"
definition NVM_MAX_QUEUES_PER_GROUP :: nat where "NVM_MAX_QUEUES_PER_GROUP = 32"

record nvm_ioctl_map =
  vaddr_start :: u64
  n_pages :: u64
  ioaddrs :: u64
  map_group_id :: u32
  map_kind :: u8
  map_reserved0 :: "u8 list"

record nvm_ioctl_dev =
  nr_user_q :: u32
  start_cq_idx :: u32
  dstrd :: u8
  max_data_size :: u64
  block_size :: u64
  disk_name :: string
  dev_q_depth :: u16
  bar0_size :: u32
  max_user_qid :: u32
  max_queues_per_group :: u32
  sgl_supported :: u32
  abi_version :: u32
  capabilities :: u32

record nvm_ioctl_queue_group =
  qg_group_id :: u32
  qg_flags :: u32
  qg_max_queues :: u32
  qg_reserved :: "u32 list"

record nvm_user_queue_pair_in =
  sq_vaddr :: u64
  cq_vaddr :: u64

record nvm_user_queue_pair_out =
  sq_doorbell_offset :: u32
  cq_doorbell_offset :: u32
  out_qid :: u32

record nvm_ioctl_add_user_queue =
  aq_group_id :: u32
  nr_pairs :: u32
  aq_flags :: u32
  aq_reserved :: "u32 list"
  aq_pairs :: "nvm_user_queue_pair_in list"
  out_pairs :: "nvm_user_queue_pair_out list"

record pci_device_addr =
  pa_domain :: int
  pa_bus :: int
  pa_slot :: int
  pa_func :: int

section \<open>Controllers\<close>

record snvm_queue_setup =
  setup_valid :: u32
  setup_cap_kernel_ioq :: u32
  setup_nr_write :: u32
  setup_nr_poll :: u32

text \<open>
  The bitmap of user queue identifiers is a list of bits whose length is a multiple of the
  word size (\<open>BITS_TO_LONGS\<close>); \<open>None\<close> is the NULL pointer of a pool not yet initialised.
\<close>

record ctrl =
  c_pdev :: pdev
  c_name :: string
  c_number :: int
  c_rdev :: "int \<times> int"
  c_chrdev :: bool
  c_setup :: snvm_queue_setup
  user_qid_bitmap :: "bool list option"
  user_qid_first :: u32
  user_qid_last :: u32

text \<open>
  The fields of \<open>struct nvme_dev\<close> (and of its embedded \<open>struct nvme_ctrl\<close>) that the modelled
  code reads or writes. \<open>admin_q\<close> says whether the admin queue pointer is non-NULL.
\<close>

record nvme_dev =
  online_queues :: u32
  online_user_queues :: u32
  user_start_qid :: u32
  max_qid :: u32
  io_queues_default :: u32
  io_queues_read :: u32
  io_queues_poll :: u32
  num_vecs :: u32
  q_depth :: u32
  db_stride :: u32
  nr_allocated_queues :: u32
  nr_write_queues :: u32
  nr_poll_queues :: u32
  ctrl_max_io_queues :: u32
  cap_kernel_ioq :: u32
  admin_q :: bool
  max_hw_sectors :: u32
  sgls :: u32
  quirks :: u64

end
