(* ===== verification/Snvm_Kernel.thy ===== *)
theory Snvm_Kernel
  imports Snvm_Prelude
begin

text \<open>
  The boundary to the code the driver calls and does not contain: the kernel's allocator,
  page and DMA services, the symbol table, and the GPU drivers. Every external call is
  recorded in a log (newest event first) and its result is a parameter of the model that may
  depend on the whole history of calls. Acquisitions and releases of resources are events of
  the log, so that the resources held at any moment are a function of it.
\<close>

section \<open>Resources and events\<close>

datatype resource =
    RMem ptr                      \<comment> \<open>heap memory\<close>
  | RPage page                    \<comment> \<open>a pinned user page\<close>
  | RDma pdev u64                 \<comment> \<open>a DMA mapping of a page for a device\<close>
  | RSym string                   \<comment> \<open>a reference to an exported symbol\<close>
  | RPt ptr                       \<comment> \<open>a page table of the NVIDIA driver\<close>
  | RPeerDma pdev ptr             \<comment> \<open>a DMA mapping of the NVIDIA driver\<close>
  | RMxMem ptr                    \<comment> \<open>memory acquired from the Metax driver\<close>
  | RMxSgt ptr ptr                \<comment> \<open>a scatter table of the Metax driver\<close>
  | RPhx ptr                      \<comment> \<open>a registration with the Phoenix service\<close>
  | RPdev pdev                    \<comment> \<open>a reference to a PCI device\<close>
  | RMinor int                    \<comment> \<open>a minor number\<close>
  | RCdev ptr                     \<comment> \<open>a character device of a controller\<close>
  | RNode "int \<times> int"             \<comment> \<open>a device node\<close>
  | RBitmap ptr                   \<comment> \<open>the identifier bitmap of a controller\<close>
  | RGroupId nat                  \<comment> \<open>an identifier of a queue group\<close>
  | RNs pdev                      \<comment> \<open>a reference to a namespace\<close>
  | RChrdevRegion | RClass | RMisc | RPciDriver

text \<open>The admin commands the shared layer sends, with the fields it fills in.\<close>

datatype admin_cmd =
    Create_CQ u64 u16 u16 u16 u16   \<comment> \<open>prp1, cqid, qsize, cq_flags, irq_vector\<close>
  | Create_SQ u64 u16 u16 u16 u16   \<comment> \<open>prp1, sqid, qsize, sq_flags, cqid\<close>
  | Delete_SQ u16
  | Delete_CQ u16

datatype kevent =
    Acq resource
  | Rel resource
  | Undef                         \<comment> \<open>an access outside an array or to memory not initialised\<close>
  | BadFree ptr                   \<comment> \<open>\<open>kfree\<close> of memory that is not from \<open>kmalloc\<close>\<close>
  | Admin pdev admin_cmd int      \<comment> \<open>an admin command and its result\<close>
  | Note string nat               \<comment> \<open>any other externally visible call\<close>

type_synonym history = "kevent list"

record kern =
  klog :: history

definition emit :: "kevent \<Rightarrow> 'a kern_scheme \<Rightarrow> 'a kern_scheme" where
  "emit e s = s\<lparr>klog := e # klog s\<rparr>"

section \<open>Resources held\<close>

fun held :: "history \<Rightarrow> resource \<Rightarrow> int" where
  "held [] r = 0"
| "held (Acq x # l) r = held l r + (if x = r then 1 else 0)"
| "held (Rel x # l) r = held l r - (if x = r then 1 else 0)"
| "held (Undef # l) r = held l r"
| "held (BadFree _ # l) r = held l r"
| "held (Admin _ _ _ # l) r = held l r"
| "held (Note _ _ # l) r = held l r"

definition cost :: "resource list \<Rightarrow> resource \<Rightarrow> int" where
  "cost xs r = int (count_list xs r)"

lemma cost_simps [simp]:
  "cost [] r = 0"
  "cost (x # xs) r = (if x = r then 1 else 0) + cost xs r"
  "cost (xs @ ys) r = cost xs r + cost ys r"
  by (simp_all add: cost_def)

text \<open>Two logs hold the same resources up to an acquired and a released list.\<close>

definition gains :: "history \<Rightarrow> resource list \<Rightarrow> history \<Rightarrow> bool" where
  "gains l xs l' \<longleftrightarrow> (\<forall>r. held l' r = held l r + cost xs r)"

lemma gains_refl [simp, intro]: "gains l [] l"
  by (simp add: gains_def)

lemma gains_trans: "gains l xs l' \<Longrightarrow> gains l' ys l'' \<Longrightarrow> gains l (xs @ ys) l''"
  by (simp add: gains_def)

lemma gains_Acq: "gains l xs l' \<Longrightarrow> gains l (xs @ [x]) (Acq x # l')"
  by (simp add: gains_def)

lemma gains_perm: "gains l xs l' \<Longrightarrow> (\<And>r. cost xs r = cost ys r) \<Longrightarrow> gains l ys l'"
  by (simp add: gains_def)

text \<open>No event of undefined behaviour in a log.\<close>

definition clean :: "history \<Rightarrow> bool" where
  "clean l \<longleftrightarrow> (\<forall>e \<in> set l. e \<noteq> Undef \<and> (\<forall>p. e \<noteq> BadFree p))"

lemma clean_simps [simp]:
  "clean []"
  "clean (Acq x # l) = clean l" "clean (Rel x # l) = clean l" "clean (Note n k # l) = clean l"
  "clean (Admin d c rc # l) = clean l"
  "\<not> clean (Undef # l)" "\<not> clean (BadFree p # l)"
  by (simp_all add: clean_def)

section \<open>The services\<close>

text \<open>
  \<open>kmalloc\<close> stands for every allocation call (\<open>kmalloc\<close>, \<open>kzalloc\<close>, \<open>kvmalloc\<close>, \<open>kvcalloc\<close>);
  NULL is failure, and \<open>is_vmalloc\<close> says whether a \<open>kvmalloc\<close> was served by \<open>vmalloc\<close>.
\<close>

record kenv =
  kmalloc :: "history \<Rightarrow> ptr"
  is_vmalloc :: "ptr \<Rightarrow> bool"
  symbol_get :: "history \<Rightarrow> string \<Rightarrow> bool"
  get_user_pages :: "history \<Rightarrow> u64 \<Rightarrow> nat \<Rightarrow> int \<times> page list"
  dma_map_page :: "history \<Rightarrow> pdev \<Rightarrow> page \<Rightarrow> u64"
  dma_mapping_error :: "pdev \<Rightarrow> u64 \<Rightarrow> int"

text \<open>The allocator never returns memory that is still allocated.\<close>

definition alloc_fresh :: "'e kenv_scheme \<Rightarrow> bool" where
  "alloc_fresh env \<longleftrightarrow> (\<forall>l. kmalloc env l \<noteq> NULL \<longrightarrow> held l (RMem (kmalloc env l)) = 0)"

definition k_alloc :: "'e kenv_scheme \<Rightarrow> 'a kern_scheme \<Rightarrow> ptr \<times> 'a kern_scheme" where
  "k_alloc env s =
     (let p = kmalloc env (klog s)
      in if p = NULL then (NULL, emit (Note ''alloc failed'' 0) s) else (p, emit (Acq (RMem p)) s))"

definition k_free :: "ptr \<Rightarrow> 'a kern_scheme \<Rightarrow> 'a kern_scheme" where
  "k_free p s = (if p = NULL then s else emit (Rel (RMem p)) s)"

text \<open>\<open>kfree\<close> applied to memory obtained from \<open>kvmalloc\<close>.\<close>

definition k_free_kv :: "'e kenv_scheme \<Rightarrow> ptr \<Rightarrow> 'a kern_scheme \<Rightarrow> 'a kern_scheme" where
  "k_free_kv env p s = (if p \<noteq> NULL \<and> is_vmalloc env p then emit (BadFree p) s else k_free p s)"

lemma klog_emit [simp]: "klog (emit e s) = e # klog s"
  by (simp add: emit_def)

lemma k_alloc_cases:
  obtains "k_alloc env s = (NULL, emit (Note ''alloc failed'' 0) s)"
  | p where "p \<noteq> NULL" "k_alloc env s = (p, emit (Acq (RMem p)) s)" "p = kmalloc env (klog s)"
  by (cases "kmalloc env (klog s) = NULL") (auto simp: k_alloc_def Let_def)

section \<open>An allocator\<close>

text \<open>An allocator with the documented behaviour: an address larger than any in the log.\<close>

fun fresh_ptr :: "history \<Rightarrow> ptr" where
  "fresh_ptr [] = 1"
| "fresh_ptr (Acq (RMem p) # l) = p + fresh_ptr l"
| "fresh_ptr (Rel (RMem p) # l) = p + fresh_ptr l"
| "fresh_ptr (e # l) = fresh_ptr l"

lemma fresh_ptr_pos: "0 < fresh_ptr l"
  by (induction l rule: fresh_ptr.induct) auto

lemma held_above_fresh: "fresh_ptr l \<le> p \<Longrightarrow> held l (RMem p) = 0"
proof (induction l rule: fresh_ptr.induct)
  case (2 q l)
  moreover have "q \<noteq> p" using 2 fresh_ptr_pos [of l] by auto
  ultimately show ?case by auto
next
  case (3 q l)
  moreover have "q \<noteq> p" using 3 fresh_ptr_pos [of l] by auto
  ultimately show ?case by auto
qed auto

end
