(* ===== verification/Snvm_Peer.thy ===== *)
theory Snvm_Peer
  imports Snvm_Kernel
begin

text \<open>
  The vendor-neutral GPU memory interface (\<open>peer_memory/peer_memory.h\<close>) and its two backends
  (\<open>peer_memory/nvidia.c\<close>, \<open>peer_memory/metax.c\<close>): symbol resolution at module load, pinning
  of a GPU range, DMA mapping for a controller, and their release. The contract the mapping
  code relies on is the locale \<open>peer_backend\<close>; both backends provide it.
\<close>

section \<open>Objects and environment\<close>

text \<open>
  A pointer to a page table or a DMA mapping carries the fields written once at creation;
  \<open>None\<close> is NULL. The number of entries of a Metax table is overwritten by every DMA mapping
  and is part of the state.
\<close>

record peer_page_table =
  pt_addr :: ptr
  pt_handle :: ptr
  pt_sgt :: ptr
  pt_length :: u64

record peer_dma_mapping =
  dm_addr :: ptr
  dm_sgt :: ptr
  dm_ptr :: ptr
  dm_list :: "u64 list"

record peer_st = kern +
  psyms :: "string \<Rightarrow> bool"
  mx_entries :: "ptr \<Rightarrow> u32"

text \<open>
  The vendor drivers: results of the calls of \<open>nvidia_p2p_*\<close> and \<open>metax_p2p_*\<close>, and the
  contents of the objects they return (entry count, bus addresses, scatter list with its
  segments of bus address and length).
\<close>

record peer_env = kenv +
  nv_get_pages :: "history \<Rightarrow> u64 \<Rightarrow> u64 \<Rightarrow> int \<times> ptr"
  nv_dma_map_pages :: "history \<Rightarrow> pdev \<Rightarrow> ptr \<Rightarrow> int \<times> ptr"
  nv_ret :: "history \<Rightarrow> int"
  nv_entries :: "ptr \<Rightarrow> u32"
  nv_dma_addresses :: "ptr \<Rightarrow> u64 list"
  mx_acquire_mem :: "history \<Rightarrow> u64 \<Rightarrow> u64 \<Rightarrow> int \<times> ptr"
  mx_get_mem :: "history \<Rightarrow> ptr \<Rightarrow> int \<times> ptr"
  mx_sgl :: "ptr \<Rightarrow> (u64 \<times> u32) list option"

record 's peer_memory_ops =
  op_init :: "'s \<Rightarrow> int \<times> 's"
  op_exit :: "'s \<Rightarrow> 's"
  op_get_pages :: "u64 \<Rightarrow> u64 \<Rightarrow> 's \<Rightarrow> int \<times> peer_page_table option \<times> 's"
  op_put_pages :: "u64 \<Rightarrow> peer_page_table option \<Rightarrow> 's \<Rightarrow> int \<times> 's"
  op_dma_map_pages :: "pdev \<Rightarrow> peer_page_table option \<Rightarrow> u32 \<Rightarrow> 's \<Rightarrow> int \<times> peer_dma_mapping option \<times> 's"
  op_dma_unmap_pages :: "pdev \<Rightarrow> peer_page_table option \<Rightarrow> peer_dma_mapping option \<Rightarrow> 's \<Rightarrow> int \<times> 's"
  op_free_dma_mapping :: "peer_dma_mapping option \<Rightarrow> 's \<Rightarrow> int \<times> 's"
  op_free_page_table :: "peer_page_table option \<Rightarrow> 's \<Rightarrow> int \<times> 's"
  op_pt_entries :: "peer_page_table option \<Rightarrow> 's \<Rightarrow> u32 option"
  op_dm_addresses :: "peer_dma_mapping option \<Rightarrow> 's \<Rightarrow> u64 list"

section \<open>Symbols\<close>

definition sym_put :: "string \<Rightarrow> 'a peer_st_scheme \<Rightarrow> 'a peer_st_scheme" where
  "sym_put n s = (if psyms s n then (emit (Rel (RSym n)) s)\<lparr>psyms := (psyms s)(n := False)\<rparr> else s)"

definition sym_get :: "'e kenv_scheme \<Rightarrow> string \<Rightarrow> 'a peer_st_scheme \<Rightarrow> 'a peer_st_scheme" where
  "sym_get env n s =
     (if psyms s n then s
      else if symbol_get env (klog s) n
      then (emit (Acq (RSym n)) s)\<lparr>psyms := (psyms s)(n := True)\<rparr>
      else emit (Note n 0) s)"

definition nv_names :: "string list" where
  "nv_names = [''nvidia_p2p_dma_unmap_pages'', ''nvidia_p2p_get_pages'', ''nvidia_p2p_put_pages'',
     ''nvidia_p2p_dma_map_pages'', ''nvidia_p2p_free_dma_mapping'', ''nvidia_p2p_free_page_table'']"

definition nvidia_peer_put_symbols :: "'a peer_st_scheme \<Rightarrow> 'a peer_st_scheme" where
  "nvidia_peer_put_symbols s = fold sym_put nv_names s"

fun nv_init_steps :: "'e kenv_scheme \<Rightarrow> string list \<Rightarrow> 'a peer_st_scheme \<Rightarrow> int \<times> 'a peer_st_scheme" where
  "nv_init_steps env [] s = (0, s)"
| "nv_init_steps env (n # ns) s =
     (let s' = sym_get env n s
      in if \<not> psyms s' n then (-1, nvidia_peer_put_symbols s') else nv_init_steps env ns s')"

definition nvidia_peer_init :: "'e kenv_scheme \<Rightarrow> 'a peer_st_scheme \<Rightarrow> int \<times> 'a peer_st_scheme" where
  "nvidia_peer_init env s = nv_init_steps env nv_names s"

definition nvidia_peer_exit :: "'a peer_st_scheme \<Rightarrow> 'a peer_st_scheme" where
  "nvidia_peer_exit s = nvidia_peer_put_symbols s"

definition mx_names :: "string list" where
  "mx_names = [''metax_p2p_acquire_mem'', ''metax_p2p_get_mem'', ''metax_p2p_put_mem'',
     ''metax_p2p_release_mem'', ''metax_p2p_get_page_size'']"

definition metax_peer_put_symbols :: "'a peer_st_scheme \<Rightarrow> 'a peer_st_scheme" where
  "metax_peer_put_symbols s = fold sym_put mx_names s"

definition metax_peer_init :: "'e kenv_scheme \<Rightarrow> 'a peer_st_scheme \<Rightarrow> int \<times> 'a peer_st_scheme" where
  "metax_peer_init env s =
     (let s' = fold (sym_get env) mx_names s
      in if list_all (psyms s') mx_names then (0, s') else (-1, metax_peer_put_symbols s'))"

definition metax_peer_exit :: "'a peer_st_scheme \<Rightarrow> 'a peer_st_scheme" where
  "metax_peer_exit s = metax_peer_put_symbols s"

section \<open>The NVIDIA backend\<close>

definition nvidia_peer_get_pages ::
  "'e peer_env_scheme \<Rightarrow> u64 \<Rightarrow> u64 \<Rightarrow> 'a peer_st_scheme \<Rightarrow> int \<times> peer_page_table option \<times> 'a peer_st_scheme" where
  "nvidia_peer_get_pages env vaddr len s =
     (if \<not> psyms s ''nvidia_p2p_get_pages'' then (-ENOMEM, None, s)
      else case nv_get_pages env (klog s) vaddr len of (ret, npt) \<Rightarrow>
        if ret \<noteq> 0 then (ret, None, emit (Note ''get_pages failed'' 0) s)
        else if npt = NULL then (0, None, emit (Note ''get_pages'' 0) s)
        else (0, Some \<lparr>pt_addr = npt, pt_handle = 0, pt_sgt = 0, pt_length = len\<rparr>,
              emit (Acq (RPt npt)) s))"

definition nvidia_peer_put_pages ::
  "'e peer_env_scheme \<Rightarrow> u64 \<Rightarrow> peer_page_table option \<Rightarrow> 'a peer_st_scheme \<Rightarrow> int \<times> 'a peer_st_scheme" where
  "nvidia_peer_put_pages env vaddr pt s =
     (if \<not> psyms s ''nvidia_p2p_put_pages'' then (-ENOMEM, s)
      else (nv_ret env (klog s),
        case pt of None \<Rightarrow> emit (Note ''put_pages'' 0) s | Some t \<Rightarrow> emit (Rel (RPt (pt_addr t))) s))"

definition nvidia_peer_dma_map_pages ::
  "'e peer_env_scheme \<Rightarrow> pdev \<Rightarrow> peer_page_table option \<Rightarrow> u32 \<Rightarrow> 'a peer_st_scheme \<Rightarrow>
   int \<times> peer_dma_mapping option \<times> 'a peer_st_scheme" where
  "nvidia_peer_dma_map_pages env peer pt expect_page_size s =
     (if \<not> psyms s ''nvidia_p2p_dma_map_pages'' then (-ENOMEM, None, s)
      else case nv_dma_map_pages env (klog s) peer (case pt of None \<Rightarrow> NULL | Some t \<Rightarrow> pt_addr t) of
        (ret, ndm) \<Rightarrow>
        if ret \<noteq> 0 then (ret, None, emit (Note ''dma_map_pages failed'' 0) s)
        else if ndm = NULL then (0, None, emit (Note ''dma_map_pages'' 0) s)
        else (0, Some \<lparr>dm_addr = ndm, dm_sgt = 0, dm_ptr = 0, dm_list = []\<rparr>,
              emit (Acq (RPeerDma peer ndm)) s))"

definition nvidia_peer_dma_unmap_pages ::
  "'e peer_env_scheme \<Rightarrow> pdev \<Rightarrow> peer_page_table option \<Rightarrow> peer_dma_mapping option \<Rightarrow>
   'a peer_st_scheme \<Rightarrow> int \<times> 'a peer_st_scheme" where
  "nvidia_peer_dma_unmap_pages env peer pt dm s =
     (if \<not> psyms s ''nvidia_p2p_dma_unmap_pages'' then (-ENOMEM, s)
      else (nv_ret env (klog s),
        case dm of None \<Rightarrow> emit (Note ''dma_unmap_pages'' 0) s
        | Some m \<Rightarrow> emit (Rel (RPeerDma peer (dm_addr m))) s))"

definition nvidia_peer_free_dma_mapping ::
  "'e peer_env_scheme \<Rightarrow> peer_dma_mapping option \<Rightarrow> 'a peer_st_scheme \<Rightarrow> int \<times> 'a peer_st_scheme" where
  "nvidia_peer_free_dma_mapping env dm s =
     (if \<not> psyms s ''nvidia_p2p_free_dma_mapping'' then (-ENOMEM, s)
      else (nv_ret env (klog s), emit (Note ''free_dma_mapping'' (case dm of None \<Rightarrow> 0 | Some m \<Rightarrow> dm_addr m)) s))"

definition nvidia_peer_free_page_table ::
  "'e peer_env_scheme \<Rightarrow> peer_page_table option \<Rightarrow> 'a peer_st_scheme \<Rightarrow> int \<times> 'a peer_st_scheme" where
  "nvidia_peer_free_page_table env pt s =
     (if \<not> psyms s ''nvidia_p2p_free_page_table'' then (-ENOMEM, s)
      else (nv_ret env (klog s),
        case pt of None \<Rightarrow> emit (Note ''free_page_table'' 0) s | Some t \<Rightarrow> emit (Rel (RPt (pt_addr t))) s))"

text \<open>\<open>None\<close> is the dereference of a NULL table, which only the Metax accessor guards against.\<close>

definition nvidia_pt_entries :: "'e peer_env_scheme \<Rightarrow> peer_page_table option \<Rightarrow> 'a peer_st_scheme \<Rightarrow> u32 option" where
  "nvidia_pt_entries env pt s = map_option (\<lambda>t. nv_entries env (pt_addr t)) pt"

definition nvidia_dm_addresses :: "'e peer_env_scheme \<Rightarrow> peer_dma_mapping option \<Rightarrow> 'a peer_st_scheme \<Rightarrow> u64 list" where
  "nvidia_dm_addresses env dm s = (case dm of None \<Rightarrow> [] | Some m \<Rightarrow> nv_dma_addresses env (dm_addr m))"

definition nvidia_ops :: "'e peer_env_scheme \<Rightarrow> 'a peer_st_scheme peer_memory_ops" where
  "nvidia_ops env =
     \<lparr>op_init = nvidia_peer_init env, op_exit = nvidia_peer_exit,
      op_get_pages = nvidia_peer_get_pages env, op_put_pages = nvidia_peer_put_pages env,
      op_dma_map_pages = nvidia_peer_dma_map_pages env,
      op_dma_unmap_pages = nvidia_peer_dma_unmap_pages env,
      op_free_dma_mapping = nvidia_peer_free_dma_mapping env,
      op_free_page_table = nvidia_peer_free_page_table env,
      op_pt_entries = nvidia_pt_entries env, op_dm_addresses = nvidia_dm_addresses env\<rparr>"

section \<open>The Metax backend\<close>

definition metax_peer_get_pages ::
  "'e peer_env_scheme \<Rightarrow> u64 \<Rightarrow> u64 \<Rightarrow> 'a peer_st_scheme \<Rightarrow> int \<times> peer_page_table option \<times> 'a peer_st_scheme" where
  "metax_peer_get_pages env vaddr len s =
     (if \<not> psyms s ''metax_p2p_acquire_mem'' \<or> \<not> psyms s ''metax_p2p_get_mem'' then (-ENOSYS, None, s)
      else case mx_acquire_mem env (klog s) vaddr len of (ret, handle) \<Rightarrow>
        if ret \<noteq> 0 then (ret, None, emit (Note ''acquire_mem failed'' 0) s)
        else
          let s1 = emit (Acq (RMxMem handle)) s
          in case mx_get_mem env (klog s1) handle of (ret, sgt) \<Rightarrow>
            if ret \<noteq> 0 then (ret, None, emit (Rel (RMxMem handle)) s1)
            else
              let s2 = emit (Acq (RMxSgt handle sgt)) s1
              in case k_alloc env s2 of (npt, s3) \<Rightarrow>
                if npt = NULL
                then (-ENOMEM, None, emit (Rel (RMxMem handle)) (emit (Rel (RMxSgt handle sgt)) s3))
                else (0, Some \<lparr>pt_addr = npt, pt_handle = handle, pt_sgt = sgt, pt_length = len\<rparr>,
                      s3\<lparr>mx_entries := (mx_entries s3)(npt := 0)\<rparr>))"

definition metax_peer_put_pages ::
  "u64 \<Rightarrow> peer_page_table option \<Rightarrow> 'a peer_st_scheme \<Rightarrow> int \<times> 'a peer_st_scheme" where
  "metax_peer_put_pages vaddr pt s =
     (case pt of None \<Rightarrow> (-EINVAL, s)
      | Some t \<Rightarrow>
          let s1 = (if psyms s ''metax_p2p_put_mem''
                    then emit (Rel (RMxSgt (pt_handle t) (pt_sgt t))) s else s);
              s2 = (if psyms s1 ''metax_p2p_release_mem''
                    then emit (Rel (RMxMem (pt_handle t))) s1 else s1)
          in (0, k_free (pt_addr t) s2))"

text \<open>
  The bus addresses of a scatter list, cut into pages of the expected size. The offset inside
  a segment is computed in 32 bits, as in the source.
\<close>

fun mx_cut :: "u64 \<Rightarrow> u32 \<Rightarrow> nat \<Rightarrow> u32 \<Rightarrow> nat \<Rightarrow> u64 list \<Rightarrow> u64 list" where
  "mx_cut addr eps expect j 0 out = out"
| "mx_cut addr eps expect j (Suc n) out =
     mx_cut addr eps expect (j + 1) n
       (if length out < expect then out @ [addr + ucast (j * eps)] else out)"

fun mx_split :: "(u64 \<times> u32) list \<Rightarrow> u32 \<Rightarrow> nat \<Rightarrow> u64 list \<Rightarrow> u64 list" where
  "mx_split [] eps expect out = out"
| "mx_split ((addr, len) # sgl) eps expect out =
     mx_split sgl eps expect (mx_cut addr eps expect 0 (unat (len div eps)) out)"

definition metax_peer_dma_map_pages ::
  "'e peer_env_scheme \<Rightarrow> pdev \<Rightarrow> peer_page_table option \<Rightarrow> u32 \<Rightarrow> 'a peer_st_scheme \<Rightarrow>
   int \<times> peer_dma_mapping option \<times> 'a peer_st_scheme" where
  "metax_peer_dma_map_pages env peer pt expect_page_size s =
     (case pt of None \<Rightarrow> (-EINVAL, None, s)
      | Some t \<Rightarrow>
        if pt_sgt t = NULL then (-EINVAL, None, s)
        else case mx_sgl env (pt_sgt t) of None \<Rightarrow> (-EINVAL, None, s)
        | Some sgl \<Rightarrow>
          (case k_alloc env s of (ndm, s1) \<Rightarrow>
           if ndm = NULL then (-ENOMEM, None, s1)
           else
             let expect_page_num = unat (ucast (pt_length t div ucast expect_page_size) :: u32)
             in case k_alloc env s1 of (dma_addrs, s2) \<Rightarrow>
               if dma_addrs = NULL then (-ENOMEM, None, k_free ndm s2)
               else
                 let out = mx_split sgl expect_page_size expect_page_num []
                 in (0, Some \<lparr>dm_addr = ndm, dm_sgt = pt_sgt t, dm_ptr = dma_addrs, dm_list = out\<rparr>,
                     s2\<lparr>mx_entries := (mx_entries s2)(pt_addr t := of_nat (length out))\<rparr>)))"

definition metax_peer_dma_unmap_pages ::
  "pdev \<Rightarrow> peer_page_table option \<Rightarrow> peer_dma_mapping option \<Rightarrow> 'a peer_st_scheme \<Rightarrow> int \<times> 'a peer_st_scheme" where
  "metax_peer_dma_unmap_pages peer pt dm s =
     (0, case dm of None \<Rightarrow> s | Some m \<Rightarrow> k_free (dm_addr m) (k_free (dm_ptr m) s))"

definition metax_peer_free_dma_mapping ::
  "peer_dma_mapping option \<Rightarrow> 'a peer_st_scheme \<Rightarrow> int \<times> 'a peer_st_scheme" where
  "metax_peer_free_dma_mapping dm s =
     (0, case dm of None \<Rightarrow> s | Some m \<Rightarrow> k_free (dm_addr m) (k_free (dm_ptr m) s))"

definition metax_peer_free_page_table ::
  "peer_page_table option \<Rightarrow> 'a peer_st_scheme \<Rightarrow> int \<times> 'a peer_st_scheme" where
  "metax_peer_free_page_table pt s =
     (case pt of None \<Rightarrow> (-EINVAL, s) | Some t \<Rightarrow> (0, k_free (pt_addr t) s))"

definition metax_pt_entries :: "peer_page_table option \<Rightarrow> 'a peer_st_scheme \<Rightarrow> u32 option" where
  "metax_pt_entries pt s =
     Some (case pt of None \<Rightarrow> 0 | Some t \<Rightarrow> if pt_sgt t = NULL then 0 else mx_entries s (pt_addr t))"

definition metax_dm_addresses :: "peer_dma_mapping option \<Rightarrow> 'a peer_st_scheme \<Rightarrow> u64 list" where
  "metax_dm_addresses dm s =
     (case dm of None \<Rightarrow> [0] | Some m \<Rightarrow> if dm_ptr m = NULL then [0] else dm_list m)"

definition metax_ops :: "'e peer_env_scheme \<Rightarrow> 'a peer_st_scheme peer_memory_ops" where
  "metax_ops env =
     \<lparr>op_init = metax_peer_init env, op_exit = metax_peer_exit,
      op_get_pages = metax_peer_get_pages env, op_put_pages = metax_peer_put_pages,
      op_dma_map_pages = metax_peer_dma_map_pages env,
      op_dma_unmap_pages = metax_peer_dma_unmap_pages,
      op_free_dma_mapping = metax_peer_free_dma_mapping,
      op_free_page_table = metax_peer_free_page_table,
      op_pt_entries = metax_pt_entries, op_dm_addresses = metax_dm_addresses\<rparr>"

section \<open>Symbol references are balanced\<close>

definition syms_res :: "string list \<Rightarrow> resource list" where
  "syms_res ns = map RSym ns"

lemma sym_put_frame [simp]:
  "peer_st.more (sym_put n s) = peer_st.more s"
  "psyms (sym_put n s) = (psyms s)(n := False)"
  "mx_entries (sym_put n s) = mx_entries s"
  by (auto simp: sym_put_def emit_def fun_eq_iff)

lemma sym_get_frame [simp]:
  "peer_st.more (sym_get env n s) = peer_st.more s"
  "mx_entries (sym_get env n s) = mx_entries s"
  by (auto simp: sym_get_def emit_def)

lemma sym_get_mono: "psyms s m \<Longrightarrow> psyms (sym_get env n s) m"
  by (auto simp: sym_get_def emit_def)

text \<open>
  \<open>sym_bal\<close> ties the pointers of the backend to the references held: since the log \<open>l\<close>, exactly
  the symbols whose pointer is set have been acquired.
\<close>

definition sym_bal :: "history \<Rightarrow> 'a peer_st_scheme \<Rightarrow> bool" where
  "sym_bal l s \<longleftrightarrow>
     (\<forall>n. held (klog s) (RSym n) = held l (RSym n) + (if psyms s n then 1 else 0)) \<and>
     (\<forall>r. r \<notin> range RSym \<longrightarrow> held (klog s) r = held l r)"

lemma sym_bal_put: "sym_bal l s \<Longrightarrow> sym_bal l (sym_put n s)"
  by (cases "psyms s n") (auto simp: sym_bal_def sym_put_def emit_def)

lemma sym_bal_get: "sym_bal l s \<Longrightarrow> sym_bal l (sym_get env n s)"
  by (cases "psyms s n"; cases "symbol_get env (klog s) n")
    (auto simp: sym_bal_def sym_get_def emit_def)

lemma puts_frame [simp]:
  "peer_st.more (fold sym_put ns s) = peer_st.more s"
  "psyms (fold sym_put ns s) = (\<lambda>m. psyms s m \<and> m \<notin> set ns)"
  "mx_entries (fold sym_put ns s) = mx_entries s"
  by (induction ns arbitrary: s) (auto simp: fun_eq_iff)

lemma gets_frame [simp]:
  "peer_st.more (fold (sym_get env) ns s) = peer_st.more s"
  "mx_entries (fold (sym_get env) ns s) = mx_entries s"
  by (induction ns arbitrary: s) auto

lemma sym_bal_puts: "sym_bal l s \<Longrightarrow> sym_bal l (fold sym_put ns s)"
  by (induction ns arbitrary: s) (auto simp: sym_bal_put)

lemma sym_bal_gets: "sym_bal l s \<Longrightarrow> sym_bal l (fold (sym_get env) ns s)"
  by (induction ns arbitrary: s) (auto simp: sym_bal_get)

lemma sym_get_other: "m \<noteq> n \<Longrightarrow> psyms (sym_get env n s) m = psyms s m"
  by (simp add: sym_get_def emit_def)

lemma gets_other: "m \<notin> set ns \<Longrightarrow> psyms (fold (sym_get env) ns s) m = psyms s m"
  by (induction ns arbitrary: s) (auto simp: sym_get_other)

lemma nv_init_steps_spec:
  assumes "nv_init_steps env ns s = (rc, s')" "sym_bal l s" "set ns \<subseteq> set nv_names"
    and "\<forall>m. psyms s m \<longrightarrow> m \<in> set nv_names"
  shows "sym_bal l s' \<and> peer_st.more s' = peer_st.more s \<and>
    (if rc = 0 then (\<forall>n \<in> set ns. psyms s' n) \<and> (\<forall>m. psyms s m \<longrightarrow> psyms s' m)
     else rc = -1 \<and> (\<forall>m. \<not> psyms s' m))"
  using assms
proof (induction ns arbitrary: s)
  case (Cons n ns)
  let ?s = "sym_get env n s"
  have b: "sym_bal l ?s" using Cons.prems(2) by (rule sym_bal_get)
  have m: "\<forall>m. psyms ?s m \<longrightarrow> m \<in> set nv_names"
    using Cons.prems(3,4) by (auto simp: sym_get_def emit_def)
  show ?case
  proof (cases "psyms ?s n")
    case True
    then have "nv_init_steps env ns ?s = (rc, s')" using Cons.prems(1) by (simp add: Let_def)
    then have ih: "sym_bal l s' \<and> peer_st.more s' = peer_st.more ?s \<and>
      (if rc = 0 then (\<forall>n \<in> set ns. psyms s' n) \<and> (\<forall>m. psyms ?s m \<longrightarrow> psyms s' m)
       else rc = -1 \<and> (\<forall>m. \<not> psyms s' m))"
      by (rule Cons.IH) (use Cons.prems(3) b m in auto)
    then show ?thesis using True sym_get_mono [of s _ env n] by (auto split: if_splits)
  next
    case False
    then have "rc = -1" "s' = fold sym_put nv_names ?s"
      using Cons.prems(1) by (auto simp: Let_def nvidia_peer_put_symbols_def)
    then show ?thesis using sym_bal_puts [OF b] m by auto
  qed
qed auto

section \<open>The contract\<close>

text \<open>
  What the mapping code relies on. A pinned range and a DMA mapping stand for resources that
  the release operation gives back completely; a failed operation leaves nothing behind.
  \<open>ready\<close> says that the backend is initialised.
\<close>

definition opt_res :: "('a \<Rightarrow> resource list) \<Rightarrow> 'a option \<Rightarrow> resource list" where
  "opt_res f x = (case x of None \<Rightarrow> [] | Some y \<Rightarrow> f y)"

lemma opt_res_simps [simp]: "opt_res f None = []" "opt_res f (Some y) = f y"
  by (simp_all add: opt_res_def)

definition keeps :: "('a peer_st_scheme \<Rightarrow> bool) \<Rightarrow> 'a peer_st_scheme \<Rightarrow> 'a peer_st_scheme \<Rightarrow> bool" where
  "keeps ready s s' \<longleftrightarrow> (ready s \<longrightarrow> ready s') \<and> peer_st.more s' = peer_st.more s \<and>
     (clean (klog s) \<longrightarrow> clean (klog s'))"

lemma keeps_refl [simp]: "keeps ready s s"
  by (simp add: keeps_def)

lemma keeps_trans: "keeps ready s s' \<Longrightarrow> keeps ready s' s'' \<Longrightarrow> keeps ready s s''"
  by (auto simp: keeps_def)

locale peer_backend =
  fixes ops :: "'a peer_st_scheme peer_memory_ops"
    and ready :: "'a peer_st_scheme \<Rightarrow> bool"
    and pt_res :: "peer_page_table \<Rightarrow> resource list"
    and dm_res :: "pdev \<Rightarrow> peer_dma_mapping \<Rightarrow> resource list"
  assumes ready_cong: "psyms s' = psyms s \<Longrightarrow> ready s' = ready s"
    and get_pages_ok: "ready s \<Longrightarrow> op_get_pages ops va len s = (rc, pt, s') \<Longrightarrow>
          keeps ready s s' \<and> (pt = None \<longleftrightarrow> rc \<noteq> 0) \<and> gains (klog s) (opt_res pt_res pt) (klog s')"
    and put_pages_ok: "ready s \<Longrightarrow> op_put_pages ops va (Some t) s = (rc, s') \<Longrightarrow>
          keeps ready s s' \<and> gains (klog s') (pt_res t) (klog s)"
    and dma_map_ok: "ready s \<Longrightarrow> op_dma_map_pages ops d pt sz s = (rc, dm, s') \<Longrightarrow>
          keeps ready s s' \<and> (dm = None \<longleftrightarrow> rc \<noteq> 0) \<and> gains (klog s) (opt_res (dm_res d) dm) (klog s')"
    and dma_unmap_ok: "ready s \<Longrightarrow> op_dma_unmap_pages ops d pt (Some m) s = (rc, s') \<Longrightarrow>
          keeps ready s s' \<and> gains (klog s') (dm_res d m) (klog s)"
    and pt_entries_ok: "op_pt_entries ops (Some t) s \<noteq> None"
begin

lemma map_unmap_balanced:
  assumes "ready s" "op_dma_map_pages ops d pt sz s = (0, Some m, s')"
    "op_dma_unmap_pages ops d pt (Some m) s' = (rc, s'')"
  shows "gains (klog s) [] (klog s'') \<and> ready s''"
  using dma_map_ok [OF assms(1,2)] dma_unmap_ok [OF _ assms(3)] assms(1)
  by (simp add: keeps_def gains_def)

end

definition nv_ready :: "'a peer_st_scheme \<Rightarrow> bool" where
  "nv_ready s \<longleftrightarrow> list_all (psyms s) nv_names"

definition nv_pt_res :: "peer_page_table \<Rightarrow> resource list" where
  "nv_pt_res t = [RPt (pt_addr t)]"

definition nv_dm_res :: "pdev \<Rightarrow> peer_dma_mapping \<Rightarrow> resource list" where
  "nv_dm_res d m = [RPeerDma d (dm_addr m)]"

text \<open>
  The NVIDIA driver never reports success with a NULL object; the backend is usable when this
  holds and its symbols are resolved.
\<close>

definition nv_nonnull :: "'e peer_env_scheme \<Rightarrow> bool" where
  "nv_nonnull env \<longleftrightarrow>
     (\<forall>l va n. fst (nv_get_pages env l va n) = 0 \<longrightarrow> snd (nv_get_pages env l va n) \<noteq> NULL) \<and>
     (\<forall>l d t. fst (nv_dma_map_pages env l d t) = 0 \<longrightarrow> snd (nv_dma_map_pages env l d t) \<noteq> NULL)"

definition nv_usable :: "'e peer_env_scheme \<Rightarrow> 'a peer_st_scheme \<Rightarrow> bool" where
  "nv_usable env s \<longleftrightarrow> nv_nonnull env \<and> nv_ready s"

lemma nv_nonnullD:
  "nv_nonnull env \<Longrightarrow> nv_get_pages env l va n \<noteq> (0, NULL)"
  "nv_nonnull env \<Longrightarrow> nv_dma_map_pages env l d t \<noteq> (0, NULL)"
  unfolding nv_nonnull_def by (metis fst_conv snd_conv)+

interpretation nvidia: peer_backend "nvidia_ops env" "nv_usable env" nv_pt_res nv_dm_res for env
  by unfold_locales
    (auto simp: nvidia_ops_def nv_usable_def nv_ready_def nv_names_def nvidia_peer_get_pages_def
      nvidia_peer_put_pages_def nvidia_peer_dma_map_pages_def nvidia_peer_dma_unmap_pages_def
      nvidia_pt_entries_def keeps_def emit_def gains_def nv_pt_res_def nv_dm_res_def nv_nonnullD
      split: prod.splits if_splits)

definition mx_ready :: "'a peer_st_scheme \<Rightarrow> bool" where
  "mx_ready s \<longleftrightarrow> list_all (psyms s) mx_names"

definition mem_res :: "ptr \<Rightarrow> resource list" where
  "mem_res p = (if p = NULL then [] else [RMem p])"

definition mx_pt_res :: "peer_page_table \<Rightarrow> resource list" where
  "mx_pt_res t = [RMxMem (pt_handle t), RMxSgt (pt_handle t) (pt_sgt t)] @ mem_res (pt_addr t)"

definition mx_dm_res :: "pdev \<Rightarrow> peer_dma_mapping \<Rightarrow> resource list" where
  "mx_dm_res d m = mem_res (dm_addr m) @ mem_res (dm_ptr m)"

lemmas mx_contract_defs = metax_ops_def mx_ready_def mx_names_def keeps_def emit_def gains_def
  k_alloc_def k_free_def mem_res_def mx_pt_res_def mx_dm_res_def Let_def

lemma metax_get_pages_ok:
  assumes "mx_ready s" and "metax_peer_get_pages env va len s = (rc, pt, s')"
  shows "keeps mx_ready s s' \<and> (pt = None \<longleftrightarrow> rc \<noteq> 0) \<and>
    gains (klog s) (opt_res mx_pt_res pt) (klog s')"
  using assms
  by (auto simp: metax_peer_get_pages_def mx_contract_defs errno_defs split: prod.splits if_splits)

lemma metax_dma_map_ok:
  assumes "mx_ready s" and "metax_peer_dma_map_pages env d pt sz s = (rc, dm, s')"
  shows "keeps mx_ready s s' \<and> (dm = None \<longleftrightarrow> rc \<noteq> 0) \<and>
    gains (klog s) (opt_res (mx_dm_res d) dm) (klog s')"
  using assms
  by (auto simp: metax_peer_dma_map_pages_def mx_contract_defs errno_defs
      split: prod.splits if_splits option.splits)

lemma metax_put_pages_ok:
  assumes "mx_ready s" and "metax_peer_put_pages va (Some t) s = (rc, s')"
  shows "keeps mx_ready s s' \<and> gains (klog s') (mx_pt_res t) (klog s)"
  using assms by (auto simp: metax_peer_put_pages_def mx_contract_defs split: if_splits)

lemma metax_dma_unmap_ok:
  assumes "mx_ready s" and "metax_peer_dma_unmap_pages d pt (Some m) s = (rc, s')"
  shows "keeps mx_ready s s' \<and> gains (klog s') (mx_dm_res d m) (klog s)"
  using assms by (auto simp: metax_peer_dma_unmap_pages_def mx_contract_defs split: if_splits)

lemma mx_ready_cong: "psyms s' = psyms s \<Longrightarrow> mx_ready s' = mx_ready s"
  by (simp add: mx_ready_def)

interpretation metax: peer_backend "metax_ops env" mx_ready mx_pt_res mx_dm_res for env
  by unfold_locales
    (unfold metax_ops_def peer_memory_ops.simps,
     (rule mx_ready_cong metax_get_pages_ok metax_put_pages_ok metax_dma_map_ok metax_dma_unmap_ok;
      assumption)+, simp add: metax_pt_entries_def)

section \<open>Cutting a scatter list into pages\<close>

text \<open>The pages of one segment, and of a list of segments, as a reference.\<close>

definition seg_pages :: "u32 \<Rightarrow> u64 \<times> u32 \<Rightarrow> u64 list" where
  "seg_pages eps seg = map (\<lambda>k. fst seg + of_nat (k * unat eps)) [0 ..< unat (snd seg) div unat eps]"

lemma mx_cut_spec:
  assumes "(j + n) * unat eps < 2 ^ 32" "j + n < 2 ^ 32"
  shows "mx_cut addr eps expect (of_nat j) n out =
    out @ take (expect - length out) (map (\<lambda>k. addr + of_nat (k * unat eps)) [j ..< j + n])"
  using assms
proof (induction n arbitrary: j out)
  case (Suc n)
  have "j * unat eps < 2 ^ 32" using Suc.prems(1) by (simp add: algebra_simps)
  then have "unat (of_nat j * eps :: u32) = j * unat eps"
    using Suc.prems(2) by (simp add: unat_word_ariths unat_of_nat take_bit_eq_mod)
  then have off: "(ucast (of_nat j * eps :: u32) :: u64) = of_nat (j * unat eps)"
    by (metis of_nat_unat)
  have IH: "mx_cut addr eps expect (of_nat (Suc j)) n out' =
      out' @ take (expect - length out') (map (\<lambda>k. addr + of_nat (k * unat eps)) [Suc j ..< Suc j + n])"
    for out' by (rule Suc.IH) (use Suc.prems in auto)
  have upt: "[j ..< j + Suc n] = j # [Suc j ..< Suc j + n]" by (simp add: upt_rec)
  have j1: "(of_nat j :: u32) + 1 = of_nat (Suc j)" by simp
  define xs where "xs = map (\<lambda>k. addr + of_nat (k * unat eps) :: u64) [Suc j ..< Suc j + n]"
  have step: "mx_cut addr eps expect (of_nat j) (Suc n) out =
      (if length out < expect
       then (out @ [addr + of_nat (j * unat eps)]) @ take (expect - Suc (length out)) xs
       else out @ take (expect - length out) xs)"
    by (simp only: mx_cut.simps j1 IH off xs_def if_distrib [of length]) simp
  have "take (expect - length out) (y # xs) = y # take (expect - Suc (length out)) xs"
    if "length out < expect" for y
    using that by (simp add: take_Cons' flip: diff_Suc_eq_diff_pred)
  then show ?case
    unfolding step upt list.map xs_def [symmetric] by simp
qed simp

lemma mx_cut_seg:
  "eps \<noteq> 0 \<Longrightarrow> mx_cut addr eps expect 0 (unat (len div eps)) out =
    out @ take (expect - length out) (seg_pages eps (addr, len))"
proof -
  assume "eps \<noteq> 0"
  have l: "unat len < 2 ^ 32" using unsigned_less [of len] by simp
  have "unat (len div eps) * unat eps \<le> unat len" "unat (len div eps) \<le> unat len"
    by (simp_all add: unat_div)
  then have "(0 + unat (len div eps)) * unat eps < 2 ^ 32" "0 + unat (len div eps) < 2 ^ 32"
    using l by simp_all
  then show ?thesis
    using mx_cut_spec [of 0 "unat (len div eps)" eps addr expect out]
    by (simp add: seg_pages_def unat_div)
qed

lemma mx_split_spec:
  "eps \<noteq> 0 \<Longrightarrow> length out \<le> expect \<Longrightarrow>
   mx_split sgl eps expect out = out @ take (expect - length out) (concat (map (seg_pages eps) sgl))"
proof (induction sgl arbitrary: out)
  case (Cons seg sgl)
  obtain addr len where seg: "seg = (addr, len)" by (cases seg)
  let ?o = "out @ take (expect - length out) (seg_pages eps (addr, len))"
  have "length ?o \<le> expect" using Cons.prems(2) by simp
  then have "mx_split sgl eps expect ?o = ?o @ take (expect - length ?o) (concat (map (seg_pages eps) sgl))"
    using Cons.IH Cons.prems(1) by blast
  then show ?case using Cons.prems seg by (auto simp: mx_cut_seg min_def)
qed simp

section \<open>Properties\<close>

lemma sym_bal_start: "\<forall>n. \<not> psyms s n \<Longrightarrow> sym_bal (klog s) s"
  by (simp add: sym_bal_def)

lemma sym_bal_none: "sym_bal l s \<Longrightarrow> \<forall>n. \<not> psyms s n \<Longrightarrow> gains l [] (klog s)"
  unfolding gains_def
proof
  fix r assume "sym_bal l s" "\<forall>n. \<not> psyms s n"
  then show "held (klog s) r = held l r + cost [] r"
    by (cases "r \<in> range RSym") (auto simp: sym_bal_def)
qed

lemma nv_init_syms:
  assumes "\<forall>n. \<not> psyms s n"
  shows "fst (nvidia_peer_init env s) = 0 \<and> nv_ready (snd (nvidia_peer_init env s)) \<or>
    fst (nvidia_peer_init env s) = -1 \<and> (\<forall>n. \<not> psyms (snd (nvidia_peer_init env s)) n)"
    and "sym_bal (klog s) (snd (nvidia_peer_init env s))"
    and "\<forall>n. psyms (snd (nvidia_peer_init env s)) n \<longrightarrow> n \<in> set nv_names"
proof -
  obtain rc s' where i: "nv_init_steps env nv_names s = (rc, s')" by fastforce
  have names: "\<forall>n. psyms s' n \<longrightarrow> n \<in> set nv_names" if "set ns \<subseteq> set nv_names"
      "nv_init_steps env ns s = (rc, s')" "\<forall>n. psyms s n \<longrightarrow> n \<in> set nv_names" for ns s
    using that
  proof (induction ns arbitrary: s)
    case (Cons n ns)
    have "\<forall>m. psyms (sym_get env n s) m \<longrightarrow> m \<in> set nv_names"
      using Cons.prems(1,3) by (auto simp: sym_get_def emit_def)
    then show ?case
      using Cons.IH [of "sym_get env n s"] Cons.prems
      by (auto simp: Let_def nvidia_peer_put_symbols_def split: if_splits)
  qed auto
  note spec = nv_init_steps_spec [OF i sym_bal_start [OF assms]]
  show "fst (nvidia_peer_init env s) = 0 \<and> nv_ready (snd (nvidia_peer_init env s)) \<or>
    fst (nvidia_peer_init env s) = -1 \<and> (\<forall>n. \<not> psyms (snd (nvidia_peer_init env s)) n)"
    and "sym_bal (klog s) (snd (nvidia_peer_init env s))"
    using spec assms i by (auto simp: nvidia_peer_init_def nv_ready_def list_all_iff split: if_splits)
  show "\<forall>n. psyms (snd (nvidia_peer_init env s)) n \<longrightarrow> n \<in> set nv_names"
    using names [OF _ i] assms i by (simp add: nvidia_peer_init_def)
qed

lemma mx_init_syms:
  assumes "\<forall>n. \<not> psyms s n"
  shows "fst (metax_peer_init env s) = 0 \<and> mx_ready (snd (metax_peer_init env s)) \<or>
    fst (metax_peer_init env s) = -1 \<and> (\<forall>n. \<not> psyms (snd (metax_peer_init env s)) n)"
    and "sym_bal (klog s) (snd (metax_peer_init env s))"
    and "\<forall>n. psyms (snd (metax_peer_init env s)) n \<longrightarrow> n \<in> set mx_names"
proof -
  let ?g = "fold (sym_get env) mx_names s"
  have g: "\<forall>n. psyms ?g n \<longrightarrow> n \<in> set mx_names" using gets_other [of _ mx_names env s] assms by auto
  have b: "sym_bal (klog s) ?g" using sym_bal_gets [OF sym_bal_start [OF assms]] .
  show "fst (metax_peer_init env s) = 0 \<and> mx_ready (snd (metax_peer_init env s)) \<or>
    fst (metax_peer_init env s) = -1 \<and> (\<forall>n. \<not> psyms (snd (metax_peer_init env s)) n)"
    using g by (auto simp: metax_peer_init_def metax_peer_put_symbols_def mx_ready_def Let_def)
  show "sym_bal (klog s) (snd (metax_peer_init env s))"
    using b sym_bal_puts [OF b] by (simp add: metax_peer_init_def metax_peer_put_symbols_def Let_def)
  show "\<forall>n. psyms (snd (metax_peer_init env s)) n \<longrightarrow> n \<in> set mx_names"
    using g by (auto simp: metax_peer_init_def metax_peer_put_symbols_def Let_def)
qed

text \<open>
  (C35) Symbol references of a GPU backend are balanced: whatever symbols the kernel can
  resolve, initialisation either succeeds with every symbol of the backend held, or returns
  \<open>-1\<close> and holds exactly the references held before; and after \<open>exit\<close> no reference taken by
  \<open>init\<close> is left. This holds for the NVIDIA backend, which stops at the first missing symbol,
  and for the Metax backend, which tries all of them first.
\<close>

theorem peer_init_exit_balanced:
  assumes "\<forall>n. \<not> psyms s n"
  shows "(case nvidia_peer_init env s of (rc, s') \<Rightarrow>
      (rc = 0 \<and> nv_ready s' \<or> rc = -1 \<and> gains (klog s) [] (klog s')) \<and>
      gains (klog s) [] (klog (nvidia_peer_exit s'))) \<and>
    (case metax_peer_init env s of (rc, s') \<Rightarrow>
      (rc = 0 \<and> mx_ready s' \<or> rc = -1 \<and> gains (klog s) [] (klog s')) \<and>
      gains (klog s) [] (klog (metax_peer_exit s')))"
proof -
  let ?n = "snd (nvidia_peer_init env s)" and ?m = "snd (metax_peer_init env s)"
  have nx: "gains (klog s) [] (klog (nvidia_peer_exit ?n))"
    using nv_init_syms(2,3) [OF assms, of env]
    by (intro sym_bal_none) (auto simp: nvidia_peer_exit_def nvidia_peer_put_symbols_def sym_bal_puts)
  have mx: "gains (klog s) [] (klog (metax_peer_exit ?m))"
    using mx_init_syms(2,3) [OF assms, of env]
    by (intro sym_bal_none) (auto simp: metax_peer_exit_def metax_peer_put_symbols_def sym_bal_puts)
  have "fst (nvidia_peer_init env s) = 0 \<and> nv_ready ?n \<or>
      fst (nvidia_peer_init env s) = -1 \<and> gains (klog s) [] (klog ?n)"
    using nv_init_syms(1,2) [OF assms, of env] sym_bal_none [of "klog s" ?n] by blast
  moreover have "fst (metax_peer_init env s) = 0 \<and> mx_ready ?m \<or>
      fst (metax_peer_init env s) = -1 \<and> gains (klog s) [] (klog ?m)"
    using mx_init_syms(1,2) [OF assms, of env] sym_bal_none [of "klog s" ?m] by blast
  ultimately show ?thesis using nx mx by (simp add: case_prod_unfold)
qed

text \<open>
  (C36) A successful DMA mapping of the Metax backend lists the bus addresses of the pages of
  the scatter list in order, cut at the expected page size and at the number of pages the
  pinned range has; the 32-bit offset inside a segment never wraps, and the entry count of
  the page table is the number of addresses.
\<close>

theorem metax_dma_map_addresses:
  assumes "metax_peer_dma_map_pages env peer (Some t) eps s = (0, dm, s')" and "eps \<noteq> 0"
  shows "\<exists>m sgl. dm = Some m \<and> mx_sgl env (pt_sgt t) = Some sgl \<and>
    metax_dm_addresses dm s' =
      take (unat (ucast (pt_length t div ucast eps) :: u32)) (concat (map (seg_pages eps) sgl)) \<and>
    metax_pt_entries (Some t) s' = Some (of_nat (length (metax_dm_addresses dm s')))"
  using assms
  by (auto simp: metax_peer_dma_map_pages_def k_alloc_def Let_def metax_dm_addresses_def
      metax_pt_entries_def mx_split_spec EINVAL_def ENOMEM_def split: option.splits if_splits prod.splits)

definition demo_penv :: peer_env where
  "demo_penv = \<lparr>kmalloc = fresh_ptr, is_vmalloc = (\<lambda>_. False), symbol_get = (\<lambda>_ _. True),
     get_user_pages = (\<lambda>_ va n. (int n, map (\<lambda>i. 1000 + i) [0 ..< n])),
     dma_map_page = (\<lambda>_ _ p. of_nat (p * 4096)), dma_mapping_error = (\<lambda>_ _. 0),
     nv_get_pages = (\<lambda>l _ _. (0, length l + 500)), nv_dma_map_pages = (\<lambda>l _ _. (0, length l + 900)),
     nv_ret = (\<lambda>_. 0), nv_entries = (\<lambda>_. 1), nv_dma_addresses = (\<lambda>_. [65536]),
     mx_acquire_mem = (\<lambda>l _ _. (0, 7)), mx_get_mem = (\<lambda>l h. (0, 8)),
     mx_sgl = (\<lambda>_. Some [(1048576, 131072), (4194304, 65536)])\<rparr>"

definition demo_peer :: peer_st where
  "demo_peer = \<lparr>klog = [], psyms = (\<lambda>_. False), mx_entries = (\<lambda>_. 0)\<rparr>"

theorem peer_init_exit_balanced_witness:
  "(\<forall>n. \<not> psyms demo_peer n) \<and>
   gains (klog demo_peer) [] (klog (nvidia_peer_exit (snd (nvidia_peer_init demo_penv demo_peer))))"
  using peer_init_exit_balanced [of demo_peer demo_penv]
  by (simp add: demo_peer_def case_prod_unfold)

theorem metax_dma_map_addresses_witness:
  "\<exists>dm s'. metax_peer_dma_map_pages demo_penv 1
      (Some \<lparr>pt_addr = 3, pt_handle = 7, pt_sgt = 8, pt_length = 131072\<rparr>) 65536 demo_peer = (0, dm, s') \<and>
    metax_dm_addresses dm s' = [1048576, 1114112]"
proof -
  let ?t = "\<lparr>pt_addr = 3, pt_handle = 7, pt_sgt = 8, pt_length = 131072\<rparr> :: peer_page_table"
  obtain dm s' where r: "metax_peer_dma_map_pages demo_penv 1 (Some ?t) 65536 demo_peer = (0, dm, s')"
    by (simp add: metax_peer_dma_map_pages_def k_alloc_def demo_penv_def demo_peer_def Let_def emit_def)
  from metax_dma_map_addresses [OF this]
  have "metax_dm_addresses dm s' =
      take 2 (concat (map (seg_pages 65536) [(1048576, 131072), (4194304, 65536)]))"
    by (auto simp: demo_penv_def)
  also have "\<dots> = [1048576, 1114112]" by (simp add: seg_pages_def upt_rec)
  finally show ?thesis using r by blast
qed

end
