(* ===== verification/Snvm_Ctrl.thy ===== *)
theory Snvm_Ctrl
  imports Snvm_List Snvm_Dev Snvm_Peer
begin

text \<open>
  Controller descriptors and their character devices (\<open>snvme/ctrl.c\<close>): creation, the two
  searches, registration, removal, and the deferred release that runs when the last reference
  to the embedded character device is dropped.
\<close>

section \<open>State\<close>

text \<open>
  \<open>ctrls\<close> holds the descriptors that have been allocated and not freed; the address of a
  descriptor stands for its list node and its character device. \<open>kref\<close> is the reference count
  of the embedded \<open>kobject\<close>; \<open>cdev_inodes\<close> and \<open>i_cdev\<close> are the two directions of the link
  between a character device and the inodes attached to it, and \<open>opens\<close> counts the open files.
\<close>

record ctrl_st = peer_st +
  ctrl_list :: "ptr list"
  ctrls :: "ptr \<Rightarrow> ctrl option"
  kref :: "ptr \<Rightarrow> nat"
  cdev_inodes :: "ptr \<Rightarrow> nat list"
  i_cdev :: "nat \<Rightarrow> ptr"
  opens :: "ptr \<Rightarrow> nat"

record ctrl_env = peer_env +
  cdev_add :: "history \<Rightarrow> int \<times> int \<Rightarrow> int"
  device_create :: "history \<Rightarrow> int \<times> int \<Rightarrow> int"

section \<open>Operations\<close>

fun dec_nat :: "nat \<Rightarrow> string" where
  "dec_nat n = (if n < 10 then [char_of (48 + n)] else dec_nat (n div 10) @ [char_of (48 + n mod 10)])"

definition dec_int :: "int \<Rightarrow> string" where
  "dec_int n = (if n < 0 then CHR ''-'' # dec_nat (nat (- n)) else dec_nat (nat n))"

definition ctrl_get :: "'e kenv_scheme \<Rightarrow> pdev \<Rightarrow> int \<Rightarrow> 'a ctrl_st_scheme \<Rightarrow> (int + ptr) \<times> 'a ctrl_st_scheme" where
  "ctrl_get env pdev number s =
     (case k_alloc env s of (p, s1) \<Rightarrow>
        if p = NULL then (Inl (-ENOMEM), s1)
        else
          let c = \<lparr>c_pdev = pdev, c_name = take 63 (''ssnvme'' @ dec_int number), c_number = number,
                   c_rdev = (0, 0), c_chrdev = False,
                   c_setup = \<lparr>setup_valid = 0, setup_cap_kernel_ioq = 0, setup_nr_write = 0, setup_nr_poll = 0\<rparr>,
                   user_qid_bitmap = None, user_qid_first = 0, user_qid_last = 0\<rparr>
          in (Inr p, s1\<lparr>ctrls := (ctrls s1)(p \<mapsto> c), ctrl_list := ctrl_list s1 @ [p]\<rparr>))"

definition ctrl_find_by_pci_dev :: "'a ctrl_st_scheme \<Rightarrow> pdev \<Rightarrow> ptr option" where
  "ctrl_find_by_pci_dev s pdev =
     find_loop (seq_next (ctrl_list s))
       (\<lambda>e. case ctrls s e of None \<Rightarrow> False | Some c \<Rightarrow> c_pdev c = pdev) (hd0 (ctrl_list s))"

definition ctrl_find_by_inode :: "'a ctrl_st_scheme \<Rightarrow> nat \<Rightarrow> ptr option" where
  "ctrl_find_by_inode s i = find_loop (seq_next (ctrl_list s)) (\<lambda>e. e = i_cdev s i) (hd0 (ctrl_list s))"

text \<open>
  The release callback: while the list of attached inodes is not empty, the first one is
  unlinked and its back pointer cleared; then the descriptor is freed.
\<close>

fun detach_inodes :: "nat list \<Rightarrow> ptr \<Rightarrow> 'a ctrl_st_scheme \<Rightarrow> 'a ctrl_st_scheme" where
  "detach_inodes [] c s = s"
| "detach_inodes (i # is) c s =
     detach_inodes is c (s\<lparr>cdev_inodes := (cdev_inodes s)(c := is), i_cdev := (i_cdev s)(i := NULL)\<rparr>)"

definition free_bitmap :: "ptr \<Rightarrow> 'a ctrl_st_scheme \<Rightarrow> 'a ctrl_st_scheme" where
  "free_bitmap c s =
     (case ctrls s c of None \<Rightarrow> s
      | Some d \<Rightarrow> if user_qid_bitmap d \<noteq> None then emit (Rel (RBitmap c)) s else s)"

definition ctrl_cdev_release :: "ptr \<Rightarrow> 'a ctrl_st_scheme \<Rightarrow> 'a ctrl_st_scheme" where
  "ctrl_cdev_release c s =
     (let s1 = free_bitmap c (detach_inodes (cdev_inodes s c) c s)
      in k_free c (s1\<lparr>ctrls := (ctrls s1)(c := None)\<rparr>))"

definition kobject_put :: "ptr \<Rightarrow> 'a ctrl_st_scheme \<Rightarrow> 'a ctrl_st_scheme" where
  "kobject_put c s =
     (let s1 = s\<lparr>kref := (kref s)(c := kref s c - 1)\<rparr>
      in if kref s1 c = 0 then ctrl_cdev_release c s1 else s1)"

definition cdev_del :: "ptr \<Rightarrow> 'a ctrl_st_scheme \<Rightarrow> 'a ctrl_st_scheme" where
  "cdev_del c s = kobject_put c (emit (Rel (RCdev c)) s)"

definition ctrl_chrdev_create ::
  "'e ctrl_env_scheme \<Rightarrow> ptr \<Rightarrow> int \<Rightarrow> 'a ctrl_st_scheme \<Rightarrow> int \<times> 'a ctrl_st_scheme" where
  "ctrl_chrdev_create env p major s =
     (case ctrls s p of None \<Rightarrow> (KERNEL_OOPS, s)
      | Some c \<Rightarrow>
          if c_chrdev c then (0, s)
          else
            let rdev = (major, c_number c);
                s1 = s\<lparr>ctrls := (ctrls s)(p \<mapsto> c\<lparr>c_rdev := rdev\<rparr>),
                       kref := (kref s)(p := 1), cdev_inodes := (cdev_inodes s)(p := [])\<rparr>;
                err = cdev_add env (klog s1) rdev
            in if err \<noteq> 0
               then (err, kobject_put p (s1\<lparr>ctrl_list := remove1 p (ctrl_list s1)\<rparr>))
               else
                 let s2 = emit (Acq (RCdev p)) s1;
                     err = device_create env (klog s2) rdev
                 in if err \<noteq> 0
                    then (err, cdev_del p (s2\<lparr>ctrl_list := remove1 p (ctrl_list s2)\<rparr>))
                    else (0, (emit (Acq (RNode rdev)) s2)
                            \<lparr>ctrls := (ctrls s2)(p \<mapsto> c\<lparr>c_rdev := rdev, c_chrdev := True\<rparr>)\<rparr>))"

definition ctrl_chrdev_remove :: "ptr \<Rightarrow> 'a ctrl_st_scheme \<Rightarrow> 'a ctrl_st_scheme" where
  "ctrl_chrdev_remove p s =
     (case ctrls s p of None \<Rightarrow> emit Undef s
      | Some c \<Rightarrow>
          if c_chrdev c then
            let rdev = c_rdev c;
                s1 = s\<lparr>ctrls := (ctrls s)(p \<mapsto> c\<lparr>c_chrdev := False\<rparr>)\<rparr>
            in emit (Rel (RNode rdev)) (cdev_del p s1)
          else s)"

definition ctrl_put :: "ptr \<Rightarrow> 'a ctrl_st_scheme \<Rightarrow> 'a ctrl_st_scheme" where
  "ctrl_put p s =
     (if p \<noteq> NULL then ctrl_chrdev_remove p (s\<lparr>ctrl_list := remove1 p (ctrl_list s)\<rparr>) else s)"

section \<open>Files and inodes of the character device\<close>

text \<open>
  What the kernel does with a registered character device: opening a file takes a reference
  and attaches the inode, the last close of a file drops the reference, and the eviction of
  an inode unlinks it from the device it is attached to.
\<close>

definition vfs_open :: "nat \<Rightarrow> ptr \<Rightarrow> 'a ctrl_st_scheme \<Rightarrow> 'a ctrl_st_scheme" where
  "vfs_open i c s =
     s\<lparr>kref := (kref s)(c := kref s c + 1), opens := (opens s)(c := opens s c + 1),
       cdev_inodes := (if i \<in> set (cdev_inodes s c) then cdev_inodes s
                       else (cdev_inodes s)(c := i # cdev_inodes s c)),
       i_cdev := (i_cdev s)(i := c)\<rparr>"

definition vfs_close :: "ptr \<Rightarrow> 'a ctrl_st_scheme \<Rightarrow> 'a ctrl_st_scheme" where
  "vfs_close c s = kobject_put c (s\<lparr>opens := (opens s)(c := opens s c - 1)\<rparr>)"

definition cd_forget :: "nat \<Rightarrow> 'a ctrl_st_scheme \<Rightarrow> 'a ctrl_st_scheme" where
  "cd_forget i s =
     s\<lparr>cdev_inodes := (cdev_inodes s)(i_cdev s i := remove1 i (cdev_inodes s (i_cdev s i))),
       i_cdev := (i_cdev s)(i := NULL)\<rparr>"

inductive ctrl_step :: "'e ctrl_env_scheme \<Rightarrow> 'a ctrl_st_scheme \<Rightarrow> 'a ctrl_st_scheme \<Rightarrow> bool"
  for env where
  step_get: "ctrl_get env pdev n s = (r, s') \<Longrightarrow> ctrl_step env s s'"
| step_create: "c \<in> set (ctrl_list s) \<Longrightarrow> ctrl_chrdev_create env c major s = (rc, s') \<Longrightarrow> ctrl_step env s s'"
| step_put: "c \<in> set (ctrl_list s) \<Longrightarrow> ctrl_step env s (ctrl_put c s)"
| step_open: "ctrls s c = Some d \<Longrightarrow> c_chrdev d \<Longrightarrow> i_cdev s i \<in> {NULL, c} \<Longrightarrow> ctrl_step env s (vfs_open i c s)"
| step_close: "opens s c > 0 \<Longrightarrow> ctrl_step env s (vfs_close c s)"
| step_evict: "i_cdev s i \<noteq> NULL \<Longrightarrow> ctrl_step env s (cd_forget i s)"

section \<open>Lifetime\<close>

definition ctrl_ok :: "'a ctrl_st_scheme \<Rightarrow> ptr \<Rightarrow> bool" where
  "ctrl_ok s c \<longleftrightarrow>
     (case ctrls s c of
        None \<Rightarrow> c \<notin> set (ctrl_list s) \<and> kref s c = 0 \<and> opens s c = 0 \<and> cdev_inodes s c = []
      | Some d \<Rightarrow> c \<noteq> NULL \<and> held (klog s) (RMem c) > 0 \<and>
          kref s c = (if c_chrdev d then 1 else 0) + opens s c \<and>
          (c_chrdev d \<longrightarrow> c \<in> set (ctrl_list s)) \<and>
          (c \<in> set (ctrl_list s) \<and> \<not> c_chrdev d \<longrightarrow> opens s c = 0 \<and> cdev_inodes s c = []))"

definition linked :: "'a ctrl_st_scheme \<Rightarrow> bool" where
  "linked s \<longleftrightarrow> (\<forall>c. distinct (cdev_inodes s c)) \<and>
     (\<forall>i c. i \<in> set (cdev_inodes s c) \<longleftrightarrow> c \<noteq> NULL \<and> i_cdev s i = c)"

definition ctrl_inv :: "'a ctrl_st_scheme \<Rightarrow> bool" where
  "ctrl_inv s \<longleftrightarrow> distinct (ctrl_list s) \<and> (\<forall>c. ctrl_ok s c) \<and> linked s"

lemma ctrl_ok_null: "ctrl_ok s NULL \<Longrightarrow> ctrls s NULL = None \<and> NULL \<notin> set (ctrl_list s) \<and> cdev_inodes s NULL = []"
  by (auto simp: ctrl_ok_def split: option.splits)

lemma detach_inodes_eq:
  "cdev_inodes s c = is \<Longrightarrow>
   detach_inodes is c s =
     s\<lparr>cdev_inodes := (cdev_inodes s)(c := []),
       i_cdev := (\<lambda>i. if i \<in> set is then NULL else i_cdev s i)\<rparr>"
proof (induction "is" arbitrary: s)
  case Nil
  then have "(cdev_inodes s)(c := []) = cdev_inodes s" by auto
  then show ?case by simp
next
  case (Cons i js)
  show ?case
    using Cons.IH [of "s\<lparr>cdev_inodes := (cdev_inodes s)(c := js), i_cdev := (i_cdev s)(i := NULL)\<rparr>"] Cons.prems
    by (auto simp: fun_eq_iff)
qed

lemma free_bitmap_eq:
  "free_bitmap c s = s\<lparr>klog := (if \<exists>d. ctrls s c = Some d \<and> user_qid_bitmap d \<noteq> None
     then [Rel (RBitmap c)] else []) @ klog s\<rparr>"
  by (simp add: free_bitmap_def emit_def split: option.splits)

lemma ctrl_cdev_release_eq:
  "ctrl_cdev_release c s =
     k_free c (s\<lparr>cdev_inodes := (cdev_inodes s)(c := []),
       i_cdev := (\<lambda>i. if i \<in> set (cdev_inodes s c) then NULL else i_cdev s i),
       klog := (if \<exists>d. ctrls s c = Some d \<and> user_qid_bitmap d \<noteq> None
         then [Rel (RBitmap c)] else []) @ klog s,
       ctrls := (ctrls s)(c := None)\<rparr>)"
  by (simp add: ctrl_cdev_release_def detach_inodes_eq free_bitmap_eq)

lemma linked_release: "linked s \<Longrightarrow> linked (ctrl_cdev_release c s)"
  by (auto simp: linked_def ctrl_cdev_release_eq k_free_def emit_def)

lemma ctrl_ok_cong:
  assumes "ctrls s' c = ctrls s c" "kref s' c = kref s c" "opens s' c = opens s c"
    "cdev_inodes s' c = cdev_inodes s c" "c \<in> set (ctrl_list s') \<longleftrightarrow> c \<in> set (ctrl_list s)"
    "held (klog s') (RMem c) = held (klog s) (RMem c)"
  shows "ctrl_ok s' c = ctrl_ok s c"
  using assms by (cases "ctrls s c") (simp_all add: ctrl_ok_def)

text \<open>An operation on one descriptor keeps the invariant if it does so there.\<close>

lemma ctrl_invI:
  assumes "ctrl_inv s" "distinct (ctrl_list s')" "linked s'" "ctrl_ok s' c"
    and "\<And>d. d \<noteq> c \<Longrightarrow> ctrls s' d = ctrls s d \<and> kref s' d = kref s d \<and> opens s' d = opens s d \<and>
      cdev_inodes s' d = cdev_inodes s d \<and> (d \<in> set (ctrl_list s') \<longleftrightarrow> d \<in> set (ctrl_list s)) \<and>
      held (klog s') (RMem d) = held (klog s) (RMem d)"
  shows "ctrl_inv s'"
  unfolding ctrl_inv_def
proof (intro conjI allI)
  fix d
  show "ctrl_ok s' d"
  proof (cases "d = c")
    case False
    then have "ctrl_ok s' d = ctrl_ok s d" using assms(5) by (intro ctrl_ok_cong) blast+
    then show ?thesis using assms(1) by (simp add: ctrl_inv_def)
  qed (use assms(4) in simp)
qed (use assms in auto)

lemma ctrl_inv_okD: "ctrl_inv s \<Longrightarrow> ctrl_ok s c"
  by (simp add: ctrl_inv_def)

lemma ctrl_inv_emit:
  assumes "ctrl_inv s" "\<And>c. held (e # klog s) (RMem c) = held (klog s) (RMem c)"
  shows "ctrl_inv (emit e s)"
proof -
  have "ctrl_ok (emit e s) c = ctrl_ok s c" for c
    using assms(2) by (intro ctrl_ok_cong) (simp_all add: emit_def)
  then show ?thesis using assms(1) by (simp add: ctrl_inv_def linked_def emit_def)
qed

text \<open>Dropping a reference of a descriptor that is off the list.\<close>

lemma ctrl_inv_kobject_put:
  assumes base: "ctrl_inv s0" and l: "linked s" and dist: "distinct (ctrl_list s)"
    and c: "c \<notin> set (ctrl_list s)" "ctrls s c = Some d" "\<not> c_chrdev d" "kref s c = Suc (opens s c)"
    and held: "held (klog s) (RMem c) > 0"
    and frame: "\<And>e. e \<noteq> c \<Longrightarrow> ctrls s e = ctrls s0 e \<and> kref s e = kref s0 e \<and> opens s e = opens s0 e \<and>
      cdev_inodes s e = cdev_inodes s0 e \<and> (e \<in> set (ctrl_list s) \<longleftrightarrow> e \<in> set (ctrl_list s0)) \<and>
      held (klog s) (RMem e) = held (klog s0) (RMem e)"
    and c0: "c \<noteq> NULL"
  shows "ctrl_inv (kobject_put c s)"
proof (cases "opens s c = 0")
  case True
  then have eq: "kobject_put c s = ctrl_cdev_release c (s\<lparr>kref := (kref s)(c := 0)\<rparr>)"
    using c by (simp add: kobject_put_def Let_def)
  show ?thesis
  proof (rule ctrl_invI [OF base])
    show "distinct (ctrl_list (kobject_put c s))"
      using dist by (simp add: eq ctrl_cdev_release_eq k_free_def emit_def)
    show "linked (kobject_put c s)"
      unfolding eq by (rule linked_release) (use l in \<open>simp add: linked_def\<close>)
    show "ctrl_ok (kobject_put c s) c"
      using c c0 True by (simp add: eq ctrl_cdev_release_eq k_free_def emit_def ctrl_ok_def)
  qed (use frame in \<open>auto simp: eq ctrl_cdev_release_eq k_free_def emit_def\<close>)
next
  case False
  then have eq: "kobject_put c s = s\<lparr>kref := (kref s)(c := opens s c)\<rparr>"
    using c by (simp add: kobject_put_def Let_def)
  show ?thesis
  proof (rule ctrl_invI [OF base])
    show "ctrl_ok (kobject_put c s) c" using c c0 held by (simp add: eq ctrl_ok_def)
    show "linked (kobject_put c s)" using l by (simp add: eq linked_def)
  qed (use frame dist in \<open>auto simp: eq\<close>)
qed

lemma ctrl_inv_get:
  assumes inv: "ctrl_inv s" and fresh: "alloc_fresh env" and g: "ctrl_get env pdev n s = (r, s')"
  shows "ctrl_inv s'"
proof (cases rule: k_alloc_cases [of env s])
  case 1
  with g have s': "s' = emit (Note ''alloc failed'' 0) s" by (simp add: ctrl_get_def)
  show ?thesis
    by (rule ctrl_invI [OF inv, where c = NULL])
      (use inv ctrl_inv_okD [OF inv, of NULL] in \<open>auto simp: s' emit_def ctrl_inv_def linked_def ctrl_ok_def split: option.splits\<close>)
next
  case (2 p)
  have "held (klog s) (RMem p) = 0" using fresh 2 by (auto simp: alloc_fresh_def)
  then have none: "ctrls s p = None" "kref s p = 0" "opens s p = 0" "cdev_inodes s p = []"
      "p \<notin> set (ctrl_list s)"
    using ctrl_inv_okD [OF inv, of p] by (auto simp: ctrl_ok_def split: option.splits)
  show ?thesis
    by (rule ctrl_invI [OF inv, where c = p])
      (use g 2 none inv \<open>held (klog s) (RMem p) = 0\<close> in
        \<open>auto simp: ctrl_get_def emit_def Let_def ctrl_inv_def linked_def ctrl_ok_def\<close>)
qed

lemma ctrl_inv_remove:
  assumes inv: "ctrl_inv s" and c: "c \<in> set (ctrl_list s)"
  shows "ctrl_inv (ctrl_put c s)"
proof -
  have null: "c \<noteq> NULL" using ctrl_ok_null [OF ctrl_inv_okD [OF inv]] c by metis
  obtain d where d: "ctrls s c = Some d" and ok: "ctrl_ok s c"
    using ctrl_inv_okD [OF inv, of c] c by (auto simp: ctrl_ok_def split: option.splits)
  let ?s1 = "s\<lparr>ctrl_list := remove1 c (ctrl_list s)\<rparr>"
  have dist: "distinct (ctrl_list s)" using inv by (simp add: ctrl_inv_def)
  show ?thesis
  proof (cases "c_chrdev d")
    case True
    let ?s2 = "emit (Rel (RCdev c)) (?s1\<lparr>ctrls := (ctrls s)(c \<mapsto> d\<lparr>c_chrdev := False\<rparr>)\<rparr>)"
    have "ctrl_inv (kobject_put c ?s2)"
      by (rule ctrl_inv_kobject_put [OF inv, where d = "d\<lparr>c_chrdev := False\<rparr>"])
        (use True d ok null inv dist in \<open>auto simp: ctrl_ok_def ctrl_inv_def linked_def emit_def\<close>)
    then have "ctrl_inv (emit (Rel (RNode (c_rdev d))) (kobject_put c ?s2))"
      by (rule ctrl_inv_emit) simp
    then show ?thesis
      using True d null by (simp add: ctrl_put_def ctrl_chrdev_remove_def cdev_del_def Let_def)
  next
    case False
    then have eq: "ctrl_put c s = ?s1" using d null by (simp add: ctrl_put_def ctrl_chrdev_remove_def)
    show ?thesis
      unfolding eq
      by (rule ctrl_invI [OF inv, where c = c])
        (use False d ok inv dist in \<open>auto simp: ctrl_ok_def ctrl_inv_def linked_def\<close>)
  qed
qed

lemma ctrl_inv_create:
  assumes inv: "ctrl_inv s" and c: "c \<in> set (ctrl_list s)"
    and cr: "ctrl_chrdev_create env c major s = (rc, s')"
  shows "ctrl_inv s'"
proof -
  have null: "c \<noteq> NULL" using ctrl_ok_null [OF ctrl_inv_okD [OF inv]] c by metis
  obtain d where d: "ctrls s c = Some d" and ok: "ctrl_ok s c"
    using ctrl_inv_okD [OF inv, of c] c by (auto simp: ctrl_ok_def split: option.splits)
  have dist: "distinct (ctrl_list s)" using inv by (simp add: ctrl_inv_def)
  let ?rdev = "(major, c_number d)"
  let ?s1 = "s\<lparr>ctrls := (ctrls s)(c \<mapsto> d\<lparr>c_rdev := ?rdev\<rparr>), kref := (kref s)(c := 1),
    cdev_inodes := (cdev_inodes s)(c := [])\<rparr>"
  let ?s2 = "emit (Acq (RCdev c)) ?s1"
  have same: "(cdev_inodes s)(c := []) = cdev_inodes s" if "\<not> c_chrdev d"
    using ok d c that by (auto simp: ctrl_ok_def)
  consider "c_chrdev d" | "\<not> c_chrdev d" "cdev_add env (klog s) ?rdev \<noteq> 0"
    | "\<not> c_chrdev d" "cdev_add env (klog s) ?rdev = 0" "device_create env (Acq (RCdev c) # klog s) ?rdev \<noteq> 0"
    | "\<not> c_chrdev d" "cdev_add env (klog s) ?rdev = 0" "device_create env (Acq (RCdev c) # klog s) ?rdev = 0"
    by blast
  then show ?thesis
  proof cases
    case 1
    then show ?thesis using cr d inv by (simp add: ctrl_chrdev_create_def)
  next
    case 2
    then have s': "s' = kobject_put c (?s1\<lparr>ctrl_list := remove1 c (ctrl_list s)\<rparr>)"
      using cr d by (simp add: ctrl_chrdev_create_def Let_def)
    show ?thesis unfolding s'
      by (rule ctrl_inv_kobject_put [OF inv, where d = "d\<lparr>c_rdev := ?rdev\<rparr>"])
        (use 2 d ok c null inv dist in \<open>auto simp: ctrl_ok_def ctrl_inv_def linked_def same\<close>)
  next
    case 3
    then have s': "s' = kobject_put c (emit (Rel (RCdev c)) (?s2\<lparr>ctrl_list := remove1 c (ctrl_list s)\<rparr>))"
      using cr d by (simp add: ctrl_chrdev_create_def cdev_del_def Let_def emit_def)
    show ?thesis unfolding s'
      by (rule ctrl_inv_kobject_put [OF inv, where d = "d\<lparr>c_rdev := ?rdev\<rparr>"])
        (use 3 d ok c null inv dist in \<open>auto simp: ctrl_ok_def ctrl_inv_def linked_def emit_def same\<close>)
  next
    case 4
    show ?thesis
      by (rule ctrl_invI [OF inv, where c = c])
        (use 4 cr d ok c null inv dist in
          \<open>auto simp: ctrl_chrdev_create_def Let_def ctrl_ok_def ctrl_inv_def linked_def emit_def same\<close>)
  qed
qed

lemma ctrl_inv_open:
  assumes inv: "ctrl_inv s" and d: "ctrls s c = Some d" "c_chrdev d" and i: "i_cdev s i \<in> {NULL, c}"
  shows "ctrl_inv (vfs_open i c s)"
proof (rule ctrl_invI [OF inv, where c = c])
  have c: "c \<noteq> NULL" using ctrl_inv_okD [OF inv, of c] d by (auto simp: ctrl_ok_def)
  have l: "linked s" using inv by (simp add: ctrl_inv_def)
  show "linked (vfs_open i c s)" using l i c by (auto simp: linked_def vfs_open_def)
  show "ctrl_ok (vfs_open i c s) c"
    using ctrl_inv_okD [OF inv, of c] d by (auto simp: ctrl_ok_def vfs_open_def)
qed (use inv in \<open>auto simp: vfs_open_def ctrl_inv_def\<close>)

lemma ctrl_inv_close:
  assumes inv: "ctrl_inv s" and o: "opens s c > 0"
  shows "ctrl_inv (vfs_close c s)"
proof -
  obtain d where d: "ctrls s c = Some d" and ok: "ctrl_ok s c"
    using ctrl_inv_okD [OF inv, of c] o by (auto simp: ctrl_ok_def split: option.splits)
  let ?s = "s\<lparr>opens := (opens s)(c := opens s c - 1)\<rparr>"
  show ?thesis
  proof (cases "c_chrdev d")
    case True
    then have eq: "vfs_close c s = ?s\<lparr>kref := (kref s)(c := opens s c)\<rparr>"
      using o d ok by (simp add: vfs_close_def kobject_put_def Let_def ctrl_ok_def)
    show ?thesis unfolding eq
      by (rule ctrl_invI [OF inv, where c = c])
        (use True d ok o inv in \<open>auto simp: ctrl_ok_def ctrl_inv_def linked_def\<close>)
  next
    case False
    show ?thesis unfolding vfs_close_def
      by (rule ctrl_inv_kobject_put [OF inv, where d = d])
        (use False d ok o inv in \<open>auto simp: ctrl_ok_def ctrl_inv_def linked_def\<close>)
  qed
qed

lemma ctrl_inv_evict:
  assumes inv: "ctrl_inv s" and i: "i_cdev s i \<noteq> NULL"
  shows "ctrl_inv (cd_forget i s)"
proof (rule ctrl_invI [OF inv, where c = "i_cdev s i"])
  have "linked s" using inv by (simp add: ctrl_inv_def)
  then show "linked (cd_forget i s)" by (auto simp: linked_def cd_forget_def)
  show "ctrl_ok (cd_forget i s) (i_cdev s i)"
    using ctrl_inv_okD [OF inv, of "i_cdev s i"] by (auto simp: ctrl_ok_def cd_forget_def split: option.splits)
qed (use inv in \<open>auto simp: cd_forget_def ctrl_inv_def\<close>)

lemma ctrl_inv_step: "ctrl_step env s s' \<Longrightarrow> alloc_fresh env \<Longrightarrow> ctrl_inv s \<Longrightarrow> ctrl_inv s'"
  by (induction rule: ctrl_step.induct)
    (blast intro: ctrl_inv_get ctrl_inv_create ctrl_inv_remove ctrl_inv_open ctrl_inv_close ctrl_inv_evict)+

lemma ctrl_inv_reach: "(ctrl_step env)\<^sup>*\<^sup>* s s' \<Longrightarrow> alloc_fresh env \<Longrightarrow> ctrl_inv s \<Longrightarrow> ctrl_inv s'"
  by (induction rule: rtranclp_induct) (blast intro: ctrl_inv_step)+

section \<open>Searches\<close>

lemma ctrl_inv_list: "ctrl_inv s \<Longrightarrow> distinct (ctrl_list s) \<and> NULL \<notin> set (ctrl_list s)"
  using ctrl_ok_null by (auto simp: ctrl_inv_def)

lemma ctrl_find_by_pci_dev_eq:
  assumes "ctrl_inv s"
  shows "ctrl_find_by_pci_dev s pdev =
    Some (case find (\<lambda>e. case ctrls s e of None \<Rightarrow> False | Some c \<Rightarrow> c_pdev c = pdev) (ctrl_list s) of
            None \<Rightarrow> NULL | Some e \<Rightarrow> e)"
  unfolding ctrl_find_by_pci_dev_def
  using ctrl_inv_list [OF assms] by (intro seq.find_loop_spec) simp

lemma ctrl_find_by_inode_eq:
  assumes "ctrl_inv s"
  shows "ctrl_find_by_inode s i = Some (if i_cdev s i \<in> set (ctrl_list s) then i_cdev s i else NULL)"
proof -
  have "find (\<lambda>e. e = c) xs = (if c \<in> set xs then Some c else None)" for c :: ptr and xs
    by (induction xs) auto
  then show ?thesis
    unfolding ctrl_find_by_inode_def
    using ctrl_inv_list [OF assms]
      seq.find_loop_spec [of "ctrl_list s" "ctrl_list s" "\<lambda>e. e = i_cdev s i"] by auto
qed

section \<open>Properties\<close>

text \<open>
  (C29) In every state reachable by creating, registering, opening, closing and removing
  controllers and by evicting inodes, in any order: an inode never points to a descriptor
  that has been freed, a descriptor with an open file is never freed, and the search by
  inode terminates and finds exactly the controller of the inode while it is registered.
\<close>

theorem ctrl_lifetime_safe:
  assumes "ctrl_inv s" and "alloc_fresh env" and "(ctrl_step env)\<^sup>*\<^sup>* s s'"
  shows "(i_cdev s' i \<noteq> NULL \<longrightarrow> ctrls s' (i_cdev s' i) \<noteq> None) \<and>
    (opens s' c > 0 \<longrightarrow> ctrls s' c \<noteq> None) \<and>
    ctrl_find_by_inode s' i = Some (if i_cdev s' i \<in> set (ctrl_list s') then i_cdev s' i else NULL)"
proof -
  have inv: "ctrl_inv s'" using ctrl_inv_reach assms by blast
  have "i \<in> set (cdev_inodes s' (i_cdev s' i))" if "i_cdev s' i \<noteq> NULL"
    using inv that by (simp add: ctrl_inv_def linked_def)
  then show ?thesis
    using ctrl_find_by_inode_eq [OF inv] ctrl_inv_okD [OF inv, of c] ctrl_inv_okD [OF inv, of "i_cdev s' i"]
    by (auto simp: ctrl_ok_def split: option.splits)
qed

text \<open>
  (C30) Creating a controller and registering its character device either succeeds, and
  removing the controller with no file open then gives back every resource and the previous
  list of controllers, or fails and has already done so: on a registration error the
  descriptor is off the list and freed, so the caller must not release it again.
\<close>

theorem ctrl_create_remove_balanced:
  assumes "ctrl_inv s" and "alloc_fresh env" and "ctrl_get env pdev n s = (Inr p, s1)"
    and "ctrl_chrdev_create env p major s1 = (rc, s2)"
  shows "let s3 = (if rc = 0 then ctrl_put p s2 else s2)
    in ctrl_list s3 = ctrl_list s \<and> ctrls s3 = ctrls s \<and> gains (klog s) [] (klog s3)"
proof -
  from assms(3) have p: "p \<noteq> NULL" "p = kmalloc env (klog s)"
    and s1: "ctrls s1 = (ctrls s)(p \<mapsto> the (ctrls s1 p))" "ctrl_list s1 = ctrl_list s @ [p]"
      "klog s1 = Acq (RMem p) # klog s" "\<not> c_chrdev (the (ctrls s1 p))" "opens s1 = opens s"
      "user_qid_bitmap (the (ctrls s1 p)) = None"
    by (auto simp: ctrl_get_def k_alloc_def Let_def emit_def split: if_splits)
  have none: "ctrls s p = None" "p \<notin> set (ctrl_list s)" "opens s p = 0"
    using p assms(2) ctrl_inv_okD [OF assms(1), of p]
    by (auto simp: alloc_fresh_def ctrl_ok_def split: option.splits)
  obtain d where d: "ctrls s1 p = Some d" using s1(1) by (metis map_upd_Some_unfold)
  have rm: "remove1 p (ctrl_list s1) = ctrl_list s" using s1(2) none(2) by (simp add: remove1_append)
  have up: "(ctrls s1)(p := None) = ctrls s" using s1(1) none(1) by (metis fun_upd_triv fun_upd_upd)
  have nd: "\<not> c_chrdev d" "user_qid_bitmap d = None" using s1(4,6) d by simp_all
  note unf = ctrl_chrdev_create_def ctrl_put_def ctrl_chrdev_remove_def cdev_del_def kobject_put_def
    ctrl_cdev_release_eq k_free_def Let_def
  show ?thesis
    using assms(4) p(1) d nd s1(3,5) none rm up
    by (auto simp: unf emit_def gains_def split: if_splits)
qed

definition demo_cenv :: ctrl_env where
  "demo_cenv = peer_env.extend demo_penv \<lparr>cdev_add = (\<lambda>_ _. 0), device_create = (\<lambda>_ _. 0)\<rparr>"

definition demo_ctrl_st :: ctrl_st where
  "demo_ctrl_st = \<lparr>klog = [], psyms = (\<lambda>_. True), mx_entries = (\<lambda>_. 0), ctrl_list = [], ctrls = Map.empty,
     kref = (\<lambda>_. 0), cdev_inodes = (\<lambda>_. []), i_cdev = (\<lambda>_. 0), opens = (\<lambda>_. 0)\<rparr>"

lemma demo_ctrl_st_inv: "ctrl_inv demo_ctrl_st"
  by (auto simp: demo_ctrl_st_def ctrl_inv_def ctrl_ok_def linked_def)

lemma demo_cenv_fresh: "alloc_fresh demo_cenv"
  by (simp add: alloc_fresh_def demo_cenv_def demo_penv_def peer_env.extend_def held_above_fresh)

theorem ctrl_lifetime_safe_witness:
  "\<exists>s'. (ctrl_step demo_cenv)\<^sup>*\<^sup>* demo_ctrl_st s' \<and> ctrl_list s' = [1] \<and> ctrl_find_by_inode s' 5 = Some NULL"
proof -
  obtain r s' where g: "ctrl_get demo_cenv 3 0 demo_ctrl_st = (r, s')" by fastforce
  then have "ctrl_step demo_cenv demo_ctrl_st s'" by (rule step_get)
  then have st: "(ctrl_step demo_cenv)\<^sup>*\<^sup>* demo_ctrl_st s'" by simp
  have l: "ctrl_list s' = [1]" "i_cdev s' 5 = NULL"
    using g by (auto simp: ctrl_get_def k_alloc_def demo_cenv_def demo_penv_def demo_ctrl_st_def
        peer_env.extend_def Let_def emit_def)
  from ctrl_lifetime_safe [OF demo_ctrl_st_inv demo_cenv_fresh st, of 5] st l show ?thesis by auto
qed

theorem ctrl_create_remove_balanced_witness:
  "\<exists>s1 s2. ctrl_get demo_cenv 3 0 demo_ctrl_st = (Inr 1, s1) \<and>
    ctrl_chrdev_create demo_cenv 1 240 s1 = (0, s2) \<and> gains [] [] (klog (ctrl_put 1 s2))"
proof -
  note d = demo_cenv_def demo_penv_def demo_ctrl_st_def peer_env.extend_def emit_def Let_def
  obtain s1 where g: "ctrl_get demo_cenv 3 0 demo_ctrl_st = (Inr 1, s1)"
    by (simp add: ctrl_get_def k_alloc_def d)
  then have "ctrls s1 1 \<noteq> None" "\<forall>c. ctrls s1 1 = Some c \<longrightarrow> \<not> c_chrdev c"
    by (auto simp: ctrl_get_def k_alloc_def d)
  then obtain s2 where c: "ctrl_chrdev_create demo_cenv 1 240 s1 = (0, s2)"
    by (auto simp: ctrl_chrdev_create_def demo_cenv_def peer_env.extend_def Let_def)
  show ?thesis
    using ctrl_create_remove_balanced [OF demo_ctrl_st_inv demo_cenv_fresh g c] g c
    by (simp add: Let_def demo_ctrl_st_def)
qed

end
