(* ===== verification/Snvm_Map.thy ===== *)
theory Snvm_Map
  imports Snvm_Ctrl
begin

text \<open>
  DMA mappings of host and GPU memory (\<open>snvme/map.c\<close>): descriptors and their registries,
  pinning and mapping of user pages, of GPU pages through a peer-memory backend or through
  the Phoenix service, the release callbacks, the callbacks of a GPU driver that reclaims
  its memory, and the purge by owner.
\<close>

section \<open>State\<close>

text \<open>
  \<open>gd_map_ptr\<close> is the address of the array \<open>gd_mappings\<close> (NULL when there is none), \<open>gd_phx\<close> the
  Phoenix handle. The custom data of a descriptor is the array of pinned pages or the GPU
  region, each with its address.
\<close>

record gpu_region =
  gd_pages :: "peer_page_table option"
  gd_map_ptr :: ptr
  gd_mappings :: "peer_dma_mapping option list"
  gd_phx :: ptr

datatype map_data = DNull | DPages ptr "page list" | DGpu ptr gpu_region

datatype release_fn = RelNone | RelUser | RelGpu | RelGpuIoq

record map_desc =
  m_owner :: task
  m_vaddr :: u64
  m_pdev :: pdev
  m_page_size :: u64
  m_data :: map_data
  m_release :: release_fn
  m_group_id :: u32
  m_kind :: u8
  m_n_addrs :: nat
  m_addrs :: "u64 list"

text \<open>
  The global lists of mappings, and the lists a mapping can hang on through its group link:
  the list of a queue group or the list of data mappings of an open file.
\<close>

datatype map_reg = Host | Device | DevQueue

datatype link_head = LGroup ptr | LData ptr

record map_st = ctrl_st +
  maps :: "ptr \<Rightarrow> map_desc option"
  mlists :: "map_reg \<Rightarrow> ptr list"
  glinks :: "link_head \<Rightarrow> ptr list"
  phx_register_fn :: bool
  phx_deregister_fn :: bool

record map_env = ctrl_env +
  phx_register :: "history \<Rightarrow> u64 \<Rightarrow> u64 \<Rightarrow> int \<times> ptr \<times> u64 list"

definition PAGE_SIZE :: u64 where "PAGE_SIZE = 4096"
definition PAGE_MASK :: u64 where "PAGE_MASK = not (PAGE_SIZE - 1)"
definition GPU_PAGE_SIZE :: u64 where "GPU_PAGE_SIZE = push_bit 16 1"
definition GPU_PAGE_MASK :: u64 where "GPU_PAGE_MASK = not (GPU_PAGE_SIZE - 1)"
definition max_num_ctrls :: nat where "max_num_ctrls = 8"

definition upd_map :: "ptr \<Rightarrow> (map_desc \<Rightarrow> map_desc) \<Rightarrow> 'a map_st_scheme \<Rightarrow> 'a map_st_scheme" where
  "upd_map p f s = (case maps s p of None \<Rightarrow> emit Undef s | Some m \<Rightarrow> s\<lparr>maps := (maps s)(p \<mapsto> f m)\<rparr>)"

section \<open>The Phoenix service\<close>

definition map_p2p_service_probe :: "'e map_env_scheme \<Rightarrow> 'a map_st_scheme \<Rightarrow> 'a map_st_scheme" where
  "map_p2p_service_probe env s =
     (let r = symbol_get env (klog s) ''phxfs_p2p_register'';
          s1 = (emit (if r then Acq (RSym ''phxfs_p2p_register'') else Note ''no symbol'' 0) s)
                 \<lparr>phx_register_fn := r\<rparr>;
          d = symbol_get env (klog s1) ''phxfs_p2p_deregister'';
          s2 = (emit (if d then Acq (RSym ''phxfs_p2p_deregister'') else Note ''no symbol'' 0) s1)
                 \<lparr>phx_deregister_fn := d\<rparr>
      in if r \<and> d then s2
         else
           let s3 = (if r then (emit (Rel (RSym ''phxfs_p2p_register'')) s2)\<lparr>phx_register_fn := False\<rparr> else s2)
           in if d then (emit (Rel (RSym ''phxfs_p2p_deregister'')) s3)\<lparr>phx_deregister_fn := False\<rparr> else s3)"

definition map_p2p_service_release :: "'a map_st_scheme \<Rightarrow> 'a map_st_scheme" where
  "map_p2p_service_release s =
     (let s1 = (if phx_register_fn s
                then (emit (Rel (RSym ''phxfs_p2p_register'')) s)\<lparr>phx_register_fn := False\<rparr> else s)
      in if phx_deregister_fn s1
         then (emit (Rel (RSym ''phxfs_p2p_deregister'')) s1)\<lparr>phx_deregister_fn := False\<rparr> else s1)"

section \<open>Descriptors\<close>

definition create_descriptor ::
  "'e kenv_scheme \<Rightarrow> task \<Rightarrow> pdev \<Rightarrow> u64 \<Rightarrow> nat \<Rightarrow> 'a map_st_scheme \<Rightarrow> (int + ptr) \<times> 'a map_st_scheme" where
  "create_descriptor env cur pdev vaddr npages s =
     (case k_alloc env s of (p, s1) \<Rightarrow>
        if p = NULL then (Inl (-ENOMEM), s1)
        else (Inr p, s1\<lparr>maps := (maps s1)(p \<mapsto>
               \<lparr>m_owner = cur, m_vaddr = vaddr, m_pdev = pdev, m_page_size = 0, m_data = DNull,
                m_release = RelNone, m_group_id = 0, m_kind = 0, m_n_addrs = npages,
                m_addrs = replicate npages 0\<rparr>)\<rparr>))"

definition pdevs :: "'a ctrl_st_scheme \<Rightarrow> pdev list" where
  "pdevs s = map (\<lambda>c. case ctrls s c of None \<Rightarrow> 0 | Some d \<Rightarrow> c_pdev d) (ctrl_list s)"

section \<open>Release callbacks\<close>

definition emit_all :: "kevent list \<Rightarrow> 'a kern_scheme \<Rightarrow> 'a kern_scheme" where
  "emit_all es s = fold emit es s"

definition release_user_pages :: "ptr \<Rightarrow> 'a map_st_scheme \<Rightarrow> 'a map_st_scheme" where
  "release_user_pages p s =
     (case maps s p of None \<Rightarrow> emit Undef s
      | Some m \<Rightarrow>
        (case m_data m of
           DPages a pages \<Rightarrow>
             let s1 = emit_all (map (\<lambda>i. Rel (RDma (m_pdev m) (m_addrs m ! i))) [0 ..< m_n_addrs m]) s;
                 s2 = emit_all (map (\<lambda>i. Rel (RPage (pages ! i))) [0 ..< m_n_addrs m]) s1
             in upd_map p (\<lambda>m. m\<lparr>m_data := DNull\<rparr>) (k_free a s2)
         | _ \<Rightarrow> emit Undef s))"

text \<open>
  The loop over the controllers that unmaps a GPU region: the index into the array advances
  only past mappings that exist.
\<close>

fun gpu_unmap_loop ::
  "'a map_st_scheme peer_memory_ops \<Rightarrow> pdev list \<Rightarrow> peer_page_table option \<Rightarrow>
   peer_dma_mapping option list \<Rightarrow> nat \<Rightarrow> 'a map_st_scheme \<Rightarrow> 'a map_st_scheme" where
  "gpu_unmap_loop ops [] pt ms j s = s"
| "gpu_unmap_loop ops (d # ds) pt ms j s =
     (if j \<ge> length ms then gpu_unmap_loop ops ds pt ms j (emit Undef s)
      else case ms ! j of
        None \<Rightarrow> gpu_unmap_loop ops ds pt ms j s
      | Some m \<Rightarrow> gpu_unmap_loop ops ds pt ms (j + 1) (snd (op_dma_unmap_pages ops d pt (Some m) s)))"

definition release_gpu_memory ::
  "'a map_st_scheme peer_memory_ops \<Rightarrow> ptr \<Rightarrow> 'a map_st_scheme \<Rightarrow> 'a map_st_scheme" where
  "release_gpu_memory ops p s =
     (case maps s p of None \<Rightarrow> emit Undef s
      | Some m \<Rightarrow>
        (case m_data m of
           DGpu a gd \<Rightarrow>
             if gd_phx gd \<noteq> NULL then
               let s1 = (if phx_deregister_fn s then emit (Rel (RPhx (gd_phx gd))) s else s)
               in upd_map p (\<lambda>m. m\<lparr>m_data := DNull\<rparr>) (k_free a s1)
             else
               let s1 = (if gd_map_ptr gd \<noteq> NULL
                         then k_free (gd_map_ptr gd) (gpu_unmap_loop ops (pdevs s) (gd_pages gd) (gd_mappings gd) 0 s)
                         else s);
                   s2 = (if gd_pages gd \<noteq> None then snd (op_put_pages ops (m_vaddr m) (gd_pages gd) s1) else s1)
               in upd_map p (\<lambda>m. m\<lparr>m_data := DNull\<rparr>) (k_free a s2)
         | DNull \<Rightarrow> s
         | _ \<Rightarrow> emit Undef s))"

text \<open>
  The single mapping of a queue region. Its array is not initialised when it is allocated,
  which the empty list stands for; reading it then is undefined.
\<close>

definition ioq_unmap ::
  "'a map_st_scheme peer_memory_ops \<Rightarrow> pdev \<Rightarrow> gpu_region \<Rightarrow> 'a map_st_scheme \<Rightarrow> 'a map_st_scheme" where
  "ioq_unmap ops d gd s =
     (case gd_mappings gd of
        [] \<Rightarrow> emit Undef s
      | x # _ \<Rightarrow> (if x \<noteq> None then snd (op_dma_unmap_pages ops d (gd_pages gd) x s) else s))"

definition release_gpu_ioqueue_memory ::
  "'a map_st_scheme peer_memory_ops \<Rightarrow> ptr \<Rightarrow> 'a map_st_scheme \<Rightarrow> 'a map_st_scheme" where
  "release_gpu_ioqueue_memory ops p s =
     (case maps s p of None \<Rightarrow> emit Undef s
      | Some m \<Rightarrow>
        (case m_data m of
           DGpu a gd \<Rightarrow>
             let s1 = (if gd_map_ptr gd \<noteq> NULL
                       then k_free (gd_map_ptr gd) (ioq_unmap ops (m_pdev m) gd s)
                       else s);
                 s2 = (if gd_pages gd \<noteq> None then snd (op_put_pages ops (m_vaddr m) (gd_pages gd) s1) else s1)
             in upd_map p (\<lambda>m. m\<lparr>m_data := DNull\<rparr>) (k_free a s2)
         | DNull \<Rightarrow> s
         | _ \<Rightarrow> emit Undef s))"

definition run_release ::
  "'a map_st_scheme peer_memory_ops \<Rightarrow> release_fn \<Rightarrow> ptr \<Rightarrow> 'a map_st_scheme \<Rightarrow> 'a map_st_scheme" where
  "run_release ops r p s =
     (case r of RelNone \<Rightarrow> s | RelUser \<Rightarrow> release_user_pages p s
      | RelGpu \<Rightarrow> release_gpu_memory ops p s | RelGpuIoq \<Rightarrow> release_gpu_ioqueue_memory ops p s)"

definition unlink_map :: "ptr \<Rightarrow> 'a map_st_scheme \<Rightarrow> 'a map_st_scheme" where
  "unlink_map p s = s\<lparr>mlists := (\<lambda>r. remove1 p (mlists s r)), glinks := (\<lambda>h. remove1 p (glinks s h))\<rparr>"

definition unmap_and_release ::
  "'a map_st_scheme peer_memory_ops \<Rightarrow> ptr \<Rightarrow> 'a map_st_scheme \<Rightarrow> 'a map_st_scheme" where
  "unmap_and_release ops p s =
     (case maps s p of None \<Rightarrow> emit Undef s
      | Some m \<Rightarrow>
          let s1 = unlink_map p s;
              s2 = (if m_release m \<noteq> RelNone \<and> m_data m \<noteq> DNull then run_release ops (m_release m) p s1 else s1)
          in k_free p (s2\<lparr>maps := (maps s2)(p := None)\<rparr>))"

section \<open>Searches and purge\<close>

definition map_matches :: "task \<Rightarrow> u64 \<Rightarrow> 'a map_st_scheme \<Rightarrow> ptr \<Rightarrow> bool" where
  "map_matches cur vaddr s p =
     (case maps s p of None \<Rightarrow> False
      | Some m \<Rightarrow> m_owner m = cur \<and>
          (m_vaddr m = and vaddr PAGE_MASK \<or> m_vaddr m = and vaddr GPU_PAGE_MASK))"

definition map_find :: "map_reg \<Rightarrow> task \<Rightarrow> u64 \<Rightarrow> 'a map_st_scheme \<Rightarrow> ptr option" where
  "map_find r cur vaddr s =
     find_loop (seq_next (mlists s r)) (map_matches cur vaddr s) (hd0 (mlists s r))"

definition purgeable :: "task \<Rightarrow> 'a map_st_scheme \<Rightarrow> ptr \<Rightarrow> bool" where
  "purgeable owner s p =
     (case maps s p of None \<Rightarrow> False | Some m \<Rightarrow> m_owner m = owner \<and> m_group_id m = 0)"

definition map_purge_by_owner ::
  "'a map_st_scheme peer_memory_ops \<Rightarrow> map_reg \<Rightarrow> task \<Rightarrow> 'a map_st_scheme \<Rightarrow> ('a map_st_scheme \<times> nat) option" where
  "map_purge_by_owner ops r owner s =
     (if owner = NULL then Some (s, 0)
      else purge_loop (\<lambda>s. hd0 (mlists s r)) (\<lambda>s. seq_next (mlists s r))
             (\<lambda>s p. unmap_and_release ops p s) (purgeable owner) s (hd0 (mlists s r)) 0)"

section \<open>Host memory\<close>

fun dma_map_loop ::
  "'e kenv_scheme \<Rightarrow> pdev \<Rightarrow> page list \<Rightarrow> nat \<Rightarrow> u64 list \<Rightarrow> 'a map_st_scheme \<Rightarrow> int \<times> u64 list \<times> 'a map_st_scheme" where
  "dma_map_loop env d [] i addrs s = (0, addrs, s)"
| "dma_map_loop env d (pg # pgs) i addrs s =
     (let a = dma_map_page env (klog s) d pg;
          addrs' = addrs[i := a];
          err = dma_mapping_error env d a
      in if err \<noteq> 0 then (err, addrs', emit (Note ''dma_map_page failed'' 0) s)
         else dma_map_loop env d pgs (i + 1) addrs' (emit (Acq (RDma d a)) s))"

definition map_user_pages :: "'e kenv_scheme \<Rightarrow> ptr \<Rightarrow> 'a map_st_scheme \<Rightarrow> int \<times> 'a map_st_scheme" where
  "map_user_pages env p s =
     (case maps s p of None \<Rightarrow> (KERNEL_OOPS, s)
      | Some m \<Rightarrow>
        (case k_alloc env s of (a, s1) \<Rightarrow>
         if a = NULL then (-ENOMEM, s1)
         else case get_user_pages env (klog s1) (m_vaddr m) (m_n_addrs m) of (retval, pages) \<Rightarrow>
           if retval \<le> 0 then (retval, k_free_kv env a (emit (Note ''get_user_pages failed'' 0) s1))
           else
             let s2 = emit_all (map (\<lambda>pg. Acq (RPage pg)) pages) s1;
                 m' = m\<lparr>m_n_addrs := nat retval, m_page_size := PAGE_SIZE, m_data := DPages a pages,
                        m_release := RelUser\<rparr>
             in case dma_map_loop env (m_pdev m) pages 0 (m_addrs m) s2 of (err, addrs, s3) \<Rightarrow>
               (err, s3\<lparr>maps := (maps s3)(p \<mapsto> m'\<lparr>m_addrs := addrs\<rparr>)\<rparr>)))"

definition list_insert_map :: "map_reg \<Rightarrow> ptr \<Rightarrow> 'a map_st_scheme \<Rightarrow> 'a map_st_scheme" where
  "list_insert_map r p s = s\<lparr>mlists := (mlists s)(r := mlists s r @ [p])\<rparr>"

definition map_userspace ::
  "'e kenv_scheme \<Rightarrow> 'a map_st_scheme peer_memory_ops \<Rightarrow> task \<Rightarrow> pdev \<Rightarrow> u64 \<Rightarrow> nat \<Rightarrow>
   'a map_st_scheme \<Rightarrow> (int + ptr) \<times> 'a map_st_scheme" where
  "map_userspace env ops cur pdev vaddr npages s =
     (if npages < 1 then (Inl (-EINVAL), s)
      else case create_descriptor env cur pdev (and vaddr PAGE_MASK) npages s of
        (Inl e, s1) \<Rightarrow> (Inl e, s1)
      | (Inr md, s1) \<Rightarrow>
          (case map_user_pages env md (upd_map md (\<lambda>m. m\<lparr>m_page_size := PAGE_SIZE\<rparr>) s1) of (err, s2) \<Rightarrow>
           if err \<noteq> 0 then (Inl err, unmap_and_release ops md s2)
           else (Inr md, list_insert_map Host md s2)))"

section \<open>GPU memory\<close>

text \<open>Copying \<open>n\<close> bus addresses out of an array; reading past its end is undefined.\<close>

definition copy_addrs :: "nat \<Rightarrow> u64 list \<Rightarrow> 'a kern_scheme \<Rightarrow> u64 list \<times> 'a kern_scheme" where
  "copy_addrs n xs s =
     (if n \<le> length xs then (take n xs, s) else (xs @ replicate (n - length xs) 0, emit Undef s))"

fun gpu_map_loop ::
  "'a map_st_scheme peer_memory_ops \<Rightarrow> pdev list \<Rightarrow> peer_page_table option \<Rightarrow> u32 \<Rightarrow>
   peer_dma_mapping option list \<Rightarrow> nat \<Rightarrow> nat \<Rightarrow> u64 list \<Rightarrow> 'a map_st_scheme \<Rightarrow>
   int \<times> peer_dma_mapping option list \<times> u64 list \<times> 'a map_st_scheme" where
  "gpu_map_loop ops [] pt psz ms j n addrs s = (0, ms, addrs, s)"
| "gpu_map_loop ops (d # ds) pt psz ms j n addrs s =
     (case op_dma_map_pages ops d pt psz s of (err, dm, s1) \<Rightarrow>
        if err \<noteq> 0 then (err, ms, addrs, s1)
        else
          let s2 = (if j < length ms then s1 else emit Undef s1);
              ms' = ms[j := dm]
          in case (if j = 0 then copy_addrs n (op_dm_addresses ops dm s2) s2 else (addrs, s2)) of (addrs', s3) \<Rightarrow>
            gpu_map_loop ops ds pt psz ms' (j + 1) n addrs' s3)"

definition finish_gpu ::
  "'a map_st_scheme peer_memory_ops \<Rightarrow> ptr \<Rightarrow> peer_page_table option \<Rightarrow> 'a map_st_scheme \<Rightarrow> int \<times> 'a map_st_scheme" where
  "finish_gpu ops p pt s =
     (case op_pt_entries ops pt s of None \<Rightarrow> (KERNEL_OOPS, s)
      | Some n \<Rightarrow> (0, upd_map p (\<lambda>m. m\<lparr>m_n_addrs := unat n\<rparr>) s))"

definition set_gd :: "ptr \<Rightarrow> ptr \<Rightarrow> gpu_region \<Rightarrow> 'a map_st_scheme \<Rightarrow> 'a map_st_scheme" where
  "set_gd p a gd s = upd_map p (\<lambda>m. m\<lparr>m_data := DGpu a gd\<rparr>) s"

text \<open>
  The normal path of \<open>map_gpu_memory\<close>: the array of mappings, the pinned range, and one DMA
  mapping per controller.
\<close>

definition map_gpu_peer ::
  "'e kenv_scheme \<Rightarrow> 'a map_st_scheme peer_memory_ops \<Rightarrow> ptr \<Rightarrow> map_desc \<Rightarrow> ptr \<Rightarrow> gpu_region \<Rightarrow>
   'a map_st_scheme \<Rightarrow> int \<times> 'a map_st_scheme" where
  "map_gpu_peer env ops p m a gd s =
     (case k_alloc env s of (b, s3) \<Rightarrow>
      if b = NULL then (-ENOMEM, s3)
      else
        let gd1 = gd\<lparr>gd_map_ptr := b, gd_mappings := replicate max_num_ctrls None\<rparr>;
            s4 = set_gd p a gd1 s3
        in case op_get_pages ops (m_vaddr m) (GPU_PAGE_SIZE * of_nat (m_n_addrs m)) s4 of (err, pt, s5) \<Rightarrow>
          if err \<noteq> 0 then (err, s5)
          else
            let gd2 = gd1\<lparr>gd_pages := pt\<rparr>
            in case gpu_map_loop ops (pdevs s5) pt (ucast GPU_PAGE_SIZE) (gd_mappings gd2) 0
                      (m_n_addrs m) (m_addrs m) s5 of (err, ms, addrs, s6) \<Rightarrow>
              let s7 = upd_map p (\<lambda>m. m\<lparr>m_addrs := addrs\<rparr>) (set_gd p a (gd2\<lparr>gd_mappings := ms\<rparr>) s6)
              in if err \<noteq> 0 then (err, s7) else finish_gpu ops p pt s7)"

definition gd_null :: gpu_region where
  "gd_null = \<lparr>gd_pages = None, gd_map_ptr = NULL, gd_mappings = [], gd_phx = NULL\<rparr>"

definition map_gpu_memory ::
  "'e map_env_scheme \<Rightarrow> 'a map_st_scheme peer_memory_ops \<Rightarrow> ptr \<Rightarrow> 'a map_st_scheme \<Rightarrow> int \<times> 'a map_st_scheme" where
  "map_gpu_memory env ops p s =
     (case maps s p of None \<Rightarrow> (KERNEL_OOPS, s)
      | Some m \<Rightarrow>
        (case k_alloc env s of (a, s1) \<Rightarrow>
         if a = NULL then (-ENOMEM, s1)
         else
           let m1 = m\<lparr>m_page_size := GPU_PAGE_SIZE, m_data := DGpu a gd_null, m_release := RelGpu\<rparr>;
               s2 = s1\<lparr>maps := (maps s1)(p \<mapsto> m1)\<rparr>
           in if phx_register_fn s2 then
                (case phx_register env (klog s2) (m_vaddr m) (GPU_PAGE_SIZE * of_nat (m_n_addrs m)) of
                   (err, handle, io) \<Rightarrow>
                   if err = 0 \<and> handle \<noteq> NULL then
                     let n = length io;
                         s3 = emit (Acq (RPhx handle)) s2;
                         s4 = (if n \<le> length (m_addrs m) then s3 else emit Undef s3)
                     in (0, s4\<lparr>maps := (maps s4)(p \<mapsto> m1\<lparr>m_data := DGpu a (gd_null\<lparr>gd_phx := handle\<rparr>),
                               m_n_addrs := n, m_addrs := io @ drop n (m_addrs m)\<rparr>)\<rparr>)
                   else map_gpu_peer env ops p m1 a gd_null (emit (Note ''phx_register failed'' 0) s2))
              else map_gpu_peer env ops p m1 a gd_null s2))"

definition map_device_memory ::
  "'e map_env_scheme \<Rightarrow> 'a map_st_scheme peer_memory_ops \<Rightarrow> task \<Rightarrow> pdev \<Rightarrow> u64 \<Rightarrow> nat \<Rightarrow>
   'a map_st_scheme \<Rightarrow> (int + ptr) \<times> 'a map_st_scheme" where
  "map_device_memory env ops cur pdev vaddr npages s =
     (if npages < 1 then (Inl (-EINVAL), s)
      else case create_descriptor env cur pdev (and vaddr GPU_PAGE_MASK) npages s of
        (Inl e, s1) \<Rightarrow> (Inl e, s1)
      | (Inr md, s1) \<Rightarrow>
          (case map_gpu_memory env ops md (upd_map md (\<lambda>m. m\<lparr>m_page_size := GPU_PAGE_SIZE\<rparr>) s1) of (err, s2) \<Rightarrow>
           if err \<noteq> 0 then (Inl err, unmap_and_release ops md s2)
           else (Inr md, list_insert_map Device md s2)))"

section \<open>Memory reclaimed by the GPU driver\<close>

definition force_release_gpu_memory ::
  "'a map_st_scheme peer_memory_ops \<Rightarrow> ptr \<Rightarrow> 'a map_st_scheme \<Rightarrow> 'a map_st_scheme" where
  "force_release_gpu_memory ops p s =
     (case maps s p of None \<Rightarrow> emit Undef s
      | Some m \<Rightarrow>
        (case m_data m of
           DGpu a gd \<Rightarrow>
             if gd_phx gd \<noteq> NULL
             then unmap_and_release ops p (release_gpu_memory ops p s)
             else
               let s1 = (if gd_map_ptr gd \<noteq> NULL
                         then k_free (gd_map_ptr gd) (gpu_unmap_loop ops (pdevs s) (gd_pages gd) (gd_mappings gd) 0 s)
                         else s);
                   s2 = (if gd_pages gd \<noteq> None then snd (op_free_page_table ops (gd_pages gd) s1) else s1);
                   s3 = upd_map p (\<lambda>m. m\<lparr>m_data := DNull\<rparr>) (k_free a s2)
               in unmap_and_release ops p s3
         | _ \<Rightarrow> unmap_and_release ops p s))"

section \<open>GPU memory for queues\<close>

definition map_gpu_ioqueue_memory ::
  "'e kenv_scheme \<Rightarrow> 'a map_st_scheme peer_memory_ops \<Rightarrow> ptr \<Rightarrow> 'a map_st_scheme \<Rightarrow> int \<times> 'a map_st_scheme" where
  "map_gpu_ioqueue_memory env ops p s =
     (case maps s p of None \<Rightarrow> (KERNEL_OOPS, s)
      | Some m \<Rightarrow>
        (case k_alloc env s of (a, s1) \<Rightarrow>
         if a = NULL then (-ENOMEM, s1)
         else case k_alloc env s1 of (b, s2) \<Rightarrow>
           if b = NULL then (-ENOMEM, k_free a s2)
           else
             let gd = gd_null\<lparr>gd_map_ptr := b\<rparr>;
                 s3 = s2\<lparr>maps := (maps s2)(p \<mapsto>
                        m\<lparr>m_page_size := GPU_PAGE_SIZE, m_data := DGpu a gd, m_release := RelGpuIoq\<rparr>)\<rparr>
             in case op_get_pages ops (m_vaddr m) (GPU_PAGE_SIZE * of_nat (m_n_addrs m)) s3 of (err, pt, s4) \<Rightarrow>
               if err \<noteq> 0 then (err, s4)
               else case op_dma_map_pages ops (m_pdev m) pt (ucast GPU_PAGE_SIZE) s4 of (err, dm, s5) \<Rightarrow>
                 if err \<noteq> 0 then (err, set_gd p a (gd\<lparr>gd_pages := pt\<rparr>) s5)
                 else case copy_addrs (m_n_addrs m) (op_dm_addresses ops dm s5) s5 of (addrs, s6) \<Rightarrow>
                   finish_gpu ops p pt
                     (upd_map p (\<lambda>m. m\<lparr>m_addrs := addrs\<rparr>)
                        (set_gd p a (gd\<lparr>gd_pages := pt, gd_mappings := [dm]\<rparr>) s6))))"

definition map_device_ioqueue_memory ::
  "'e kenv_scheme \<Rightarrow> 'a map_st_scheme peer_memory_ops \<Rightarrow> map_reg \<Rightarrow> task \<Rightarrow> pdev \<Rightarrow> u64 \<Rightarrow> nat \<Rightarrow>
   'a map_st_scheme \<Rightarrow> (int + ptr) \<times> 'a map_st_scheme" where
  "map_device_ioqueue_memory env ops r cur pdev vaddr npages s =
     (if npages < 1 then (Inl (-EINVAL), s)
      else case create_descriptor env cur pdev (and vaddr GPU_PAGE_MASK) npages s of
        (Inl e, s1) \<Rightarrow> (Inl e, s1)
      | (Inr md, s1) \<Rightarrow>
          (case map_gpu_ioqueue_memory env ops md (upd_map md (\<lambda>m. m\<lparr>m_page_size := GPU_PAGE_SIZE\<rparr>) s1) of (err, s2) \<Rightarrow>
           if err \<noteq> 0 then (Inl err, unmap_and_release ops md s2)
           else (Inr md, list_insert_map r md s2)))"

definition force_release_gpu_ioqueue_memory ::
  "'a map_st_scheme peer_memory_ops \<Rightarrow> ptr \<Rightarrow> 'a map_st_scheme \<Rightarrow> 'a map_st_scheme" where
  "force_release_gpu_ioqueue_memory ops p s =
     (case maps s p of None \<Rightarrow> emit Undef s
      | Some m \<Rightarrow>
        (case m_data m of
           DGpu a gd \<Rightarrow>
             let s1 = (if gd_map_ptr gd \<noteq> NULL
                       then k_free (gd_map_ptr gd) (ioq_unmap ops (m_pdev m) gd s) else s);
                 s2 = (if gd_pages gd \<noteq> None then snd (op_free_page_table ops (gd_pages gd) s1) else s1);
                 s3 = upd_map p (\<lambda>m. m\<lparr>m_data := DNull\<rparr>) (k_free a s2)
             in unmap_and_release ops p s3
         | _ \<Rightarrow> unmap_and_release ops p s))"

end
