(* ===== verification/Snvm_QidPool.thy ===== *)
theory Snvm_QidPool
  imports Snvm_Dev
begin

text \<open>
  The pool of user queue identifiers of a controller (\<open>snvme/snvm_qgroup.c\<close>): lazy
  initialisation from the queue budget negotiated at probe, all-or-nothing allocation of a
  batch, release of one identifier, and the allocator contract the rest of the driver uses.
\<close>

section \<open>Operations\<close>

definition BITS_TO_LONGS :: "nat \<Rightarrow> nat" where
  "BITS_TO_LONGS n = (n + 63) div 64"

text \<open>The kernel's bitmap search: the first clear bit below \<open>n\<close>, or \<open>n\<close>.\<close>

definition find_first_zero_bit :: "bool list \<Rightarrow> nat \<Rightarrow> nat" where
  "find_first_zero_bit bm n = length (takeWhile id (take n bm))"

definition snvm_user_qid_pool_init_locked ::
  "bool \<Rightarrow> 'a nvme_dev_scheme option \<Rightarrow> ctrl \<Rightarrow> int \<times> ctrl" where
  "snvm_user_qid_pool_init_locked alloc_ok ndev c =
     (if user_qid_bitmap c \<noteq> None then (0, c)
      else case ndev of
        None \<Rightarrow> (-ENODEV, c)
      | Some d \<Rightarrow>
          if online_queues d = 0 \<or> nr_allocated_queues d = 0 then (-ENODEV, c)
          else if ctrl_max_io_queues d = 0 then (-ENODEV, c)
          else
            let first = online_queues d;
                last = ctrl_max_io_queues d
            in if first > last then (-EBUSY, c)
               else
                 let count = last - first + 1
                 in if \<not> alloc_ok then (-ENOMEM, c)
                    else (0, c\<lparr>user_qid_first := first,
                               user_qid_last := last,
                               user_qid_bitmap :=
                                 Some (replicate (64 * BITS_TO_LONGS (unat count)) False)\<rparr>))"

definition qid_bit :: "u32 \<Rightarrow> u16 \<Rightarrow> nat" where
  "qid_bit first qid = unat (ucast qid - first :: u32)"

fun qid_alloc_loop ::
  "u32 \<Rightarrow> nat \<Rightarrow> nat \<Rightarrow> u16 list \<Rightarrow> bool list \<Rightarrow> int \<times> u16 list \<times> bool list" where
  "qid_alloc_loop first pool_size 0 out bm = (0, out, bm)"
| "qid_alloc_loop first pool_size (Suc n) out bm =
     (let bit = find_first_zero_bit bm pool_size
      in if bit \<ge> pool_size then (-EAGAIN, out, fold (\<lambda>q b. b[qid_bit first q := False]) (rev out) bm)
         else qid_alloc_loop first pool_size n
                (out @ [ucast (first + of_nat bit)]) (bm[bit := True]))"

definition user_qid_pool_size :: "ctrl \<Rightarrow> nat" where
  "user_qid_pool_size c = unat (user_qid_last c - user_qid_first c + 1)"

definition snvm_user_qid_alloc_locked :: "ctrl \<Rightarrow> nat \<Rightarrow> int \<times> u16 list \<times> ctrl" where
  "snvm_user_qid_alloc_locked c nr =
     (case user_qid_bitmap c of
        None \<Rightarrow> (KERNEL_OOPS, [], c)
      | Some bm \<Rightarrow>
          let (rc, out, bm') = qid_alloc_loop (user_qid_first c) (user_qid_pool_size c) nr [] bm
          in (rc, out, c\<lparr>user_qid_bitmap := Some bm'\<rparr>))"

definition snvm_user_qid_free_locked :: "ctrl \<Rightarrow> u16 \<Rightarrow> ctrl" where
  "snvm_user_qid_free_locked c qid =
     (if ucast qid < user_qid_first c \<or> ucast qid > user_qid_last c then c
      else case user_qid_bitmap c of
        None \<Rightarrow> c
      | Some bm \<Rightarrow>
          c\<lparr>user_qid_bitmap := Some (bm[qid_bit (user_qid_first c) qid := False])\<rparr>)"

section \<open>The search and the allocation loop\<close>

lemma ffz_less:
  assumes "n \<le> length bm" and "find_first_zero_bit bm n < n"
  shows "\<not> bm ! find_first_zero_bit bm n"
  using assms nth_length_takeWhile [of id "take n bm"]
  by (simp add: find_first_zero_bit_def)

lemma ffz_below:
  assumes "i < find_first_zero_bit bm n"
  shows "i < n \<and> bm ! i"
proof -
  have "takeWhile id (take n bm) ! i" "i < length (takeWhile id (take n bm))"
    using assms set_takeWhileD [OF nth_mem, of i id "take n bm"]
    by (auto simp: find_first_zero_bit_def)
  then show ?thesis
    using takeWhile_nth [of i id "take n bm"] length_takeWhile_le [of id "take n bm"] by auto
qed

lemma ffz_full:
  assumes "n \<le> length bm" and "\<not> find_first_zero_bit bm n < n"
  shows "\<forall>i < n. bm ! i"
  using assms ffz_below [of _ bm n] by auto

definition clear_below :: "nat \<Rightarrow> bool list \<Rightarrow> nat set" where
  "clear_below n bm = {i. i < n \<and> \<not> bm ! i}"

lemma finite_clear_below [simp]: "finite (clear_below n bm)"
  by (simp add: clear_below_def)

abbreviation qid_at :: "u32 \<Rightarrow> nat \<Rightarrow> u16" where
  "qid_at first k \<equiv> ucast (first + of_nat k)"

lemma unat_qid_at:
  assumes "unat first + k < 65536"
  shows "unat (qid_at first k) = unat first + k"
proof -
  have "unat (first + of_nat k :: u32) = unat first + k"
    using assms by (simp add: unat_word_ariths unat_of_nat take_bit_eq_mod)
  then show ?thesis using assms by (simp add: unsigned_ucast_eq take_bit_eq_mod)
qed

lemma qid_bit_at:
  assumes "unat first + k < 65536"
  shows "qid_bit first (qid_at first k) = k"
proof -
  have "unat (ucast (qid_at first k) :: u32) = unat first + k"
    using unat_qid_at [OF assms] by (simp only: unat_ucast_u16_u32)
  then have "(ucast (qid_at first k) :: u32) = first + of_nat k"
    using assms by (simp add: word_unat_eq_iff unat_word_ariths unat_of_nat take_bit_eq_mod)
  then show ?thesis using assms by (simp add: qid_bit_def unat_of_nat take_bit_eq_mod)
qed

lemma rollback_clear_bits:
  assumes "\<forall>k \<in> set ks. unat first + k < 65536"
  shows "fold (\<lambda>q b. b[qid_bit first q := False]) (map (qid_at first) ks) bm = clear_bits ks bm"
  using assms
proof (induction ks arbitrary: bm)
  case (Cons k ks)
  then show ?case by (simp add: clear_bits_def qid_bit_at)
qed (simp add: clear_bits_def)

lemma clear_below_set:
  assumes "k \<in> clear_below n bm" "n \<le> length bm"
  shows "clear_below n (bm[k := True]) = clear_below n bm - {k}"
  using assms by (auto simp: clear_below_def nth_list_update)

text \<open>
  One description of the loop for any number of identifiers already handed out: it picks
  distinct clear bits; it succeeds exactly if enough bits are clear, and otherwise clears the
  bits of every identifier handed out so far.
\<close>

lemma qid_alloc_loop_spec:
  assumes "n \<le> length bm" and "unat first + n \<le> 65536"
  shows "\<exists>ks. distinct ks \<and> set ks \<subseteq> clear_below n bm \<and>
    (if nr \<le> card (clear_below n bm)
     then length ks = nr \<and>
       qid_alloc_loop first n nr out bm = (0, out @ map (qid_at first) ks, set_bits ks bm)
     else qid_alloc_loop first n nr out bm =
       (-EAGAIN, out @ map (qid_at first) ks,
        fold (\<lambda>q b. b[qid_bit first q := False]) (rev (out @ map (qid_at first) ks)) (set_bits ks bm)))"
  using assms
proof (induction nr arbitrary: out bm)
  case 0
  show ?case by (rule exI [of _ "[]"]) (simp add: set_bits_def)
next
  case (Suc nr)
  define k where "k = find_first_zero_bit bm n"
  show ?case
  proof (cases "k < n")
    case True
    then have k: "k \<in> clear_below n bm"
      using ffz_less Suc.prems(1) by (simp add: k_def clear_below_def)
    have card: "card (clear_below n (bm[k := True])) = card (clear_below n bm) - 1"
      using k Suc.prems by (simp add: clear_below_set)
    have pos: "0 < card (clear_below n bm)" using k by (auto simp: card_gt_0_iff)
    obtain ks where ks: "distinct ks" "set ks \<subseteq> clear_below n (bm[k := True])"
      and res: "if nr \<le> card (clear_below n (bm[k := True]))
        then length ks = nr \<and> qid_alloc_loop first n nr (out @ [qid_at first k]) (bm[k := True]) =
          (0, (out @ [qid_at first k]) @ map (qid_at first) ks, set_bits ks (bm[k := True]))
        else qid_alloc_loop first n nr (out @ [qid_at first k]) (bm[k := True]) =
          (-EAGAIN, (out @ [qid_at first k]) @ map (qid_at first) ks,
           fold (\<lambda>q b. b[qid_bit first q := False])
             (rev ((out @ [qid_at first k]) @ map (qid_at first) ks)) (set_bits ks (bm[k := True])))"
      using Suc.IH [of "bm[k := True]" "out @ [qid_at first k]"] Suc.prems by auto
    have step: "qid_alloc_loop first n (Suc nr) out bm =
        qid_alloc_loop first n nr (out @ [qid_at first k]) (bm[k := True])"
      using True by (simp add: k_def [symmetric] Let_def)
    have "distinct (k # ks)" "set (k # ks) \<subseteq> clear_below n bm"
      using ks k Suc.prems by (auto simp: clear_below_set)
    moreover have "Suc nr \<le> card (clear_below n bm) \<longleftrightarrow> nr \<le> card (clear_below n (bm[k := True]))"
      using card pos by auto
    ultimately show ?thesis
      using res step by (intro exI [of _ "k # ks"]) (auto simp: set_bits_Cons split: if_splits)
  next
    case False
    then have "clear_below n bm = {}"
      using ffz_full Suc.prems(1) by (auto simp: k_def clear_below_def)
    then show ?thesis
      using False by (intro exI [of _ "[]"]) (simp add: k_def [symmetric] Let_def set_bits_def)
  qed
qed

section \<open>The pool as a set of identifiers\<close>

definition pool_ok :: "ctrl \<Rightarrow> bool" where
  "pool_ok c \<longleftrightarrow>
     (case user_qid_bitmap c of None \<Rightarrow> False
      | Some bm \<Rightarrow> user_qid_first c \<le> user_qid_last c \<and> unat (user_qid_last c) < 65536 \<and>
          length bm = 64 * BITS_TO_LONGS (user_qid_pool_size c))"

definition pool_range :: "ctrl \<Rightarrow> u16 set" where
  "pool_range c = {q. user_qid_first c \<le> ucast q \<and> ucast q \<le> user_qid_last c}"

definition pool_used :: "ctrl \<Rightarrow> u16 set" where
  "pool_used c = {q \<in> pool_range c.
     case user_qid_bitmap c of None \<Rightarrow> False | Some bm \<Rightarrow> bm ! qid_bit (user_qid_first c) q}"

lemma pool_size_eq:
  assumes "user_qid_first c \<le> user_qid_last c" "unat (user_qid_last c) < 65536"
  shows "user_qid_pool_size c = unat (user_qid_last c) - unat (user_qid_first c) + 1"
proof -
  have le: "unat (user_qid_first c) \<le> unat (user_qid_last c)"
    using assms(1) by (simp add: word_le_nat_alt)
  have "unat (user_qid_last c - user_qid_first c) = unat (user_qid_last c) - unat (user_qid_first c)"
    using assms(1) by (rule unat_sub)
  then show ?thesis
    using assms(2) le by (simp add: user_qid_pool_size_def unat_word_ariths)
qed

lemma pool_okD:
  assumes "pool_ok c"
  obtains bm where "user_qid_bitmap c = Some bm"
    and "user_qid_pool_size c \<le> length bm"
    and "unat (user_qid_first c) + user_qid_pool_size c = unat (user_qid_last c) + 1"
    and "unat (user_qid_last c) < 65536"
proof -
  obtain bm where bm: "user_qid_bitmap c = Some bm" "user_qid_first c \<le> user_qid_last c"
    "unat (user_qid_last c) < 65536" "length bm = 64 * BITS_TO_LONGS (user_qid_pool_size c)"
    using assms by (auto simp: pool_ok_def split: option.splits)
  have "user_qid_pool_size c \<le> length bm"
    using bm(4) by (simp add: BITS_TO_LONGS_def)
  moreover have "unat (user_qid_first c) + user_qid_pool_size c = unat (user_qid_last c) + 1"
    using bm pool_size_eq [of c] by (simp add: word_le_nat_alt)
  ultimately show thesis using that bm by blast
qed

lemma pool_range_bits:
  assumes "pool_ok c"
  shows "pool_range c = qid_at (user_qid_first c) ` {k. k < user_qid_pool_size c}"
    and "q \<in> pool_range c \<Longrightarrow> qid_bit (user_qid_first c) q < user_qid_pool_size c"
    and "q \<in> pool_range c \<Longrightarrow> qid_at (user_qid_first c) (qid_bit (user_qid_first c) q) = q"
proof -
  obtain bm where sz: "unat (user_qid_first c) + user_qid_pool_size c = unat (user_qid_last c) + 1"
    and l: "unat (user_qid_last c) < 65536"
    using assms by (rule pool_okD)
  have mem: "q \<in> pool_range c \<longleftrightarrow> unat (user_qid_first c) \<le> unat q \<and> unat q \<le> unat (user_qid_last c)"
    for q by (simp add: pool_range_def word_le_nat_alt unat_ucast_u16_u32)
  have qb: "qid_bit (user_qid_first c) q = unat q - unat (user_qid_first c)"
    if "q \<in> pool_range c" for q
  proof -
    have "user_qid_first c \<le> ucast q" using that by (simp add: pool_range_def)
    then show ?thesis by (simp only: qid_bit_def unat_sub unat_ucast_u16_u32)
  qed
  show less: "qid_bit (user_qid_first c) q < user_qid_pool_size c" if "q \<in> pool_range c" for q
    using qb [OF that] that [unfolded mem] sz by linarith
  show inv: "qid_at (user_qid_first c) (qid_bit (user_qid_first c) q) = q"
    if "q \<in> pool_range c" for q
  proof -
    have "unat (qid_at (user_qid_first c) (qid_bit (user_qid_first c) q)) = unat q"
      using that l by (subst unat_qid_at) (auto simp: qb mem)
    then show ?thesis by (simp only: word_unat_eq_iff)
  qed
  have "qid_at (user_qid_first c) k \<in> pool_range c" if "k < user_qid_pool_size c" for k
  proof -
    have "unat (qid_at (user_qid_first c) k) = unat (user_qid_first c) + k"
      by (rule unat_qid_at) (use that sz l in linarith)
    then show ?thesis unfolding mem using that sz by linarith
  qed
  moreover have "q \<in> qid_at (user_qid_first c) ` {k. k < user_qid_pool_size c}"
    if "q \<in> pool_range c" for q
    by (rule image_eqI [where x = "qid_bit (user_qid_first c) q"]) (simp_all add: inv less that)
  ultimately show "pool_range c = qid_at (user_qid_first c) ` {k. k < user_qid_pool_size c}"
    by blast
qed

lemma pool_fields_bitmap [simp]:
  "pool_range (c\<lparr>user_qid_bitmap := b\<rparr>) = pool_range c"
  "user_qid_pool_size (c\<lparr>user_qid_bitmap := b\<rparr>) = user_qid_pool_size c"
  by (simp_all add: pool_range_def user_qid_pool_size_def)

lemma pool_ok_bitmap:
  "pool_ok c \<Longrightarrow> user_qid_bitmap c = Some bm \<Longrightarrow> length bm' = length bm \<Longrightarrow>
   pool_ok (c\<lparr>user_qid_bitmap := Some bm'\<rparr>)"
  by (simp add: pool_ok_def)

lemma inj_on_qid_at:
  assumes "pool_ok c"
  shows "inj_on (qid_at (user_qid_first c)) {k. k < user_qid_pool_size c}"
proof (rule inj_on_inverseI)
  fix k assume "k \<in> {k. k < user_qid_pool_size c}"
  moreover obtain "unat (user_qid_first c) + user_qid_pool_size c = unat (user_qid_last c) + 1"
    and "unat (user_qid_last c) < 65536" using assms by (rule pool_okD)
  ultimately show "qid_bit (user_qid_first c) (qid_at (user_qid_first c) k) = k"
    by (intro qid_bit_at) auto
qed

lemma pool_free_image:
  assumes "pool_ok c" "user_qid_bitmap c = Some bm"
  shows "pool_range c - pool_used c =
    qid_at (user_qid_first c) ` clear_below (user_qid_pool_size c) bm"
proof -
  let ?at = "qid_at (user_qid_first c)"
  have "?at k \<in> pool_used c \<longleftrightarrow> bm ! k" if "k < user_qid_pool_size c" for k
  proof -
    obtain "unat (user_qid_first c) + user_qid_pool_size c = unat (user_qid_last c) + 1"
      and "unat (user_qid_last c) < 65536" using assms(1) by (rule pool_okD)
    then have "qid_bit (user_qid_first c) (?at k) = k" using that by (intro qid_bit_at) auto
    moreover have "?at k \<in> pool_range c" using that pool_range_bits(1) [OF assms(1)] by blast
    ultimately show ?thesis using assms(2) by (simp add: pool_used_def)
  qed
  then show ?thesis using pool_range_bits(1) [OF assms(1)] by (auto simp: clear_below_def)
qed

lemma card_pool_free:
  assumes "pool_ok c" "user_qid_bitmap c = Some bm"
  shows "card (pool_range c - pool_used c) = card (clear_below (user_qid_pool_size c) bm)"
  unfolding pool_free_image [OF assms]
  by (rule card_image, rule inj_on_subset [OF inj_on_qid_at [OF assms(1)]])
    (auto simp: clear_below_def)

lemma qid_alloc_success:
  assumes ok: "pool_ok c" and n: "nr \<le> card (pool_range c - pool_used c)"
  obtains qids c' where "snvm_user_qid_alloc_locked c nr = (0, qids, c')"
    and "pool_ok c'" and "pool_range c' = pool_range c"
    and "distinct qids" and "length qids = nr"
    and "set qids \<subseteq> pool_range c - pool_used c"
    and "pool_used c' = pool_used c \<union> set qids"
    and "c' = c\<lparr>user_qid_bitmap := user_qid_bitmap c'\<rparr>"
proof -
  let ?f = "user_qid_first c" and ?n = "user_qid_pool_size c"
  obtain bm where bm: "user_qid_bitmap c = Some bm" and len: "?n \<le> length bm"
    and sz: "unat ?f + ?n = unat (user_qid_last c) + 1" "unat (user_qid_last c) < 65536"
    using ok by (rule pool_okD)
  have "nr \<le> card (clear_below ?n bm)" using n card_pool_free [OF ok bm] by simp
  then obtain ks where ks: "distinct ks" "set ks \<subseteq> clear_below ?n bm" "length ks = nr"
    and res: "qid_alloc_loop ?f ?n nr [] bm = (0, map (qid_at ?f) ks, set_bits ks bm)"
    using qid_alloc_loop_spec [of ?n bm ?f nr "[]"] len sz by auto
  let ?c = "c\<lparr>user_qid_bitmap := Some (set_bits ks bm)\<rparr>"
  have ksn: "set ks \<subseteq> {k. k < ?n}" using ks(2) by (auto simp: clear_below_def)
  have inj: "inj_on (qid_at ?f) (set ks)" using inj_on_qid_at [OF ok] ksn by (rule inj_on_subset)
  have free: "set (map (qid_at ?f) ks) \<subseteq> pool_range c - pool_used c"
    using pool_free_image [OF ok bm] ks(2) by auto
  have iff: "set_bits ks bm ! qid_bit ?f q \<longleftrightarrow> q \<in> qid_at ?f ` set ks \<or> bm ! qid_bit ?f q"
    if q: "q \<in> pool_range c" for q
  proof -
    have "qid_bit ?f q < ?n" "qid_at ?f (qid_bit ?f q) = q" using pool_range_bits(2,3) [OF ok q] .
    then have "qid_bit ?f q \<in> set ks \<longleftrightarrow> q \<in> qid_at ?f ` set ks"
      using inj_on_image_mem_iff [OF inj_on_qid_at [OF ok], of "qid_bit ?f q" "set ks"] ksn by auto
    then show ?thesis using nth_set_bits [of "qid_bit ?f q" bm ks] \<open>qid_bit ?f q < ?n\<close> len by auto
  qed
  have "pool_used ?c = pool_used c \<union> set (map (qid_at ?f) ks)"
    using iff free bm by (auto simp: pool_used_def)
  moreover have "pool_ok ?c" using pool_ok_bitmap [OF ok bm] by simp
  ultimately show thesis
    using that [of "map (qid_at ?f) ks" ?c] ks inj free res bm
    by (simp add: snvm_user_qid_alloc_locked_def distinct_map)
qed

lemma qid_alloc_failure:
  assumes ok: "pool_ok c" and n: "\<not> nr \<le> card (pool_range c - pool_used c)"
  obtains qids where "snvm_user_qid_alloc_locked c nr = (-EAGAIN, qids, c)"
proof -
  let ?f = "user_qid_first c" and ?n = "user_qid_pool_size c"
  obtain bm where bm: "user_qid_bitmap c = Some bm" and len: "?n \<le> length bm"
    and sz: "unat ?f + ?n = unat (user_qid_last c) + 1" "unat (user_qid_last c) < 65536"
    using ok by (rule pool_okD)
  have "\<not> nr \<le> card (clear_below ?n bm)" using n card_pool_free [OF ok bm] by simp
  then obtain ks where ks: "set ks \<subseteq> clear_below ?n bm"
    and res: "qid_alloc_loop ?f ?n nr [] bm =
      (-EAGAIN, map (qid_at ?f) ks,
       fold (\<lambda>q b. b[qid_bit ?f q := False]) (rev (map (qid_at ?f) ks)) (set_bits ks bm))"
    using qid_alloc_loop_spec [of ?n bm ?f nr "[]"] len sz by auto
  have bits: "\<forall>k \<in> set ks. k < length bm \<and> \<not> bm ! k" "\<forall>k \<in> set (rev ks). unat ?f + k < 65536"
    using ks len sz by (auto simp: clear_below_def)
  have "fold (\<lambda>q b. b[qid_bit ?f q := False]) (rev (map (qid_at ?f) ks)) (set_bits ks bm) = bm"
    using rollback_clear_bits [OF bits(2), of "set_bits ks bm"] clear_set_bits [OF bits(1), of "rev ks"]
    by (simp add: rev_map)
  then show thesis
    using that [of "map (qid_at ?f) ks"] res bm by (simp add: snvm_user_qid_alloc_locked_def)
qed

lemma qid_free_used:
  assumes ok: "pool_ok c" and q: "q \<in> pool_range c"
  shows "pool_used (snvm_user_qid_free_locked c q) = pool_used c - {q}"
    and "pool_range (snvm_user_qid_free_locked c q) = pool_range c"
    and "pool_ok (snvm_user_qid_free_locked c q)"
proof -
  let ?f = "user_qid_first c"
  obtain bm where bm: "user_qid_bitmap c = Some bm" and len: "user_qid_pool_size c \<le> length bm"
    using ok by (rule pool_okD)
  have fr: "snvm_user_qid_free_locked c q = c\<lparr>user_qid_bitmap := Some (bm[qid_bit ?f q := False])\<rparr>"
    using q bm by (auto simp: snvm_user_qid_free_locked_def pool_range_def)
  have iff: "bm[qid_bit ?f q := False] ! qid_bit ?f r \<longleftrightarrow> r \<noteq> q \<and> bm ! qid_bit ?f r"
    if r: "r \<in> pool_range c" for r
  proof -
    have "qid_bit ?f q = qid_bit ?f r \<longleftrightarrow> q = r"
      using pool_range_bits(3) [OF ok q] pool_range_bits(3) [OF ok r] by metis
    then show ?thesis using pool_range_bits(2) [OF ok r] len by (cases "q = r") auto
  qed
  show "pool_used (snvm_user_qid_free_locked c q) = pool_used c - {q}"
    using iff bm by (auto simp: fr pool_used_def)
  show "pool_range (snvm_user_qid_free_locked c q) = pool_range c" by (simp add: fr)
  show "pool_ok (snvm_user_qid_free_locked c q)" using pool_ok_bitmap [OF ok bm] by (simp add: fr)
qed

section \<open>The allocator contract\<close>

text \<open>
  What \<open>NVM_ADD_USER_QUEUE\<close> and the teardown paths rely on: a batch of identifiers is handed
  out completely or not at all, an identifier in use is never handed out again, and
  releasing returns it.
\<close>

locale id_pool =
  fixes ok :: "'p \<Rightarrow> bool"
    and range :: "'p \<Rightarrow> 'i set"
    and used :: "'p \<Rightarrow> 'i set"
    and alloc :: "'p \<Rightarrow> nat \<Rightarrow> int \<times> 'i list \<times> 'p"
    and free :: "'p \<Rightarrow> 'i \<Rightarrow> 'p"
  assumes used_range: "used p \<subseteq> range p"
    and alloc_ok: "ok p \<Longrightarrow> alloc p n = (0, ids, p') \<Longrightarrow>
          ok p' \<and> range p' = range p \<and> distinct ids \<and> length ids = n \<and>
          set ids \<subseteq> range p - used p \<and> used p' = used p \<union> set ids"
    and alloc_fail: "ok p \<Longrightarrow> alloc p n = (rc, ids, p') \<Longrightarrow> rc \<noteq> 0 \<Longrightarrow> p' = p"
    and alloc_iff: "ok p \<Longrightarrow> fst (alloc p n) = 0 \<longleftrightarrow> n \<le> card (range p - used p)"
    and free_ok: "ok p \<Longrightarrow> i \<in> range p \<Longrightarrow>
          ok (free p i) \<and> range (free p i) = range p \<and> used (free p i) = used p - {i}"
begin

lemma free_all:
  "ok p \<Longrightarrow> set ids \<subseteq> range p \<Longrightarrow>
   ok (fold (\<lambda>i p. free p i) ids p) \<and> range (fold (\<lambda>i p. free p i) ids p) = range p \<and>
   used (fold (\<lambda>i p. free p i) ids p) = used p - set ids"
proof (induction ids arbitrary: p)
  case (Cons i ids)
  then have "ok (free p i)" "range (free p i) = range p" "used (free p i) = used p - {i}"
    using free_ok by auto
  then show ?case using Cons by auto
qed simp

lemma alloc_free_roundtrip:
  assumes "ok p" and "alloc p n = (0, ids, p')"
  shows "used (fold (\<lambda>i p. free p i) ids p') = used p"
proof -
  from alloc_ok [OF assms] have "ok p'" "set ids \<subseteq> range p'" "used p' = used p \<union> set ids"
    "set ids \<inter> used p = {}" by auto
  with free_all [of p' ids] show ?thesis by auto
qed

lemma alloc_alloc_disjoint:
  assumes "ok p" and "alloc p n = (0, ids, p')" and "alloc p' m = (0, ids', p'')"
  shows "set ids \<inter> set ids' = {}"
  using alloc_ok [OF assms(1,2)] alloc_ok [of p' m ids' p''] assms(3) by auto

end

interpretation qid: id_pool pool_ok pool_range pool_used
    snvm_user_qid_alloc_locked snvm_user_qid_free_locked
proof
  fix p :: ctrl and n ids p' rc i
  show "pool_used p \<subseteq> pool_range p" by (auto simp: pool_used_def)
  assume ok: "pool_ok p"
  show "fst (snvm_user_qid_alloc_locked p n) = 0 \<longleftrightarrow> n \<le> card (pool_range p - pool_used p)"
    using qid_alloc_success [OF ok] qid_alloc_failure [OF ok]
    by (metis EAGAIN_def fst_conv neg_equal_0_iff_equal zero_neq_numeral)
  show "pool_ok p' \<and> pool_range p' = pool_range p \<and> distinct ids \<and> length ids = n \<and>
      set ids \<subseteq> pool_range p - pool_used p \<and> pool_used p' = pool_used p \<union> set ids"
    if a: "snvm_user_qid_alloc_locked p n = (0, ids, p')"
  proof (cases "n \<le> card (pool_range p - pool_used p)")
    case True
    show ?thesis by (rule qid_alloc_success [OF ok True]) (use a in auto)
  next
    case False
    show ?thesis by (rule qid_alloc_failure [OF ok False]) (use a in \<open>auto simp: EAGAIN_def\<close>)
  qed
  show "p' = p" if a: "snvm_user_qid_alloc_locked p n = (rc, ids, p')" "rc \<noteq> 0"
  proof (cases "n \<le> card (pool_range p - pool_used p)")
    case True
    show ?thesis by (rule qid_alloc_success [OF ok True]) (use a in auto)
  next
    case False
    show ?thesis by (rule qid_alloc_failure [OF ok False]) (use a in auto)
  qed
  show "pool_ok (snvm_user_qid_free_locked p i) \<and>
      pool_range (snvm_user_qid_free_locked p i) = pool_range p \<and>
      pool_used (snvm_user_qid_free_locked p i) = pool_used p - {i}" if "i \<in> pool_range p"
    using qid_free_used [OF ok that] by simp
qed

lemma unat_range_size:
  fixes first last :: u32
  assumes "first \<noteq> 0" "first \<le> last"
  shows "unat (last - first + 1) = unat last - unat first + 1"
proof -
  have "unat first \<noteq> 0" using assms(1) by (simp add: unat_eq_zero)
  moreover have "unat last < 2 ^ 32" using unsigned_less [of last] by simp
  moreover have "unat (last - first) = unat last - unat first" using assms(2) by (rule unat_sub)
  ultimately show ?thesis using assms(2) by (simp add: unat_word_ariths word_le_nat_alt)
qed

lemma pool_init_spec:
  assumes "user_qid_bitmap c = None"
  shows "case snvm_user_qid_pool_init_locked alloc_ok nd c of (rc, c') \<Rightarrow>
    (case nd of None \<Rightarrow> rc = -ENODEV \<and> c' = c
     | Some d \<Rightarrow>
        if online_queues d = 0 \<or> nr_allocated_queues d = 0 \<or> ctrl_max_io_queues d = 0
        then rc = -ENODEV \<and> c' = c
        else if ctrl_max_io_queues d < online_queues d then rc = -EBUSY \<and> c' = c
        else if \<not> alloc_ok then rc = -ENOMEM \<and> c' = c
        else rc = 0 \<and> pool_used c' = {} \<and>
          pool_range c' = {q. online_queues d \<le> ucast q \<and> ucast q \<le> ctrl_max_io_queues d} \<and>
          (unat (ctrl_max_io_queues d) < 65536 \<longrightarrow> pool_ok c'))"
proof (cases nd)
  case None
  then show ?thesis using assms by (simp add: snvm_user_qid_pool_init_locked_def)
next
  case (Some d)
  let ?bad = "online_queues d = 0 \<or> nr_allocated_queues d = 0 \<or> ctrl_max_io_queues d = 0"
  show ?thesis
  proof (cases "?bad \<or> ctrl_max_io_queues d < online_queues d \<or> \<not> alloc_ok")
    case True
    then show ?thesis using assms Some by (auto simp: snvm_user_qid_pool_init_locked_def Let_def)
  next
    case False
    define n where "n = unat (ctrl_max_io_queues d - online_queues d + 1)"
    define c' where "c' = c\<lparr>user_qid_first := online_queues d, user_qid_last := ctrl_max_io_queues d,
      user_qid_bitmap := Some (replicate (64 * BITS_TO_LONGS n) False)\<rparr>"
    have init: "snvm_user_qid_pool_init_locked alloc_ok nd c = (0, c')"
      using False assms Some by (auto simp: snvm_user_qid_pool_init_locked_def c'_def n_def Let_def)
    have size: "user_qid_pool_size c' = n" by (simp add: c'_def user_qid_pool_size_def n_def)
    have ok: "pool_ok c'" if "unat (ctrl_max_io_queues d) < 65536"
      using that False size by (simp add: pool_ok_def c'_def not_less)
    have "pool_used c' = {}"
    proof -
      have "\<not> replicate (64 * BITS_TO_LONGS n) False ! qid_bit (online_queues d) q"
        if "q \<in> pool_range c'" for q
      proof -
        have le: "online_queues d \<le> ucast q" "ucast q \<le> ctrl_max_io_queues d"
          using that by (simp_all add: pool_range_def c'_def)
        have "qid_bit (online_queues d) q < n"
          using le False unat_range_size [of "online_queues d" "ctrl_max_io_queues d"]
          by (simp add: qid_bit_def n_def unat_sub word_le_nat_alt not_less less_Suc_eq_le diff_le_mono)
        then show ?thesis by (simp add: BITS_TO_LONGS_def)
      qed
      then show ?thesis by (auto simp: pool_used_def c'_def)
    qed
    then show ?thesis
      using init Some False ok by (auto simp: pool_range_def c'_def)
  qed
qed

section \<open>Properties\<close>

text \<open>
  (C28) Initialising the pool of a controller with no pool yet succeeds exactly if the
  device is known, its queue counts are non-zero, the first identifier not used by the
  kernel does not exceed the controller's grant, and memory is available; then the pool
  covers exactly the identifiers from \<open>online_queues\<close> to \<open>ctrl_max_io_queues\<close>, none of them
  in use. In every other case the controller is unchanged and an error is returned.
\<close>

theorem qid_pool_init_correct:
  assumes "user_qid_bitmap c = None"
  shows "case snvm_user_qid_pool_init_locked alloc_ok nd c of (rc, c') \<Rightarrow>
    (case nd of None \<Rightarrow> rc = -ENODEV \<and> c' = c
     | Some d \<Rightarrow>
        if online_queues d = 0 \<or> nr_allocated_queues d = 0 \<or> ctrl_max_io_queues d = 0
        then rc = -ENODEV \<and> c' = c
        else if ctrl_max_io_queues d < online_queues d then rc = -EBUSY \<and> c' = c
        else if \<not> alloc_ok then rc = -ENOMEM \<and> c' = c
        else rc = 0 \<and> pool_used c' = {} \<and>
          pool_range c' = {q. online_queues d \<le> ucast q \<and> ucast q \<le> ctrl_max_io_queues d} \<and>
          (unat (ctrl_max_io_queues d) < 65536 \<longrightarrow> pool_ok c'))"
  by (rule pool_init_spec [OF assms])

definition demo_ctrl :: ctrl where
  "demo_ctrl = \<lparr>c_pdev = 1, c_name = ''ssnvme0'', c_number = 0, c_rdev = (240, 0), c_chrdev = True,
     c_setup = \<lparr>setup_valid = 0, setup_cap_kernel_ioq = 0, setup_nr_write = 0, setup_nr_poll = 0\<rparr>,
     user_qid_bitmap = None, user_qid_first = 0, user_qid_last = 0\<rparr>"

definition demo_ndev :: nvme_dev where
  "demo_ndev = \<lparr>online_queues = 5, online_user_queues = 0, user_start_qid = 0, max_qid = 4,
     io_queues_default = 4, io_queues_read = 0, io_queues_poll = 0, num_vecs = 5, q_depth = 1024,
     db_stride = 1, nr_allocated_queues = 9, nr_write_queues = 0, nr_poll_queues = 0,
     ctrl_max_io_queues = 8, cap_kernel_ioq = 4, admin_q = True, max_hw_sectors = 256, sgls = 0,
     quirks = 0\<rparr>"

theorem qid_pool_init_correct_witness:
  "user_qid_bitmap demo_ctrl = None \<and>
   fst (snvm_user_qid_pool_init_locked True (Some demo_ndev) demo_ctrl) = 0 \<and>
   pool_used (snd (snvm_user_qid_pool_init_locked True (Some demo_ndev) demo_ctrl)) = {}"
  using qid_pool_init_correct [of demo_ctrl True "Some demo_ndev"]
  by (auto simp: demo_ctrl_def demo_ndev_def split: prod.splits)



text \<open>
  The pool keeps the range of its first initialisation: nothing resets it when the controller
  is unbound. After a bind with more kernel queues it still hands out identifiers from the
  old range, here 3, a queue the kernel now uses itself (3 is less than \<open>online_queues\<close>).
\<close>

theorem qid_pool_stale_after_rebind:
  "\<exists>c1 c2 c3. snvm_user_qid_pool_init_locked True
      (Some (demo_ndev\<lparr>online_queues := 3, nr_allocated_queues := 9, ctrl_max_io_queues := 6\<rparr>)) demo_ctrl = (0, c1) \<and>
    snvm_user_qid_pool_init_locked True
      (Some (demo_ndev\<lparr>online_queues := 5, nr_allocated_queues := 9, ctrl_max_io_queues := 6\<rparr>)) c1 = (0, c2) \<and>
    snvm_user_qid_alloc_locked c2 1 = (0, [3], c3)"
proof -
  have r: "replicate 64 False = False # replicate 63 False" using replicate_Suc [of 63 False] by simp
  show ?thesis
    by (simp add: snvm_user_qid_pool_init_locked_def snvm_user_qid_alloc_locked_def user_qid_pool_size_def
        find_first_zero_bit_def BITS_TO_LONGS_def demo_ctrl_def demo_ndev_def Let_def r)
qed

end
