(* ===== verification/Snvm_Qgroup.thy ===== *)
theory Snvm_Qgroup
  imports Snvm_Map Snvm_QidPool
begin

text \<open>
  Queue groups of an open file (\<open>snvme/snvm_qgroup.c\<close>, \<open>snvme/snvm_qgroup.h\<close>): the descriptor
  of an open file, the group descriptor with its slots of user queues, the admin commands that
  create and delete a queue on the controller, the test for a controller owned by this driver,
  and the destruction of a group.
\<close>

section \<open>State\<close>

text \<open>
  The list of mappings of a group and the list of data mappings of an open file are the
  lists \<open>glinks (LGroup g)\<close> and \<open>glinks (LData own)\<close> of the mapping state.
\<close>

record snvm_user_queue =
  uq_qid :: u16
  uq_alive :: bool

record snvm_qgroup =
  g_group_id :: u32
  g_max_queues :: u32
  g_nr_maps :: u32
  g_queues :: "snvm_user_queue list"
  g_cur_queues :: u32

record snvm_dev_owner =
  own_ctrl :: ptr
  own_owner :: task
  own_groups :: "ptr list"
  own_nr_groups :: u32
  own_nr_data_maps :: u32

text \<open>
  \<open>pdev_driver\<close> and \<open>drvdata\<close> are the driver bound to a PCI device and the device structure it
  registered there, which bind and unbind change.
\<close>

record dev_st = map_st +
  owners :: "ptr \<Rightarrow> snvm_dev_owner option"
  qgroups :: "ptr \<Rightarrow> snvm_qgroup option"
  pdev_driver :: "pdev \<Rightarrow> string option"
  drvdata :: "pdev \<Rightarrow> nvme_dev option"

record nvme_ns =
  ns_disk_name :: string
  ns_lba_shift :: nat

text \<open>
  The services: admin commands sent to the controller (0 is success), the allocator of group
  identifiers, the copy of a reply to the caller (False is a fault), the lookup of a
  namespace, the registers of a PCI device and their mapping into a process, and the
  passthrough of the baseline.
\<close>

record dev_env = map_env +
  submit_sync_cmd :: "history \<Rightarrow> pdev \<Rightarrow> admin_cmd \<Rightarrow> int"
  ida_simple_get :: "history \<Rightarrow> int"
  copy_to_user :: "history \<Rightarrow> bool"
  find_get_ns :: "history \<Rightarrow> pdev \<Rightarrow> nvme_ns option"
  pci_resource_start :: "pdev \<Rightarrow> u64"
  pci_resource_len :: "pdev \<Rightarrow> u64"
  vm_iomap_memory :: "history \<Rightarrow> u64 \<Rightarrow> u64 \<Rightarrow> int"
  admin_ioctl :: "history \<Rightarrow> pdev \<Rightarrow> nat \<Rightarrow> bool \<Rightarrow> int"

definition upd_ctrl :: "ptr \<Rightarrow> (ctrl \<Rightarrow> ctrl) \<Rightarrow> 'a ctrl_st_scheme \<Rightarrow> 'a ctrl_st_scheme" where
  "upd_ctrl c f s = (case ctrls s c of None \<Rightarrow> emit Undef s | Some d \<Rightarrow> s\<lparr>ctrls := (ctrls s)(c \<mapsto> f d)\<rparr>)"

definition upd_group :: "ptr \<Rightarrow> (snvm_qgroup \<Rightarrow> snvm_qgroup) \<Rightarrow> 'a dev_st_scheme \<Rightarrow> 'a dev_st_scheme" where
  "upd_group g f s =
     (case qgroups s g of None \<Rightarrow> emit Undef s | Some d \<Rightarrow> s\<lparr>qgroups := (qgroups s)(g \<mapsto> f d)\<rparr>)"

definition upd_owner :: "ptr \<Rightarrow> (snvm_dev_owner \<Rightarrow> snvm_dev_owner) \<Rightarrow> 'a dev_st_scheme \<Rightarrow> 'a dev_st_scheme" where
  "upd_owner p f s =
     (case owners s p of None \<Rightarrow> emit Undef s | Some d \<Rightarrow> s\<lparr>owners := (owners s)(p \<mapsto> f d)\<rparr>)"

section \<open>Admin commands\<close>

definition NVME_QUEUE_PHYS_CONTIG :: u16 where "NVME_QUEUE_PHYS_CONTIG = push_bit 0 1"

definition adapter_cmd ::
  "'e dev_env_scheme \<Rightarrow> pdev \<Rightarrow> admin_cmd \<Rightarrow> 'a dev_st_scheme \<Rightarrow> int \<times> 'a dev_st_scheme" where
  "adapter_cmd env d c s =
     (let rc = submit_sync_cmd env (klog s) d c in (rc, emit (Admin d c rc) s))"

definition adapter_delete_queue ::
  "'e dev_env_scheme \<Rightarrow> pdev \<Rightarrow> (u16 \<Rightarrow> admin_cmd) \<Rightarrow> u16 \<Rightarrow> 'a dev_st_scheme \<Rightarrow> int \<times> 'a dev_st_scheme" where
  "adapter_delete_queue env d opcode qid s = adapter_cmd env d (opcode qid) s"

definition adapter_delete_cq ::
  "'e dev_env_scheme \<Rightarrow> pdev \<Rightarrow> u16 \<Rightarrow> 'a dev_st_scheme \<Rightarrow> int \<times> 'a dev_st_scheme" where
  "adapter_delete_cq env d cqid s = adapter_delete_queue env d Delete_CQ cqid s"

definition adapter_delete_sq ::
  "'e dev_env_scheme \<Rightarrow> pdev \<Rightarrow> u16 \<Rightarrow> 'a dev_st_scheme \<Rightarrow> int \<times> 'a dev_st_scheme" where
  "adapter_delete_sq env d sqid s = adapter_delete_queue env d Delete_SQ sqid s"

definition adapter_alloc_cq_user ::
  "'e dev_env_scheme \<Rightarrow> pdev \<Rightarrow> nvme_dev \<Rightarrow> ptr \<Rightarrow> u16 \<Rightarrow> 'a dev_st_scheme \<Rightarrow> int \<times> 'a dev_st_scheme" where
  "adapter_alloc_cq_user env d ndev q_map qid s =
     (case maps s q_map of None \<Rightarrow> (KERNEL_OOPS, emit Undef s)
      | Some m \<Rightarrow>
        (case m_addrs m of [] \<Rightarrow> (KERNEL_OOPS, emit Undef s)
         | a # _ \<Rightarrow> adapter_cmd env d
             (Create_CQ a qid (ucast (q_depth ndev - 1)) NVME_QUEUE_PHYS_CONTIG 0) s))"

definition adapter_alloc_sq_user ::
  "'e dev_env_scheme \<Rightarrow> pdev \<Rightarrow> nvme_dev \<Rightarrow> ptr \<Rightarrow> u16 \<Rightarrow> 'a dev_st_scheme \<Rightarrow> int \<times> 'a dev_st_scheme" where
  "adapter_alloc_sq_user env d ndev q_map qid s =
     (case maps s q_map of None \<Rightarrow> (KERNEL_OOPS, emit Undef s)
      | Some m \<Rightarrow>
        (case m_addrs m of [] \<Rightarrow> (KERNEL_OOPS, emit Undef s)
         | a # _ \<Rightarrow> adapter_cmd env d
             (Create_SQ a qid (ucast (q_depth ndev - 1)) NVME_QUEUE_PHYS_CONTIG qid) s))"

section \<open>The controller owned by this driver\<close>

definition PCI_DRIVER_NAME :: string where "PCI_DRIVER_NAME = ''snvme''"

definition ctrl_pdev :: "'a ctrl_st_scheme \<Rightarrow> ptr \<Rightarrow> pdev" where
  "ctrl_pdev s c = (case ctrls s c of None \<Rightarrow> 0 | Some d \<Rightarrow> c_pdev d)"

definition snvm_ctrl_get_live_ndev :: "'a dev_st_scheme \<Rightarrow> ptr \<Rightarrow> nvme_dev option" where
  "snvm_ctrl_get_live_ndev s c =
     (if c = NULL \<or> ctrl_pdev s c = NULL then None
      else if pdev_driver s (ctrl_pdev s c) \<noteq> Some PCI_DRIVER_NAME then None
      else case drvdata s (ctrl_pdev s c) of None \<Rightarrow> None
        | Some ndev \<Rightarrow> if admin_q ndev then Some ndev else None)"

section \<open>Groups\<close>

definition has_group_id :: "'a dev_st_scheme \<Rightarrow> u32 \<Rightarrow> ptr \<Rightarrow> bool" where
  "has_group_id s gid g = (case qgroups s g of None \<Rightarrow> False | Some gr \<Rightarrow> g_group_id gr = gid)"

definition find_qgroup_locked :: "'a dev_st_scheme \<Rightarrow> ptr \<Rightarrow> u32 \<Rightarrow> ptr" where
  "find_qgroup_locked s own group_id =
     (if own = NULL \<or> group_id = 0 then NULL
      else case owners s own of None \<Rightarrow> NULL
        | Some o' \<Rightarrow> (case find (has_group_id s group_id) (own_groups o') of None \<Rightarrow> NULL | Some g \<Rightarrow> g))"

text \<open>
  The first step of the destruction walks the slots from the last to the first: the queue is
  deleted on the controller if the driver still owns it (a failure is only logged), and its
  identifier goes back to the pool.
\<close>

fun drain_queues ::
  "'e dev_env_scheme \<Rightarrow> pdev \<Rightarrow> bool \<Rightarrow> ptr \<Rightarrow> snvm_user_queue list \<Rightarrow> 'a dev_st_scheme \<Rightarrow> 'a dev_st_scheme" where
  "drain_queues env d live c [] s = s"
| "drain_queues env d live c (uq # uqs) s =
     (if \<not> uq_alive uq then drain_queues env d live c uqs s
      else
        let s1 = (if live
                  then snd (adapter_delete_cq env d (uq_qid uq) (snd (adapter_delete_sq env d (uq_qid uq) s)))
                  else s);
            s2 = (if c \<noteq> NULL then upd_ctrl c (\<lambda>d. snvm_user_qid_free_locked d (uq_qid uq)) s1 else s1)
        in drain_queues env d live c uqs s2)"

definition destroy_qgroup_locked ::
  "'e dev_env_scheme \<Rightarrow> 'a dev_st_scheme peer_memory_ops \<Rightarrow> ptr \<Rightarrow> ptr \<Rightarrow> 'a dev_st_scheme \<Rightarrow> 'a dev_st_scheme" where
  "destroy_qgroup_locked env ops g c s =
     (if g = NULL then s
      else case qgroups s g of None \<Rightarrow> emit Undef s
      | Some gr \<Rightarrow>
        let live = snvm_ctrl_get_live_ndev s c \<noteq> None;
            s1 = drain_queues env (ctrl_pdev s c) live c (rev (g_queues gr)) s;
            s2 = upd_group g (\<lambda>gr. gr\<lparr>g_queues := map (\<lambda>uq. uq\<lparr>uq_alive := False\<rparr>) (g_queues gr),
                                      g_cur_queues := 0\<rparr>) s1;
            s3 = fold (unmap_and_release ops) (glinks s2 (LGroup g)) s2;
            s4 = emit (Rel (RGroupId (unat (g_group_id gr)))) s3
        in k_free g (s4\<lparr>qgroups := (qgroups s4)(g := None)\<rparr>))"

end
