(* ===== verification/Snvm_DevIoctl.thy ===== *)
theory Snvm_DevIoctl
  imports Snvm_Qgroup
begin

text \<open>
  The character device of a controller (\<open>snvme/snvm_dev_ioctl.c\<close>): every ioctl, opening and
  closing the device, and the mapping of the registers. Each handler runs atomically. The
  payload of a call is \<open>None\<close> when it cannot be read from user memory; the reply is what a
  successful call writes back. A handler that loops over a list returns \<open>None\<close> if it diverges.
\<close>

datatype ioctl_cmd =
    NVM_MAP_HOST_MEMORY "nvm_ioctl_map option"
  | NVM_MAP_DEVICE_MEMORY "nvm_ioctl_map option"
  | NVM_UNMAP_HOST_MEMORY "u64 option"
  | NVM_UNMAP_DEVICE_MEMORY "u64 option"
  | NVM_UNMAP_DEVICE_QUEUE_MEMORY "u64 option"
  | NVM_GET_DEV_INFO
  | NVM_CREATE_QUEUE_GROUP "nvm_ioctl_queue_group option"
  | NVM_DESTROY_QUEUE_GROUP "u32 option"
  | NVM_ADD_USER_QUEUE "nvm_ioctl_add_user_queue option"
  | NVM_SET_KERNEL_IOQ_CAP "u32 option"
  | NVME_IOCTL_ADMIN nat bool
  | UNKNOWN_IOCTL nat

datatype reply =
    NoReply
  | Addrs "u64 list"
  | DevInfo nvm_ioctl_dev
  | Group nvm_ioctl_queue_group
  | Queues nvm_ioctl_add_user_queue

type_synonym 'a outcome = "int \<times> reply \<times> 'a"

section \<open>Mapping memory\<close>

definition map_request_invalid :: "nvm_ioctl_map \<Rightarrow> bool" where
  "map_request_invalid req \<longleftrightarrow>
     list_ex (\<lambda>x. x \<noteq> 0) (map_reserved0 req) \<or> map_kind req > NVM_MAP_KIND_DATA \<or>
     (map_kind req = NVM_MAP_KIND_RING_SQ \<or> map_kind req = NVM_MAP_KIND_RING_CQ) \<and> map_group_id req = 0"

definition link_map :: "link_head \<Rightarrow> ptr \<Rightarrow> 'a map_st_scheme \<Rightarrow> 'a map_st_scheme" where
  "link_map h p s = s\<lparr>glinks := (glinks s)(h := glinks s h @ [p])\<rparr>"

definition dec_data_maps :: "ptr \<Rightarrow> 'a dev_st_scheme \<Rightarrow> 'a dev_st_scheme" where
  "dec_data_maps own s =
     upd_owner own (\<lambda>o'. if own_nr_data_maps o' > 0 then o'\<lparr>own_nr_data_maps := own_nr_data_maps o' - 1\<rparr> else o') s"

text \<open>
  A new mapping is linked to the open file (data), to one of its groups, or to neither. An
  error at this point releases the mapping.
\<close>

definition attach_map ::
  "'a dev_st_scheme peer_memory_ops \<Rightarrow> ptr \<Rightarrow> nvm_ioctl_map \<Rightarrow> ptr \<Rightarrow> 'a dev_st_scheme \<Rightarrow> int \<times> 'a dev_st_scheme" where
  "attach_map ops own req p s =
     (if map_kind req = NVM_MAP_KIND_DATA then
        (if own = NULL then (-ENODEV, unmap_and_release ops p s)
         else (0, upd_owner own (\<lambda>o'. o'\<lparr>own_nr_data_maps := own_nr_data_maps o' + 1\<rparr>) (link_map (LData own) p s)))
      else if map_group_id req \<noteq> 0 then
        (if own = NULL then (-ENODEV, unmap_and_release ops p s)
         else
           let g = find_qgroup_locked s own (map_group_id req)
           in if g = NULL then (-ENOENT, unmap_and_release ops p s)
              else (0, upd_group g (\<lambda>gr. gr\<lparr>g_nr_maps := g_nr_maps gr + 1\<rparr>)
                      (link_map (LGroup g) p (upd_map p (\<lambda>m. m\<lparr>m_group_id := map_group_id req\<rparr>) s))))
      else (0, s))"

definition detach_map ::
  "'a dev_st_scheme peer_memory_ops \<Rightarrow> ptr \<Rightarrow> nvm_ioctl_map \<Rightarrow> ptr \<Rightarrow> 'a dev_st_scheme \<Rightarrow> 'a dev_st_scheme" where
  "detach_map ops own req p s =
     unmap_and_release ops p
       (if map_kind req = NVM_MAP_KIND_DATA then (if own \<noteq> NULL then dec_data_maps own s else s)
        else if map_group_id req \<noteq> 0 \<and> own \<noteq> NULL then
          let g = find_qgroup_locked s own (map_group_id req)
          in if g \<noteq> NULL then upd_group g (\<lambda>gr. gr\<lparr>g_nr_maps := g_nr_maps gr - 1\<rparr>) s else s
        else s)"

definition nvm_map_memory ::
  "'e dev_env_scheme \<Rightarrow> 'a dev_st_scheme peer_memory_ops \<Rightarrow>
   (u64 \<Rightarrow> nat \<Rightarrow> 'a dev_st_scheme \<Rightarrow> (int + ptr) \<times> 'a dev_st_scheme) \<Rightarrow>
   ptr \<Rightarrow> nvm_ioctl_map option \<Rightarrow> 'a dev_st_scheme \<Rightarrow> 'a dev_st_scheme outcome" where
  "nvm_map_memory env ops mapper own arg s =
     (case arg of None \<Rightarrow> (-EFAULT, NoReply, s)
      | Some req \<Rightarrow>
        if map_request_invalid req then (-EINVAL, NoReply, s)
        else case mapper (vaddr_start req) (unat (n_pages req)) s of
          (Inl e, s1) \<Rightarrow> (e, NoReply, s1)
        | (Inr p, s1) \<Rightarrow>
            (case attach_map ops own req p (upd_map p (\<lambda>m. m\<lparr>m_kind := map_kind req\<rparr>) s1) of (rc, s2) \<Rightarrow>
             if rc \<noteq> 0 then (rc, NoReply, s2)
             else case maps s2 p of None \<Rightarrow> (KERNEL_OOPS, NoReply, emit Undef s2)
             | Some m \<Rightarrow>
               (case copy_addrs (m_n_addrs m) (m_addrs m) s2 of (out, s3) \<Rightarrow>
                if \<not> copy_to_user env (klog s3) then (-EFAULT, NoReply, detach_map ops own req p s3)
                else (0, Addrs out, s3))))"

definition nvm_map_host_memory ::
  "'e dev_env_scheme \<Rightarrow> 'a dev_st_scheme peer_memory_ops \<Rightarrow> task \<Rightarrow> ptr \<Rightarrow> ptr \<Rightarrow> nvm_ioctl_map option \<Rightarrow>
   'a dev_st_scheme \<Rightarrow> 'a dev_st_scheme outcome" where
  "nvm_map_host_memory env ops cur c own arg s =
     nvm_map_memory env ops (map_userspace env ops cur (ctrl_pdev s c)) own arg s"

definition nvm_map_device_memory ::
  "'e dev_env_scheme \<Rightarrow> 'a dev_st_scheme peer_memory_ops \<Rightarrow> task \<Rightarrow> ptr \<Rightarrow> ptr \<Rightarrow> nvm_ioctl_map option \<Rightarrow>
   'a dev_st_scheme \<Rightarrow> 'a dev_st_scheme outcome" where
  "nvm_map_device_memory env ops cur c own arg s =
     nvm_map_memory env ops (map_device_memory env ops cur (ctrl_pdev s c)) own arg s"

section \<open>Unmapping memory\<close>

definition count_unmap :: "ptr \<Rightarrow> map_desc \<Rightarrow> 'a dev_st_scheme \<Rightarrow> 'a dev_st_scheme" where
  "count_unmap own m s =
     (if m_kind m = NVM_MAP_KIND_DATA \<and> own \<noteq> NULL then dec_data_maps own s
      else if m_group_id m \<noteq> 0 \<and> own \<noteq> NULL then
        let g = find_qgroup_locked s own (m_group_id m)
        in if g \<noteq> NULL
           then upd_group g (\<lambda>gr. if g_nr_maps gr > 0 then gr\<lparr>g_nr_maps := g_nr_maps gr - 1\<rparr> else gr) s
           else s
      else s)"

definition nvm_unmap_memory ::
  "'a dev_st_scheme peer_memory_ops \<Rightarrow> map_reg \<Rightarrow> task \<Rightarrow> ptr \<Rightarrow> u64 option \<Rightarrow> 'a dev_st_scheme \<Rightarrow>
   'a dev_st_scheme outcome option" where
  "nvm_unmap_memory ops r cur own arg s =
     (case arg of None \<Rightarrow> Some (-EFAULT, NoReply, s)
      | Some addr \<Rightarrow>
        (case map_find r cur addr s of None \<Rightarrow> None
         | Some p \<Rightarrow>
           if p = NULL then Some (-EINVAL, NoReply, s)
           else case maps s p of None \<Rightarrow> Some (KERNEL_OOPS, NoReply, emit Undef s)
           | Some m \<Rightarrow> Some (0, NoReply, unmap_and_release ops p (count_unmap own m s))))"

definition nvm_unmap_device_queue_memory ::
  "'a dev_st_scheme peer_memory_ops \<Rightarrow> task \<Rightarrow> u64 option \<Rightarrow> 'a dev_st_scheme \<Rightarrow>
   'a dev_st_scheme outcome option" where
  "nvm_unmap_device_queue_memory ops cur arg s =
     (case arg of None \<Rightarrow> Some (-EFAULT, NoReply, s)
      | Some addr \<Rightarrow>
        (case map_find DevQueue cur addr s of None \<Rightarrow> None
         | Some p \<Rightarrow>
           if p = NULL then Some (-EINVAL, NoReply, s)
           else Some (0, NoReply, unmap_and_release ops p s)))"

section \<open>Device information\<close>

definition get_ns :: "'e dev_env_scheme \<Rightarrow> pdev \<Rightarrow> 'a dev_st_scheme \<Rightarrow> nvme_ns option \<times> 'a dev_st_scheme" where
  "get_ns env d s =
     (case find_get_ns env (klog s) d of
        None \<Rightarrow> (None, emit (Note ''no namespace'' d) s)
      | Some ns \<Rightarrow> (Some ns, emit (Acq (RNs d)) s))"

text \<open>The bounded wait for the namespace scan: 50 ms steps, at most 5 s.\<close>

function ns_wait ::
  "'e dev_env_scheme \<Rightarrow> pdev \<Rightarrow> nat \<Rightarrow> 'a dev_st_scheme \<Rightarrow> nvme_ns option \<times> 'a dev_st_scheme" where
  "ns_wait env d wait_ms s =
     (if wait_ms < 5000 then
        (case get_ns env d (emit (Note ''flush_work'' d) (emit (Note ''msleep'' 50) s)) of
           (Some ns, s1) \<Rightarrow> (Some ns, s1)
         | (None, s1) \<Rightarrow> ns_wait env d (wait_ms + 50) s1)
      else (None, s))"
  by auto
termination by (relation "measure (\<lambda>(_, _, wait_ms, _). 5000 - wait_ms)") auto

definition wait_for_ns ::
  "'e dev_env_scheme \<Rightarrow> pdev \<Rightarrow> 'a dev_st_scheme \<Rightarrow> nvme_ns option \<times> 'a dev_st_scheme" where
  "wait_for_ns env d s =
     (case get_ns env d s of
        (Some ns, s1) \<Rightarrow> (Some ns, s1)
      | (None, s1) \<Rightarrow>
          (case get_ns env d (emit (Note ''flush_work'' d) s1) of
             (Some ns, s2) \<Rightarrow> (Some ns, s2)
           | (None, s2) \<Rightarrow> ns_wait env d 0 s2))"

definition dev_info :: "'e dev_env_scheme \<Rightarrow> pdev \<Rightarrow> nvme_dev \<Rightarrow> nvme_ns \<Rightarrow> nvm_ioctl_dev" where
  "dev_info env d ndev ns =
     \<lparr>nr_user_q = online_user_queues ndev,
      start_cq_idx = (if user_start_qid ndev \<noteq> 0 then user_start_qid ndev else online_queues ndev),
      dstrd = ucast (db_stride ndev),
      max_data_size = push_bit 9 (ucast (max_hw_sectors ndev)),
      block_size = ucast (push_bit (ns_lba_shift ns) 1 :: u32),
      disk_name = take 32 (ns_disk_name ns),
      dev_q_depth = ucast (q_depth ndev),
      bar0_size = ucast (pci_resource_len env d),
      max_user_qid = ctrl_max_io_queues ndev,
      max_queues_per_group = of_nat NVM_MAX_QUEUES_PER_GROUP,
      sgl_supported = sgls ndev,
      abi_version = TUTTI_SNVME_ABI_VERSION,
      capabilities = TUTTI_SNVME_CAP_ALL\<rparr>"

definition nvm_get_dev_info ::
  "'e dev_env_scheme \<Rightarrow> ptr \<Rightarrow> 'a dev_st_scheme \<Rightarrow> 'a dev_st_scheme outcome" where
  "nvm_get_dev_info env c s =
     (let d = ctrl_pdev s c
      in case drvdata s d of None \<Rightarrow> (-EFAULT, NoReply, s)
      | Some ndev \<Rightarrow>
        (case wait_for_ns env d s of
           (None, s1) \<Rightarrow> (-EFAULT, NoReply, s1)
         | (Some ns, s1) \<Rightarrow>
             let s2 = emit (Rel (RNs d)) s1
             in if \<not> copy_to_user env (klog s2) then (-EFAULT, NoReply, s2)
                else (0, DevInfo (dev_info env d ndev ns), s2)))"

section \<open>Queue groups\<close>

definition new_group :: "int \<Rightarrow> snvm_qgroup" where
  "new_group new_id =
     \<lparr>g_group_id = word_of_int new_id, g_max_queues = of_nat NVM_MAX_QUEUES_PER_GROUP, g_nr_maps = 0,
      g_queues = replicate NVM_MAX_QUEUES_PER_GROUP \<lparr>uq_qid = 0, uq_alive = False\<rparr>, g_cur_queues = 0\<rparr>"

definition unlink_group :: "ptr \<Rightarrow> ptr \<Rightarrow> 'a dev_st_scheme \<Rightarrow> 'a dev_st_scheme" where
  "unlink_group own g s =
     upd_owner own (\<lambda>o'. o'\<lparr>own_groups := remove1 g (own_groups o'), own_nr_groups := own_nr_groups o' - 1\<rparr>) s"

definition nvm_create_queue_group ::
  "'e dev_env_scheme \<Rightarrow> 'a dev_st_scheme peer_memory_ops \<Rightarrow> ptr \<Rightarrow> ptr \<Rightarrow> nvm_ioctl_queue_group option \<Rightarrow>
   'a dev_st_scheme \<Rightarrow> 'a dev_st_scheme outcome" where
  "nvm_create_queue_group env ops c own arg s =
     (if own = NULL then (-ENODEV, NoReply, s)
      else case arg of None \<Rightarrow> (-EFAULT, NoReply, s)
      | Some req \<Rightarrow>
        if qg_flags req \<noteq> 0 \<or> list_ex (\<lambda>x. x \<noteq> 0) (qg_reserved req) then (-EINVAL, NoReply, s)
        else case owners s own of None \<Rightarrow> (KERNEL_OOPS, NoReply, emit Undef s)
        | Some o' \<Rightarrow>
          if own_nr_groups o' \<ge> NVM_MAX_GROUPS_PER_FD then (-EBUSY, NoReply, s)
          else case k_alloc env s of (g, s1) \<Rightarrow>
            if g = NULL then (-ENOMEM, NoReply, s1)
            else
              let new_id = ida_simple_get env (klog s1)
              in if new_id < 0 then (new_id, NoReply, k_free g (emit (Note ''ida_simple_get failed'' 0) s1))
                 else
                   let gr = new_group new_id;
                       s2 = emit (Acq (RGroupId (unat (g_group_id gr)))) s1;
                       s3 = s2\<lparr>qgroups := (qgroups s2)(g \<mapsto> gr),
                               owners := (owners s2)(own \<mapsto> o'\<lparr>own_groups := own_groups o' @ [g],
                                                              own_nr_groups := own_nr_groups o' + 1\<rparr>)\<rparr>
                   in if \<not> copy_to_user env (klog s3)
                      then (-EFAULT, NoReply, destroy_qgroup_locked env ops g c (unlink_group own g s3))
                      else (0, Group (req\<lparr>qg_group_id := g_group_id gr, qg_max_queues := g_max_queues gr\<rparr>), s3))"

definition nvm_destroy_queue_group ::
  "'e dev_env_scheme \<Rightarrow> 'a dev_st_scheme peer_memory_ops \<Rightarrow> ptr \<Rightarrow> ptr \<Rightarrow> u32 option \<Rightarrow>
   'a dev_st_scheme \<Rightarrow> 'a dev_st_scheme outcome" where
  "nvm_destroy_queue_group env ops c own arg s =
     (if own = NULL then (-ENODEV, NoReply, s)
      else case arg of None \<Rightarrow> (-EFAULT, NoReply, s)
      | Some group_id \<Rightarrow>
        if group_id = 0 then (-EINVAL, NoReply, s)
        else
          let g = find_qgroup_locked s own group_id
          in if g = NULL then (-ENOENT, NoReply, s)
             else (0, NoReply, destroy_qgroup_locked env ops g c (unlink_group own g s)))"

section \<open>User queues\<close>

text \<open>The checks of the request: no zero address, no repetition within the batch.\<close>

fun bad_pairs :: "nvm_user_queue_pair_in list \<Rightarrow> nvm_user_queue_pair_in list \<Rightarrow> bool" where
  "bad_pairs seen [] = False"
| "bad_pairs seen (p # ps) =
     (sq_vaddr p = 0 \<or> cq_vaddr p = 0 \<or> sq_vaddr p = cq_vaddr p \<or>
      list_ex (\<lambda>q. sq_vaddr p = sq_vaddr q \<or> cq_vaddr p = cq_vaddr q) seen \<or>
      bad_pairs (seen @ [p]) ps)"

definition req_pairs :: "nvm_ioctl_add_user_queue \<Rightarrow> nvm_user_queue_pair_in list" where
  "req_pairs req = take (unat (nr_pairs req)) (aq_pairs req)"

definition add_request_invalid :: "nvm_ioctl_add_user_queue \<Rightarrow> bool" where
  "add_request_invalid req \<longleftrightarrow>
     aq_flags req \<noteq> 0 \<or> list_ex (\<lambda>x. x \<noteq> 0) (aq_reserved req) \<or>
     nr_pairs req = 0 \<or> nr_pairs req > of_nat NVM_MAX_QUEUES_PER_GROUP \<or> bad_pairs [] (req_pairs req)"

text \<open>The mappings of a group that hold the rings of a pair.\<close>

definition ring_mask :: "map_desc \<Rightarrow> u64" where
  "ring_mask m = not ((if m_page_size m \<noteq> 0 then m_page_size m else PAGE_SIZE) - 1)"

fun resolve_pair ::
  "'a map_st_scheme \<Rightarrow> nvm_user_queue_pair_in \<Rightarrow> ptr list \<Rightarrow> ptr \<Rightarrow> ptr \<Rightarrow> ptr \<times> ptr" where
  "resolve_pair s pr [] m_sq m_cq = (m_sq, m_cq)"
| "resolve_pair s pr (x # xs) m_sq m_cq =
     (case maps s x of None \<Rightarrow> resolve_pair s pr xs m_sq m_cq
      | Some m \<Rightarrow>
        if m_kind m = NVM_MAP_KIND_DATA then resolve_pair s pr xs m_sq m_cq
        else
          let m_sq' = (if m_vaddr m = and (sq_vaddr pr) (ring_mask m) \<and>
                          (m_kind m = 0 \<or> m_kind m = NVM_MAP_KIND_RING_SQ) then x else m_sq);
              m_cq' = (if m_vaddr m = and (cq_vaddr pr) (ring_mask m) \<and>
                          (m_kind m = 0 \<or> m_kind m = NVM_MAP_KIND_RING_CQ) then x else m_cq)
          in if m_sq' \<noteq> NULL \<and> m_cq' \<noteq> NULL then (m_sq', m_cq')
             else resolve_pair s pr xs m_sq' m_cq')"

fun resolve_pairs ::
  "'a map_st_scheme \<Rightarrow> ptr list \<Rightarrow> nvm_user_queue_pair_in list \<Rightarrow> (ptr \<times> ptr) list option" where
  "resolve_pairs s gmaps [] = Some []"
| "resolve_pairs s gmaps (pr # prs) =
     (case resolve_pair s pr gmaps NULL NULL of (m_sq, m_cq) \<Rightarrow>
        if m_sq = NULL \<or> m_cq = NULL then None
        else case resolve_pairs s gmaps prs of None \<Rightarrow> None | Some ms \<Rightarrow> Some ((m_sq, m_cq) # ms))"

text \<open>The pool of the controller: the bitmap is allocated on first use.\<close>

definition pool_init ::
  "'e dev_env_scheme \<Rightarrow> ptr \<Rightarrow> nvme_dev \<Rightarrow> 'a dev_st_scheme \<Rightarrow> int \<times> 'a dev_st_scheme" where
  "pool_init env c ndev s =
     (case ctrls s c of None \<Rightarrow> (KERNEL_OOPS, emit Undef s)
      | Some d \<Rightarrow>
        (case snvm_user_qid_pool_init_locked (kmalloc env (klog s) \<noteq> NULL) (Some ndev) d of (rc, d') \<Rightarrow>
           (rc, (if user_qid_bitmap d = None \<and> user_qid_bitmap d' \<noteq> None then emit (Acq (RBitmap c)) s
                 else if rc = -ENOMEM then emit (Note ''alloc failed'' 0) s else s)
                  \<lparr>ctrls := (ctrls s)(c \<mapsto> d')\<rparr>)))"

definition pool_alloc :: "ptr \<Rightarrow> nat \<Rightarrow> 'a dev_st_scheme \<Rightarrow> int \<times> u16 list \<times> 'a dev_st_scheme" where
  "pool_alloc c nr s =
     (case ctrls s c of None \<Rightarrow> (KERNEL_OOPS, [], emit Undef s)
      | Some d \<Rightarrow>
        (case snvm_user_qid_alloc_locked d nr of (rc, qids, d') \<Rightarrow> (rc, qids, s\<lparr>ctrls := (ctrls s)(c \<mapsto> d')\<rparr>)))"

definition free_qid :: "ptr \<Rightarrow> u16 \<Rightarrow> 'a dev_st_scheme \<Rightarrow> 'a dev_st_scheme" where
  "free_qid c qid s = upd_ctrl c (\<lambda>d. snvm_user_qid_free_locked d qid) s"

text \<open>
  Creation on the controller, completion queue first. The count is the number of complete
  pairs; the completion queue of a pair whose submission queue fails is deleted at once.
\<close>

fun create_pairs ::
  "'e dev_env_scheme \<Rightarrow> pdev \<Rightarrow> nvme_dev \<Rightarrow> (u16 \<times> ptr \<times> ptr) list \<Rightarrow> nat \<Rightarrow> 'a dev_st_scheme \<Rightarrow>
   int \<times> nat \<times> 'a dev_st_scheme" where
  "create_pairs env d ndev [] created s = (0, created, s)"
| "create_pairs env d ndev ((qid, m_sq, m_cq) # xs) created s =
     (case adapter_alloc_cq_user env d ndev m_cq qid s of (rc, s1) \<Rightarrow>
        if rc \<noteq> 0 then (rc, created, s1)
        else case adapter_alloc_sq_user env d ndev m_sq qid s1 of (rc, s2) \<Rightarrow>
          if rc \<noteq> 0 then (rc, created, snd (adapter_delete_cq env d qid s2))
          else create_pairs env d ndev xs (created + 1) s2)"

definition delete_pair :: "'e dev_env_scheme \<Rightarrow> pdev \<Rightarrow> u16 \<Rightarrow> 'a dev_st_scheme \<Rightarrow> 'a dev_st_scheme" where
  "delete_pair env d qid s = snd (adapter_delete_cq env d qid (snd (adapter_delete_sq env d qid s)))"

definition add_rollback ::
  "'e dev_env_scheme \<Rightarrow> pdev \<Rightarrow> ptr \<Rightarrow> u16 list \<Rightarrow> nat \<Rightarrow> 'a dev_st_scheme \<Rightarrow> 'a dev_st_scheme" where
  "add_rollback env d c qids created s =
     fold (free_qid c) qids (fold (delete_pair env d) (rev (take created qids)) s)"

text \<open>The doorbell registers of a queue pair, in 32-bit arithmetic.\<close>

definition NVME_REG_DBS :: u32 where "NVME_REG_DBS = 0x1000"

definition doorbells :: "u32 \<Rightarrow> u16 \<Rightarrow> nvm_user_queue_pair_out" where
  "doorbells stride qid =
     \<lparr>sq_doorbell_offset = NVME_REG_DBS + ucast qid * 2 * stride * 4,
      cq_doorbell_offset = NVME_REG_DBS + (ucast qid * 2 + 1) * stride * 4,
      out_qid = ucast qid\<rparr>"

fun set_slots :: "nat \<Rightarrow> snvm_user_queue list \<Rightarrow> snvm_user_queue list \<Rightarrow> snvm_user_queue list" where
  "set_slots i [] slots = slots"
| "set_slots i (u # us) slots = set_slots (i + 1) us (slots[i := u])"

definition add_commit :: "u16 list \<Rightarrow> snvm_qgroup \<Rightarrow> snvm_qgroup" where
  "add_commit qids gr =
     gr\<lparr>g_queues := set_slots (unat (g_cur_queues gr)) (map (\<lambda>q. \<lparr>uq_qid = q, uq_alive = True\<rparr>) qids) (g_queues gr),
        g_cur_queues := g_cur_queues gr + of_nat (length qids)\<rparr>"

text \<open>A fault while copying the reply: the slots just committed are reverted.\<close>

definition add_revert ::
  "'e dev_env_scheme \<Rightarrow> pdev \<Rightarrow> ptr \<Rightarrow> ptr \<Rightarrow> nat \<Rightarrow> 'a dev_st_scheme \<Rightarrow> 'a dev_st_scheme" where
  "add_revert env d c g nr s =
     (case qgroups s g of None \<Rightarrow> emit Undef s
      | Some gr \<Rightarrow>
        let first = unat (g_cur_queues gr - of_nat nr);
            uqs = take nr (drop first (g_queues gr));
            s1 = fold (\<lambda>uq s. free_qid c (uq_qid uq) (delete_pair env d (uq_qid uq) s)) uqs s
        in upd_group g (\<lambda>gr. gr\<lparr>g_queues := set_slots first (map (\<lambda>uq. uq\<lparr>uq_alive := False\<rparr>) uqs) (g_queues gr),
                                g_cur_queues := g_cur_queues gr - of_nat nr\<rparr>) s1)"

text \<open>The part of the handler after the group and the rings have been found.\<close>

definition add_queues ::
  "'e dev_env_scheme \<Rightarrow> ptr \<Rightarrow> nvme_dev \<Rightarrow> ptr \<Rightarrow> (ptr \<times> ptr) list \<Rightarrow> nvm_ioctl_add_user_queue \<Rightarrow>
   'a dev_st_scheme \<Rightarrow> 'a dev_st_scheme outcome" where
  "add_queues env c ndev g rings req s =
     (case pool_init env c ndev s of (rc, s1) \<Rightarrow>
        if rc \<noteq> 0 then (rc, NoReply, s1)
        else case pool_alloc c (unat (nr_pairs req)) s1 of (rc, qids, s2) \<Rightarrow>
          if rc \<noteq> 0 then (rc, NoReply, s2)
          else
            let d = ctrl_pdev s c
            in case create_pairs env d ndev (zip qids rings) 0 s2 of (rc, created, s3) \<Rightarrow>
              if rc \<noteq> 0 then (rc, NoReply, add_rollback env d c qids created s3)
              else
                let s4 = upd_group g (add_commit qids) s3
                in if \<not> copy_to_user env (klog s4)
                   then (-EFAULT, NoReply, add_revert env d c g (length qids) s4)
                   else (0, Queues (req\<lparr>out_pairs := map (doorbells (db_stride ndev)) qids @
                                          drop (length qids) (out_pairs req)\<rparr>), s4))"

definition add_user_queue_body ::
  "'e dev_env_scheme \<Rightarrow> ptr \<Rightarrow> ptr \<Rightarrow> nvm_ioctl_add_user_queue option \<Rightarrow>
   'a dev_st_scheme \<Rightarrow> 'a dev_st_scheme outcome" where
  "add_user_queue_body env c own arg s =
     (case arg of None \<Rightarrow> (-EFAULT, NoReply, s)
      | Some req \<Rightarrow>
        if add_request_invalid req then (-EINVAL, NoReply, s)
        else case snvm_ctrl_get_live_ndev s c of None \<Rightarrow> (-ENODEV, NoReply, s)
        | Some ndev \<Rightarrow>
          let g = find_qgroup_locked s own (aq_group_id req)
          in if g = NULL then (-ENOENT, NoReply, s)
          else case qgroups s g of None \<Rightarrow> (KERNEL_OOPS, NoReply, emit Undef s)
          | Some gr \<Rightarrow>
            if g_cur_queues gr + nr_pairs req > g_max_queues gr then (-EBUSY, NoReply, s)
            else case resolve_pairs s (glinks s (LGroup g)) (req_pairs req) of None \<Rightarrow> (-ENOENT, NoReply, s)
            | Some rings \<Rightarrow> add_queues env c ndev g rings req s)"

definition nvm_add_user_queue ::
  "'e dev_env_scheme \<Rightarrow> ptr \<Rightarrow> ptr \<Rightarrow> nvm_ioctl_add_user_queue option \<Rightarrow>
   'a dev_st_scheme \<Rightarrow> 'a dev_st_scheme outcome" where
  "nvm_add_user_queue env c own arg s =
     (if own = NULL then (-ENODEV, NoReply, s)
      else case k_alloc env s of (req, s1) \<Rightarrow>
        if req = NULL then (-ENOMEM, NoReply, s1)
        else case add_user_queue_body env c own arg s1 of (rc, rep, s2) \<Rightarrow> (rc, rep, k_free req s2))"

definition nvm_set_kernel_ioq_cap :: "ptr \<Rightarrow> u32 option \<Rightarrow> 'a dev_st_scheme \<Rightarrow> 'a dev_st_scheme outcome" where
  "nvm_set_kernel_ioq_cap c arg s =
     (case arg of None \<Rightarrow> (-EFAULT, NoReply, s)
      | Some cap \<Rightarrow>
          (0, NoReply, upd_ctrl c (\<lambda>d. d\<lparr>c_setup := c_setup d\<lparr>setup_cap_kernel_ioq := cap, setup_valid := 1\<rparr>\<rparr>) s))"

section \<open>The file operations\<close>

definition snvm_dev_map_ioctl ::
  "'e dev_env_scheme \<Rightarrow> 'a dev_st_scheme peer_memory_ops \<Rightarrow> task \<Rightarrow> nat \<Rightarrow> ptr \<Rightarrow> ioctl_cmd \<Rightarrow>
   'a dev_st_scheme \<Rightarrow> 'a dev_st_scheme outcome option" where
  "snvm_dev_map_ioctl env ops cur inode own cmd s =
     (case ctrl_find_by_inode s inode of None \<Rightarrow> None
      | Some c \<Rightarrow>
        if c = NULL then Some (-EBADF, NoReply, s)
        else case cmd of
          NVM_MAP_HOST_MEMORY arg \<Rightarrow> Some (nvm_map_host_memory env ops cur c own arg s)
        | NVM_MAP_DEVICE_MEMORY arg \<Rightarrow> Some (nvm_map_device_memory env ops cur c own arg s)
        | NVM_UNMAP_HOST_MEMORY arg \<Rightarrow> nvm_unmap_memory ops Host cur own arg s
        | NVM_UNMAP_DEVICE_MEMORY arg \<Rightarrow> nvm_unmap_memory ops Device cur own arg s
        | NVM_UNMAP_DEVICE_QUEUE_MEMORY arg \<Rightarrow> nvm_unmap_device_queue_memory ops cur arg s
        | NVM_GET_DEV_INFO \<Rightarrow> Some (nvm_get_dev_info env c s)
        | NVM_CREATE_QUEUE_GROUP arg \<Rightarrow> Some (nvm_create_queue_group env ops c own arg s)
        | NVM_DESTROY_QUEUE_GROUP arg \<Rightarrow> Some (nvm_destroy_queue_group env ops c own arg s)
        | NVM_ADD_USER_QUEUE arg \<Rightarrow> Some (nvm_add_user_queue env c own arg s)
        | NVM_SET_KERNEL_IOQ_CAP arg \<Rightarrow> Some (nvm_set_kernel_ioq_cap c arg s)
        | NVME_IOCTL_ADMIN k wr \<Rightarrow>
            (case snvm_ctrl_get_live_ndev s c of None \<Rightarrow> Some (-ENODEV, NoReply, s)
             | Some _ \<Rightarrow> Some (admin_ioctl env (klog s) (ctrl_pdev s c) k wr, NoReply,
                               emit (Note ''snvme_admin_ioctl'' k) s))
        | UNKNOWN_IOCTL k \<Rightarrow> Some (-EINVAL, NoReply, s))"

definition svm_mmap_registers ::
  "'e dev_env_scheme \<Rightarrow> nat \<Rightarrow> u64 \<Rightarrow> u64 \<Rightarrow> 'a dev_st_scheme \<Rightarrow> (int \<times> 'a dev_st_scheme) option" where
  "svm_mmap_registers env inode vm_start vm_end s =
     (case ctrl_find_by_inode s inode of None \<Rightarrow> None
      | Some c \<Rightarrow>
        if c = NULL \<or> ctrl_pdev s c = NULL then Some (-EBADF, s)
        else if vm_end - vm_start > pci_resource_len env (ctrl_pdev s c) then Some (-EINVAL, s)
        else Some (vm_iomap_memory env (klog s) (pci_resource_start env (ctrl_pdev s c)) (vm_end - vm_start),
                   emit (Note ''vm_iomap_memory'' (unat (vm_end - vm_start))) s))"

definition snvm_dev_open ::
  "'e dev_env_scheme \<Rightarrow> task \<Rightarrow> nat \<Rightarrow> 'a dev_st_scheme \<Rightarrow> (int \<times> ptr \<times> 'a dev_st_scheme) option" where
  "snvm_dev_open env cur inode s =
     (case ctrl_find_by_inode s inode of None \<Rightarrow> None
      | Some c \<Rightarrow>
        if c = NULL then Some (-ENODEV, NULL, s)
        else case k_alloc env s of (own, s1) \<Rightarrow>
          if own = NULL then Some (-ENOMEM, NULL, s1)
          else Some (0, own, s1\<lparr>owners := (owners s1)(own \<mapsto>
                 \<lparr>own_ctrl = c, own_owner = cur, own_groups = [], own_nr_groups = 0, own_nr_data_maps = 0\<rparr>)\<rparr>))"

definition release_groups ::
  "'e dev_env_scheme \<Rightarrow> 'a dev_st_scheme peer_memory_ops \<Rightarrow> ptr \<Rightarrow> ptr \<Rightarrow> ptr list \<Rightarrow> 'a dev_st_scheme \<Rightarrow> 'a dev_st_scheme" where
  "release_groups env ops own c gs s =
     fold (\<lambda>g s. destroy_qgroup_locked env ops g c
             (upd_owner own (\<lambda>o'. o'\<lparr>own_groups := remove1 g (own_groups o')\<rparr>) s)) gs s"

definition snvm_dev_release ::
  "'e dev_env_scheme \<Rightarrow> 'a dev_st_scheme peer_memory_ops \<Rightarrow> ptr \<Rightarrow> 'a dev_st_scheme \<Rightarrow> (int \<times> 'a dev_st_scheme) option" where
  "snvm_dev_release env ops own s =
     (if own = NULL then Some (0, s)
      else case owners s own of None \<Rightarrow> Some (KERNEL_OOPS, emit Undef s)
      | Some o' \<Rightarrow>
        let s1 = release_groups env ops own (own_ctrl o') (own_groups o') s;
            s2 = upd_owner own (\<lambda>o'. o'\<lparr>own_nr_groups := 0\<rparr>) s1;
            s3 = fold (unmap_and_release ops) (glinks s2 (LData own)) s2;
            s4 = upd_owner own (\<lambda>o'. o'\<lparr>own_nr_data_maps := 0\<rparr>) s3
        in case map_purge_by_owner ops Host (own_owner o') s4 of None \<Rightarrow> None
        | Some (s5, _) \<Rightarrow>
          (case map_purge_by_owner ops Device (own_owner o') s5 of None \<Rightarrow> None
           | Some (s6, _) \<Rightarrow>
             (case map_purge_by_owner ops DevQueue (own_owner o') s6 of None \<Rightarrow> None
              | Some (s7, _) \<Rightarrow>
                  Some (0, k_free own (s7\<lparr>owners := (owners s7)(own := None)\<rparr>)))))"

end
