(* ===== verification/Snvm_MapBalance.thy ===== *)
theory Snvm_MapBalance
  imports Snvm_Map
begin

text \<open>
  Resource accounting for the mapping code: the resources a descriptor stands for, that
  mapping acquires exactly these and releasing gives back exactly these, for any backend
  that satisfies the peer-memory contract; then the instances for both backends.
\<close>

section \<open>Events\<close>

lemma emit_all_simps [simp]:
  "klog (emit_all es s) = rev es @ klog s"
  by (induction es arbitrary: s) (simp_all add: emit_all_def emit_def)

lemma emit_all_eq: "emit_all es s = s\<lparr>klog := rev es @ klog s\<rparr>"
  by (induction es arbitrary: s) (simp_all add: emit_all_def emit_def)

lemma held_rels: "held (rev (map Rel xs) @ l) r = held l r - cost xs r"
proof (induction xs arbitrary: l)
  case (Cons x xs)
  show ?case using Cons.IH [of "Rel x # l"] by simp
qed simp

lemma held_acqs: "held (rev (map Acq xs) @ l) r = held l r + cost xs r"
proof (induction xs arbitrary: l)
  case (Cons x xs)
  show ?case using Cons.IH [of "Acq x # l"] by simp
qed simp

lemma clean_events: "clean (rev (map Rel xs) @ l) = clean l" "clean (rev (map Acq xs) @ l) = clean l"
  by (auto simp: clean_def)

lemma held_k_free: "held (klog (k_free p s)) r = held (klog s) r - cost (mem_res p) r"
  by (simp add: k_free_def mem_res_def)

lemma clean_k_free [simp]: "clean (klog (k_free p s)) = clean (klog s)"
  by (simp add: k_free_def)

section \<open>Frames\<close>

text \<open>What no operation on one mapping changes.\<close>

definition map_frame :: "'a map_st_scheme \<Rightarrow> 'a map_st_scheme \<Rightarrow> bool" where
  "map_frame s s' \<longleftrightarrow>
     ctrl_list s' = ctrl_list s \<and> ctrls s' = ctrls s \<and> kref s' = kref s \<and> cdev_inodes s' = cdev_inodes s \<and>
     i_cdev s' = i_cdev s \<and> opens s' = opens s \<and> phx_register_fn s' = phx_register_fn s \<and>
     phx_deregister_fn s' = phx_deregister_fn s \<and> map_st.more s' = map_st.more s"

lemma map_frame_refl [simp]: "map_frame s s"
  by (simp add: map_frame_def)

lemma map_frame_trans: "map_frame s s' \<Longrightarrow> map_frame s' s'' \<Longrightarrow> map_frame s s''"
  by (simp add: map_frame_def)

lemma map_frame_pdevs: "map_frame s s' \<Longrightarrow> pdevs s' = pdevs s"
  by (simp add: map_frame_def pdevs_def)

lemma keeps_map_fields:
  assumes "peer_st.more s' = peer_st.more (s :: 'a map_st_scheme)"
  shows "map_frame s s'" "maps s' = maps s" "mlists s' = mlists s" "glinks s' = glinks s"
  using assms by (cases s, cases s', simp add: map_frame_def)+

definition same_maps :: "'a map_st_scheme \<Rightarrow> 'a map_st_scheme \<Rightarrow> bool" where
  "same_maps s s' \<longleftrightarrow> maps s' = maps s \<and> mlists s' = mlists s \<and> glinks s' = glinks s"

lemma keeps_same_maps: "keeps ready s s' \<Longrightarrow> same_maps s s'"
  using keeps_map_fields [of s' s] by (simp add: keeps_def same_maps_def)

section \<open>Resources of a mapping\<close>

definition dms_res :: "(pdev \<Rightarrow> peer_dma_mapping \<Rightarrow> resource list) \<Rightarrow> pdev list \<Rightarrow>
    peer_dma_mapping list \<Rightarrow> resource list" where
  "dms_res dm_res ds dms = concat (map (\<lambda>(d, m). dm_res d m) (zip ds dms))"

lemma dms_res_simps [simp]:
  "dms_res f ds [] = []" "dms_res f (d # ds) (m # ms) = f d m @ dms_res f ds ms"
  by (simp_all add: dms_res_def)

definition gd_res :: "(peer_page_table \<Rightarrow> resource list) \<Rightarrow> (pdev \<Rightarrow> peer_dma_mapping \<Rightarrow> resource list) \<Rightarrow>
    pdev list \<Rightarrow> gpu_region \<Rightarrow> resource list" where
  "gd_res pt_res dm_res ds gd =
     (if gd_phx gd \<noteq> NULL then [RPhx (gd_phx gd)]
      else dms_res dm_res ds (List.map_filter id (gd_mappings gd)) @ mem_res (gd_map_ptr gd) @
        opt_res pt_res (gd_pages gd))"

definition data_res :: "(peer_page_table \<Rightarrow> resource list) \<Rightarrow> (pdev \<Rightarrow> peer_dma_mapping \<Rightarrow> resource list) \<Rightarrow>
    pdev list \<Rightarrow> map_desc \<Rightarrow> resource list" where
  "data_res pt_res dm_res ds m =
     (case m_data m of
        DNull \<Rightarrow> []
      | DPages a pages \<Rightarrow> map (RDma (m_pdev m)) (take (m_n_addrs m) (m_addrs m)) @ map RPage pages @ [RMem a]
      | DGpu a gd \<Rightarrow> gd_res pt_res dm_res ds gd @ [RMem a])"

definition gd_wf :: "nat \<Rightarrow> gpu_region \<Rightarrow> bool" where
  "gd_wf n gd \<longleftrightarrow>
     gd_phx gd \<noteq> NULL \<or> gd_map_ptr gd = NULL \<and> gd_mappings gd = [] \<and> gd_pages gd = None \<or>
     gd_map_ptr gd \<noteq> NULL \<and> n \<le> max_num_ctrls \<and>
       (\<exists>dms. gd_mappings gd = map Some dms @ replicate (max_num_ctrls - length dms) None \<and> length dms \<le> n)"

definition map_wf :: "nat \<Rightarrow> bool \<Rightarrow> map_desc \<Rightarrow> bool" where
  "map_wf n dereg m \<longleftrightarrow>
     (case m_data m of
        DNull \<Rightarrow> True
      | DPages a pages \<Rightarrow> m_release m = RelUser \<and> a \<noteq> NULL \<and> length pages = m_n_addrs m \<and>
          m_n_addrs m \<le> length (m_addrs m)
      | DGpu a gd \<Rightarrow> m_release m = RelGpu \<and> a \<noteq> NULL \<and> gd_wf n gd \<and> (gd_phx gd \<noteq> NULL \<longrightarrow> dereg))"

lemma filter_mappings: "List.map_filter id (map Some dms @ replicate k None) = dms"
  by (simp add: map_filter_def)

section \<open>Releasing\<close>

text \<open>The state an operation on the mapping \<open>p\<close> alone may change, and what it must keep.\<close>

definition rel_ok :: "('a map_st_scheme \<Rightarrow> bool) \<Rightarrow> resource list \<Rightarrow> 'a map_st_scheme \<Rightarrow> 'a map_st_scheme \<Rightarrow> bool" where
  "rel_ok ready xs s s' \<longleftrightarrow> map_frame s s' \<and> (ready s \<longrightarrow> ready s') \<and> (clean (klog s) \<longrightarrow> clean (klog s')) \<and>
     gains (klog s') xs (klog s)"

lemma rel_ok_trans:
  "rel_ok ready xs s s' \<Longrightarrow> rel_ok ready ys s' s'' \<Longrightarrow> rel_ok ready (xs @ ys) s s''"
  by (auto simp: rel_ok_def gains_def map_frame_def)

lemma rel_ok_keeps:
  "keeps ready s s' \<Longrightarrow> gains (klog s') xs (klog s) \<Longrightarrow> rel_ok ready xs (s :: 'a map_st_scheme) s'"
  using keeps_map_fields [of s' s] by (simp add: rel_ok_def keeps_def)

lemma user_pages_fields:
  assumes "maps s p = Some m" "m_data m = DPages a pages" "map_wf n dereg m"
  shows "release_user_pages p s =
    s\<lparr>klog := Rel (RMem a) # rev (map Rel (map RPage pages)) @
        rev (map Rel (map (RDma (m_pdev m)) (take (m_n_addrs m) (m_addrs m)))) @ klog s,
      maps := (maps s)(p \<mapsto> m\<lparr>m_data := DNull\<rparr>)\<rparr>"
proof -
  have wf: "a \<noteq> NULL" "length pages = m_n_addrs m" "m_n_addrs m \<le> length (m_addrs m)"
    using assms(2,3) by (auto simp: map_wf_def)
  have "map (\<lambda>i. Rel (RDma (m_pdev m) (m_addrs m ! i))) [0 ..< m_n_addrs m] =
      map Rel (map (RDma (m_pdev m)) (take (m_n_addrs m) (m_addrs m)))"
    using wf by (intro nth_equalityI) auto
  moreover have "map (\<lambda>i. Rel (RPage (pages ! i))) [0 ..< m_n_addrs m] = map Rel (map RPage pages)"
    using wf by (intro nth_equalityI) auto
  ultimately show ?thesis
    using assms wf
    by (simp add: release_user_pages_def Let_def k_free_def upd_map_def emit_def emit_all_eq)
qed

text \<open>
  The ledger: the resources held are those of the live mappings, beyond a base that belongs
  to the rest of the driver. It implies that no address of a live mapping is free.
\<close>

definition map_res :: "(peer_page_table \<Rightarrow> resource list) \<Rightarrow> (pdev \<Rightarrow> peer_dma_mapping \<Rightarrow> resource list) \<Rightarrow>
    'a map_st_scheme \<Rightarrow> ptr \<Rightarrow> resource list" where
  "map_res pt_res dm_res s p =
     (case maps s p of None \<Rightarrow> [] | Some m \<Rightarrow> data_res pt_res dm_res (pdevs s) m @ [RMem p])"

definition total :: "(peer_page_table \<Rightarrow> resource list) \<Rightarrow> (pdev \<Rightarrow> peer_dma_mapping \<Rightarrow> resource list) \<Rightarrow>
    'a map_st_scheme \<Rightarrow> resource \<Rightarrow> int" where
  "total pt_res dm_res s r = (\<Sum>p\<in>dom (maps s). cost (map_res pt_res dm_res s p) r)"

text \<open>A family of lists with distinct entries from a set, no two of which share an entry.\<close>

definition fam_ok :: "('i \<Rightarrow> ptr list) \<Rightarrow> ptr set \<Rightarrow> bool" where
  "fam_ok f D \<longleftrightarrow> (\<forall>i. distinct (f i) \<and> set (f i) \<subseteq> D) \<and>
     (\<forall>i j x. x \<in> set (f i) \<and> x \<in> set (f j) \<longrightarrow> i = j)"

lemma fam_ok_remove: "fam_ok f D \<Longrightarrow> fam_ok (\<lambda>i. remove1 p (f i)) (D - {p})"
  by (simp add: fam_ok_def) blast

lemma fam_ok_add: "fam_ok f D \<Longrightarrow> p \<notin> D \<Longrightarrow> fam_ok (f(r := f r @ [p])) (insert p D)"
  by (simp add: fam_ok_def) blast

lemma fam_ok_insert: "fam_ok f D \<Longrightarrow> fam_ok f (insert p D)"
  by (simp add: fam_ok_def) blast

definition lists_ok :: "'a map_st_scheme \<Rightarrow> bool" where
  "lists_ok s \<longleftrightarrow> fam_ok (mlists s) (dom (maps s)) \<and> fam_ok (glinks s) (dom (maps s))"

definition map_inv :: "('a map_st_scheme \<Rightarrow> bool) \<Rightarrow> (peer_page_table \<Rightarrow> resource list) \<Rightarrow>
    (pdev \<Rightarrow> peer_dma_mapping \<Rightarrow> resource list) \<Rightarrow> (resource \<Rightarrow> int) \<Rightarrow> 'a map_st_scheme \<Rightarrow> bool" where
  "map_inv ready pt_res dm_res base s \<longleftrightarrow>
     ready s \<and> finite (dom (maps s)) \<and> (\<forall>r. 0 \<le> base r) \<and>
     (\<forall>r. held (klog s) r = base r + total pt_res dm_res s r) \<and> lists_ok s \<and>
     (\<forall>p m. maps s p = Some m \<longrightarrow> p \<noteq> NULL \<and> map_wf (length (pdevs s)) (phx_deregister_fn s) m) \<and>
     (phx_register_fn s \<longrightarrow> phx_deregister_fn s)"

lemma lists_ok_remove:
  assumes "lists_ok s" "maps s' = (maps s)(p := None)"
    "mlists s' = (\<lambda>r. remove1 p (mlists s r))" "glinks s' = (\<lambda>h. remove1 p (glinks s h))"
  shows "lists_ok s'"
  using assms by (simp add: lists_ok_def fam_ok_remove)

lemma lists_ok_add:
  assumes "lists_ok s" "maps s p = None" "maps s' = (maps s)(p \<mapsto> m)" "glinks s' = glinks s"
    and "mlists s' = mlists s \<or> (\<exists>r. mlists s' = (mlists s)(r := mlists s r @ [p]))"
  shows "lists_ok s'"
proof -
  have D: "dom (maps s') = insert p (dom (maps s))" "p \<notin> dom (maps s)" using assms(2,3) by auto
  have f: "fam_ok (mlists s) (dom (maps s))" "fam_ok (glinks s) (dom (maps s))"
    using assms(1) by (auto simp: lists_ok_def)
  have "fam_ok (mlists s') (insert p (dom (maps s)))"
    using assms(5) fam_ok_add [OF f(1) D(2)] fam_ok_insert [OF f(1)] by auto
  then show ?thesis
    using fam_ok_insert [OF f(2)] assms(4) D(1) by (auto simp: lists_ok_def)
qed

lemma cost_nonneg: "0 \<le> cost xs r"
  by (simp add: cost_def)

locale map_backend = peer_backend ops ready pt_res dm_res
  for ops :: "'b map_st_scheme peer_memory_ops" and ready pt_res dm_res
begin

lemma ready_same: "psyms s' = psyms s \<Longrightarrow> ready s \<Longrightarrow> ready s'"
  using ready_cong by blast

lemma gpu_unmap_loop_ok:
  assumes "ready s" "ms = pre @ map Some dms @ replicate k None" "length pre = j"
    and "length dms \<le> length ds" "length dms = length ds \<or> k > 0"
  shows "rel_ok ready (dms_res dm_res ds dms) s (gpu_unmap_loop ops ds pt ms j s) \<and>
    same_maps s (gpu_unmap_loop ops ds pt ms j s)"
  using assms
proof (induction ds arbitrary: s pre dms j)
  case Nil
  then show ?case by (simp add: rel_ok_def gains_def same_maps_def)
next
  case (Cons d ds)
  show ?case
  proof (cases dms)
    case Nil
    then have "k > 0" "j < length ms" "ms ! j = None"
      using Cons.prems by (auto simp: nth_append)
    then show ?thesis using Cons.IH [of s pre "[]" j] Cons.prems Nil by simp
  next
    case (Cons m dms')
    then have j: "j < length ms" "ms ! j = Some m" using Cons.prems by (auto simp: nth_append)
    obtain rc s1 where u: "op_dma_unmap_pages ops d pt (Some m) s = (rc, s1)" by fastforce
    from dma_unmap_ok [OF Cons.prems(1) u]
    have k1: "keeps ready s s1" "gains (klog s1) (dm_res d m) (klog s)" by auto
    have r1: "ready s1" using k1(1) Cons.prems(1) by (simp add: keeps_def)
    have "rel_ok ready (dms_res dm_res ds dms') s1 (gpu_unmap_loop ops ds pt ms (j + 1) s1) \<and>
        same_maps s1 (gpu_unmap_loop ops ds pt ms (j + 1) s1)"
      by (rule Cons.IH [of s1 "pre @ [Some m]"]) (use r1 Cons.prems Cons in auto)
    then show ?thesis
      using rel_ok_trans [OF rel_ok_keeps [OF k1]] keeps_same_maps [OF k1(1)] j u Cons
      by (simp add: same_maps_def)
  qed
qed

lemma rel_ok_free: "a \<noteq> NULL \<Longrightarrow> rel_ok ready [RMem a] s (k_free a s) \<and> same_maps s (k_free a s)"
  using ready_same [of "k_free a s" s]
  by (simp add: rel_ok_def gains_def k_free_def map_frame_def same_maps_def emit_def)

lemma rel_ok_null: "maps s p = Some m \<Longrightarrow>
   rel_ok ready [] s (upd_map p (\<lambda>m. m\<lparr>m_data := DNull\<rparr>) s)"
  using ready_same [of "upd_map p (\<lambda>m. m\<lparr>m_data := DNull\<rparr>) s" s]
  by (simp add: rel_ok_def gains_def upd_map_def map_frame_def)

text \<open>The regular path of the GPU release: mappings, their array, and the pinned range.\<close>

lemma gpu_regular_ok:
  assumes "ready s" "gd_wf (length (pdevs s)) gd" "gd_phx gd = NULL"
  defines "s1 \<equiv> (if gd_map_ptr gd \<noteq> NULL
      then k_free (gd_map_ptr gd) (gpu_unmap_loop ops (pdevs s) (gd_pages gd) (gd_mappings gd) 0 s) else s)"
  shows "rel_ok ready (gd_res pt_res dm_res (pdevs s) gd) s
      (if gd_pages gd \<noteq> None then snd (op_put_pages ops va (gd_pages gd) s1) else s1) \<and>
    same_maps s (if gd_pages gd \<noteq> None then snd (op_put_pages ops va (gd_pages gd) s1) else s1)"
proof (cases "gd_map_ptr gd = NULL")
  case True
  then have "gd_mappings gd = []" "gd_pages gd = None" "s1 = s"
    using assms by (auto simp: gd_wf_def)
  then show ?thesis
    using True assms(3) by (simp add: gd_res_def mem_res_def map_filter_def rel_ok_def gains_def same_maps_def)
next
  case False
  then obtain dms where dms: "gd_mappings gd = map Some dms @ replicate (max_num_ctrls - length dms) None"
    and len: "length dms \<le> length (pdevs s)" "length (pdevs s) \<le> max_num_ctrls"
    using assms(2,3) by (auto simp: gd_wf_def)
  let ?u = "gpu_unmap_loop ops (pdevs s) (gd_pages gd) (gd_mappings gd) 0 s"
  have u: "rel_ok ready (dms_res dm_res (pdevs s) dms) s ?u \<and> same_maps s ?u"
    by (rule gpu_unmap_loop_ok [OF assms(1), where pre = "[]"]) (use dms len in auto)
  have s1: "rel_ok ready (dms_res dm_res (pdevs s) dms @ [RMem (gd_map_ptr gd)]) s s1 \<and> same_maps s s1"
    using u rel_ok_trans [of ready _ s ?u "[RMem (gd_map_ptr gd)]" s1] rel_ok_free [OF False, of ?u] False
    by (simp add: s1_def same_maps_def)
  have res: "gd_res pt_res dm_res (pdevs s) gd =
      (dms_res dm_res (pdevs s) dms @ [RMem (gd_map_ptr gd)]) @ opt_res pt_res (gd_pages gd)"
    using False assms(3) dms by (simp add: gd_res_def mem_res_def filter_mappings)
  show ?thesis
  proof (cases "gd_pages gd")
    case None
    then show ?thesis using s1 res by simp
  next
    case (Some t)
    obtain rc s2 where p: "op_put_pages ops va (Some t) s1 = (rc, s2)" by fastforce
    have "ready s1" using s1 assms(1) by (simp add: rel_ok_def)
    from put_pages_ok [OF this p] have k: "keeps ready s1 s2" "gains (klog s2) (pt_res t) (klog s1)" by auto
    have "rel_ok ready ((dms_res dm_res (pdevs s) dms @ [RMem (gd_map_ptr gd)]) @ pt_res t) s s2"
      using s1 rel_ok_keeps [OF k] rel_ok_trans by blast
    then show ?thesis
      using s1 keeps_same_maps [OF k(1)] res Some p by (simp add: same_maps_def)
  qed
qed

lemma release_user_ok:
  assumes "ready s" "maps s p = Some m" "m_data m = DPages a pages" "map_wf n dereg m"
  shows "rel_ok ready (data_res pt_res dm_res ds m) s (release_user_pages p s)"
proof -
  let ?dma = "map (RDma (m_pdev m)) (take (m_n_addrs m) (m_addrs m))"
  have "held (klog (release_user_pages p s)) r = held (klog s) r - cost (data_res pt_res dm_res ds m) r" for r
    using assms(3) by (simp add: user_pages_fields [OF assms(2-4)] held_rels data_res_def del: map_map rev_map)
  moreover have "clean (klog (release_user_pages p s)) = clean (klog s)"
    by (simp add: user_pages_fields [OF assms(2-4)] clean_events del: map_map)
  moreover have "ready (release_user_pages p s)"
    by (rule ready_same [OF _ assms(1)]) (simp add: user_pages_fields [OF assms(2-4)])
  ultimately show ?thesis
    by (simp add: rel_ok_def gains_def map_frame_def user_pages_fields [OF assms(2-4)])
qed

lemma release_gpu_ok:
  assumes "ready s" "maps s p = Some m" "m_data m = DGpu a gd"
    and "map_wf (length (pdevs s)) (phx_deregister_fn s) m"
  shows "rel_ok ready (data_res pt_res dm_res (pdevs s) m) s (release_gpu_memory ops p s) \<and>
    maps (release_gpu_memory ops p s) = (maps s)(p \<mapsto> m\<lparr>m_data := DNull\<rparr>) \<and>
    mlists (release_gpu_memory ops p s) = mlists s \<and> glinks (release_gpu_memory ops p s) = glinks s"
proof -
  have wf: "a \<noteq> NULL" "gd_wf (length (pdevs s)) gd" "gd_phx gd \<noteq> NULL \<longrightarrow> phx_deregister_fn s"
    using assms(3,4) by (auto simp: map_wf_def)
  have fin: "rel_ok ready (xs @ [RMem a]) s (upd_map p (\<lambda>m. m\<lparr>m_data := DNull\<rparr>) (k_free a s2)) \<and>
      maps (upd_map p (\<lambda>m. m\<lparr>m_data := DNull\<rparr>) (k_free a s2)) = (maps s)(p \<mapsto> m\<lparr>m_data := DNull\<rparr>) \<and>
      mlists (upd_map p (\<lambda>m. m\<lparr>m_data := DNull\<rparr>) (k_free a s2)) = mlists s \<and>
      glinks (upd_map p (\<lambda>m. m\<lparr>m_data := DNull\<rparr>) (k_free a s2)) = glinks s"
    if "rel_ok ready xs s s2" "same_maps s s2" for xs s2
  proof -
    have f: "rel_ok ready [RMem a] s2 (k_free a s2)" "same_maps s2 (k_free a s2)"
      using rel_ok_free [OF wf(1)] by auto
    then have "maps (k_free a s2) p = Some m" using that(2) assms(2) by (simp add: same_maps_def)
    from rel_ok_null [OF this] rel_ok_trans [OF that(1) f(1)] show ?thesis
      using that(2) f(2) assms(2) rel_ok_trans [of ready "xs @ [RMem a]" s "k_free a s2" "[]"]
      by (simp add: same_maps_def upd_map_def)
  qed
  show ?thesis
  proof (cases "gd_phx gd = NULL")
    case False
    let ?s1 = "emit (Rel (RPhx (gd_phx gd))) s"
    have "rel_ok ready [RPhx (gd_phx gd)] s ?s1" "same_maps s ?s1"
      using ready_same [of ?s1 s] by (simp_all add: rel_ok_def gains_def map_frame_def same_maps_def emit_def)
    from fin [OF this] show ?thesis
      using False wf(3) assms(2,3)
      by (simp add: release_gpu_memory_def Let_def data_res_def gd_res_def)
  next
    case True
    define s1 where "s1 = (if gd_map_ptr gd \<noteq> NULL
      then k_free (gd_map_ptr gd) (gpu_unmap_loop ops (pdevs s) (gd_pages gd) (gd_mappings gd) 0 s) else s)"
    define s2 where "s2 = (if gd_pages gd \<noteq> None then snd (op_put_pages ops (m_vaddr m) (gd_pages gd) s1) else s1)"
    have "rel_ok ready (gd_res pt_res dm_res (pdevs s) gd) s s2" "same_maps s s2"
      using gpu_regular_ok [OF assms(1) wf(2) True, of "m_vaddr m"] unfolding s2_def s1_def by blast+
    note f = fin [OF this]
    have "release_gpu_memory ops p s = upd_map p (\<lambda>m. m\<lparr>m_data := DNull\<rparr>) (k_free a s2)"
      using True assms(2,3) unfolding s2_def s1_def by (simp add: release_gpu_memory_def Let_def)
    with f show ?thesis using assms(3) by (simp add: data_res_def)
  qed
qed

lemma unlink_map_fields:
  "map_frame s (unlink_map p s)" "maps (unlink_map p s) = maps s" "klog (unlink_map p s) = klog s"
  "psyms (unlink_map p s) = psyms s" "pdevs (unlink_map p s) = pdevs s"
  "phx_deregister_fn (unlink_map p s) = phx_deregister_fn s"
  "mlists (unlink_map p s) = (\<lambda>r. remove1 p (mlists s r))"
  "glinks (unlink_map p s) = (\<lambda>h. remove1 p (glinks s h))"
  by (simp_all add: unlink_map_def map_frame_def pdevs_def)

lemma unmap_and_release_ok:
  assumes "ready s" "maps s p = Some m" "p \<noteq> NULL"
    and "map_wf (length (pdevs s)) (phx_deregister_fn s) m"
  shows "rel_ok ready (data_res pt_res dm_res (pdevs s) m @ [RMem p]) s (unmap_and_release ops p s) \<and>
    maps (unmap_and_release ops p s) = (maps s)(p := None) \<and>
    mlists (unmap_and_release ops p s) = (\<lambda>r. remove1 p (mlists s r)) \<and>
    glinks (unmap_and_release ops p s) = (\<lambda>h. remove1 p (glinks s h))"
proof -
  let ?s1 = "unlink_map p s"
  have r1: "ready ?s1" by (rule ready_same [OF _ assms(1)]) (simp add: unlink_map_fields)
  have u1: "rel_ok ready [] s ?s1" using r1 by (simp add: rel_ok_def gains_def unlink_map_fields)
  define s2 where "s2 = (if m_release m \<noteq> RelNone \<and> m_data m \<noteq> DNull then run_release ops (m_release m) p ?s1 else ?s1)"
  have s2: "rel_ok ready (data_res pt_res dm_res (pdevs s) m) ?s1 s2 \<and>
    (maps s2)(p := None) = (maps s)(p := None) \<and> mlists s2 = mlists ?s1 \<and> glinks s2 = glinks ?s1"
  proof (cases "m_data m")
    case DNull
    then show ?thesis
      by (simp add: s2_def data_res_def unlink_map_fields) (simp add: rel_ok_def gains_def)
  next
    case (DPages a pages)
    have "s2 = release_user_pages p ?s1"
      using DPages assms(4) by (simp add: s2_def run_release_def map_wf_def)
    then show ?thesis
      using release_user_ok [OF r1 _ DPages assms(4), of p "pdevs s"] user_pages_fields [OF _ DPages assms(4), of ?s1 p]
        assms(2) by (simp add: unlink_map_fields)
  next
    case (DGpu a gd)
    have "s2 = release_gpu_memory ops p ?s1"
      using DGpu assms(4) by (simp add: s2_def run_release_def map_wf_def)
    then show ?thesis
      using release_gpu_ok [OF r1 _ DGpu, of p] assms(2,4) by (simp add: unlink_map_fields)
  qed
  have eq: "unmap_and_release ops p s = k_free p (s2\<lparr>maps := (maps s2)(p := None)\<rparr>)"
    using assms(2) by (simp add: unmap_and_release_def s2_def Let_def)
  let ?s3 = "s2\<lparr>maps := (maps s2)(p := None)\<rparr>"
  have "rel_ok ready [] s2 ?s3"
    using ready_same [of ?s3 s2] by (simp add: rel_ok_def gains_def map_frame_def)
  then have "rel_ok ready ([] @ data_res pt_res dm_res (pdevs s) m @ [] @ [RMem p]) s (unmap_and_release ops p s)"
    unfolding eq using u1 s2 rel_ok_free [OF assms(3), of ?s3] rel_ok_trans by blast
  then show ?thesis
    using s2 rel_ok_free [OF assms(3), of ?s3] unfolding eq by (simp add: same_maps_def unlink_map_fields)
qed

abbreviation res_of :: "'b map_st_scheme \<Rightarrow> ptr \<Rightarrow> resource list" where
  "res_of \<equiv> map_res pt_res dm_res"

abbreviation held_total :: "'b map_st_scheme \<Rightarrow> resource \<Rightarrow> int" where
  "held_total \<equiv> total pt_res dm_res"

abbreviation inv :: "(resource \<Rightarrow> int) \<Rightarrow> 'b map_st_scheme \<Rightarrow> bool" where
  "inv \<equiv> map_inv ready pt_res dm_res"

lemma map_inv_held:
  assumes "inv base s" "maps s p \<noteq> None"
  shows "held (klog s) (RMem p) > 0"
proof -
  have "cost (res_of s p) (RMem p) \<le> held_total s (RMem p)"
    unfolding total_def by (rule member_le_sum) (use assms in \<open>auto simp: map_inv_def cost_nonneg\<close>)
  moreover have "cost (res_of s p) (RMem p) \<ge> 1"
    using assms(2) cost_nonneg [of "data_res pt_res dm_res (pdevs s) (the (maps s p))" "RMem p"]
    by (auto simp: map_res_def)
  moreover have "held (klog s) (RMem p) = base (RMem p) + held_total s (RMem p)" "0 \<le> base (RMem p)"
    using assms(1) by (auto simp: map_inv_def)
  ultimately show ?thesis by linarith
qed

lemma total_remove:
  assumes "finite (dom (maps s))" "maps s p = Some m" "maps s' = (maps s)(p := None)" "pdevs s' = pdevs s"
  shows "held_total s' r = held_total s r - cost (res_of s p) r"
proof -
  have "dom (maps s') = dom (maps s) - {p}" using assms(3) by auto
  moreover have "res_of s' q = res_of s q" if "q \<noteq> p" for q
    using that assms(3,4) by (simp add: map_res_def split: option.splits)
  ultimately have "held_total s' r = (\<Sum>q\<in>dom (maps s) - {p}. cost (res_of s q) r)"
    unfolding total_def by (auto intro!: sum.cong)
  then show ?thesis
    unfolding total_def using assms(1,2) by (simp add: sum.remove [of _ p] domI)
qed

lemma total_add:
  assumes "finite (dom (maps s))" "maps s p = None" "maps s' = (maps s)(p \<mapsto> m)" "pdevs s' = pdevs s"
  shows "held_total s' r = held_total s r + cost (data_res pt_res dm_res (pdevs s) m @ [RMem p]) r"
proof -
  have "held_total s r = held_total s' r - cost (res_of s' p) r"
    by (rule total_remove [where m = m]) (use assms in auto)
  then show ?thesis using assms(3,4) by (simp add: map_res_def)
qed

lemma unmap_inv:
  assumes inv: "inv base s" and m: "maps s p = Some m"
  shows "inv base (unmap_and_release ops p s)"
proof -
  let ?s = "unmap_and_release ops p s"
  have wf: "p \<noteq> NULL" "map_wf (length (pdevs s)) (phx_deregister_fn s) m" "ready s"
    using inv m by (auto simp: map_inv_def)
  note u = unmap_and_release_ok [OF wf(3) m wf(1,2)]
  have fr: "map_frame s ?s" using u by (simp add: rel_ok_def)
  then have pd: "pdevs ?s = pdevs s" by (rule map_frame_pdevs)
  have "held (klog ?s) r = held (klog s) r - cost (res_of s p) r" for r
    using u m by (simp add: rel_ok_def gains_def map_res_def)
  moreover have "held_total ?s r = held_total s r - cost (res_of s p) r" for r
    by (rule total_remove [where m = m]) (use u m pd inv in \<open>auto simp: map_inv_def\<close>)
  moreover have "lists_ok ?s" by (rule lists_ok_remove [of s]) (use u inv in \<open>auto simp: map_inv_def\<close>)
  ultimately show ?thesis
    using inv u fr pd by (auto simp: map_inv_def rel_ok_def map_frame_def split: if_splits)
qed

text \<open>Adding a mapping whose resources have just been acquired.\<close>

lemma add_inv:
  assumes inv: "inv base s" and none: "maps s p = None" "p \<noteq> NULL"
    and g: "gains (klog s) (data_res pt_res dm_res (pdevs s) m @ [RMem p]) (klog s')"
    and wf: "map_wf (length (pdevs s)) (phx_deregister_fn s) m"
    and s': "maps s' = (maps s)(p \<mapsto> m)" "map_frame s s'" "ready s'" "glinks s' = glinks s"
    and l: "mlists s' = mlists s \<or> (\<exists>r. mlists s' = (mlists s)(r := mlists s r @ [p]))"
  shows "inv base s'"
proof -
  have pd: "pdevs s' = pdevs s" using s'(2) by (rule map_frame_pdevs)
  have "held_total s' r = held_total s r + cost (data_res pt_res dm_res (pdevs s) m @ [RMem p]) r" for r
    by (rule total_add) (use inv none s'(1) pd in \<open>auto simp: map_inv_def\<close>)
  moreover have "lists_ok s'"
    by (rule lists_ok_add [of s p]) (use inv l s'(1,4) none(1) in \<open>auto simp: map_inv_def\<close>)
  ultimately show ?thesis
    using inv g wf none(2) s' pd by (auto simp: map_inv_def gains_def map_frame_def)
qed

lemma fresh_map:
  assumes "inv base s" "alloc_fresh env" "k_alloc env s = (p, s1)" "p \<noteq> NULL"
  shows "maps s p = None"
  using assms map_inv_held [OF assms(1), of p]
  by (auto simp: k_alloc_def alloc_fresh_def Let_def split: if_splits) force

end

section \<open>Host memory\<close>

text \<open>
  \<open>get_user_pages\<close> pins at least one page of a non-empty request or fails, never more than
  asked for, and fills in as many entries as it reports.
\<close>

definition gup_ok :: "'e kenv_scheme \<Rightarrow> bool" where
  "gup_ok env \<longleftrightarrow> (\<forall>l va n. case get_user_pages env l va n of (r, pages) \<Rightarrow>
     (1 \<le> n \<longrightarrow> r \<noteq> 0) \<and> (0 < r \<longrightarrow> nat r \<le> n \<and> length pages = nat r))"

lemma gup_okD:
  assumes "gup_ok env" "get_user_pages env l va n = (r, pages)"
  shows "1 \<le> n \<Longrightarrow> r \<noteq> 0" and "0 < r \<Longrightarrow> nat r \<le> n \<and> length pages = nat r"
  using assms(1) [unfolded gup_ok_def, rule_format, of n l va] assms(2) by simp_all

definition dma_ok :: "'e kenv_scheme \<Rightarrow> bool" where
  "dma_ok env \<longleftrightarrow> (\<forall>d a. dma_mapping_error env d a = 0)"

lemma dma_map_loop_ok:
  assumes "dma_map_loop env d pgs i addrs s = (err, addrs', s')" "i + length pgs \<le> length addrs" "dma_ok env"
  shows "err = 0 \<and> length addrs' = length addrs \<and> take i addrs' = take i addrs \<and>
    klog s' = rev (map Acq (map (RDma d) (take (length pgs) (drop i addrs')))) @ klog s \<and>
    s' = s\<lparr>klog := klog s'\<rparr>"
  using assms
proof (induction pgs arbitrary: i addrs s)
  case (Cons pg pgs)
  define a where "a = dma_map_page env (klog s) d pg"
  have "dma_map_loop env d pgs (i + 1) (addrs[i := a]) (emit (Acq (RDma d a)) s) = (err, addrs', s')"
    using Cons.prems by (simp add: Let_def a_def dma_ok_def)
  from Cons.IH [OF this] Cons.prems
  have ih: "err = 0" "length addrs' = length addrs" "take (i + 1) addrs' = take (i + 1) (addrs[i := a])"
    "klog s' = rev (map Acq (map (RDma d) (take (length pgs) (drop (i + 1) addrs')))) @ Acq (RDma d a) # klog s"
    "s' = s\<lparr>klog := klog s'\<rparr>"
    by (auto simp: emit_def)
  have i: "i < length addrs'" using ih(2) Cons.prems(2) by simp
  have ai: "addrs' ! i = a"
    using arg_cong [OF ih(3), where f = "\<lambda>xs. xs ! i"] i ih(2) by simp
  have "drop i addrs' = a # drop (i + 1) addrs'" using Cons_nth_drop_Suc [OF i] ai by simp
  moreover have "take i addrs' = take i addrs"
    using arg_cong [OF ih(3), where f = "take i"] by (simp add: min_def)
  ultimately show ?case using ih by simp
qed simp

context map_backend
begin

lemma total_cong: "maps s' = maps s \<Longrightarrow> pdevs s' = pdevs s \<Longrightarrow> held_total s' r = held_total s r"
  by (simp add: total_def map_res_def cong: option.case_cong)

lemma inv_log:
  assumes "inv base s" "maps s' = maps s" "mlists s' = mlists s" "glinks s' = glinks s"
    and "map_frame s s'" "ready s'" "\<And>r. held (klog s') r = held (klog s) r"
  shows "inv base s'"
  using assms total_cong [OF assms(2) map_frame_pdevs [OF assms(5)]] map_frame_pdevs [OF assms(5)]
  by (auto simp: map_inv_def map_frame_def lists_ok_def)

lemma inv_update:
  assumes i: "inv base s" and m: "maps s p = Some m"
    and s': "maps s' = (maps s)(p \<mapsto> m')" "mlists s' = mlists s" "map_frame s s'" "ready s'"
    and gl: "lists_ok s'"
    and wf: "map_wf (length (pdevs s)) (phx_deregister_fn s) m'"
    and h: "\<And>r. held (klog s') r = held (klog s) r + cost (data_res pt_res dm_res (pdevs s) m') r -
      cost (data_res pt_res dm_res (pdevs s) m) r"
  shows "inv base s'"
proof -
  let ?t = "s\<lparr>maps := (maps s)(p := None)\<rparr>"
  have pd: "pdevs s' = pdevs s" "pdevs ?t = pdevs s"
    using map_frame_pdevs [OF s'(3)] by (simp_all add: pdevs_def)
  have t: "held_total ?t r = held_total s r - cost (res_of s p) r" for r
    by (rule total_remove [where m = m]) (use i m pd in \<open>auto simp: map_inv_def\<close>)
  have "held_total s' r = held_total ?t r + cost (data_res pt_res dm_res (pdevs ?t) m' @ [RMem p]) r" for r
    by (rule total_add) (use i s'(1) pd in \<open>auto simp: map_inv_def\<close>)
  then have "held_total s' r = held_total s r + cost (data_res pt_res dm_res (pdevs s) m') r -
      cost (data_res pt_res dm_res (pdevs s) m) r" for r
    using t m pd by (simp add: map_res_def)
  then show ?thesis
    using i m s' wf h pd gl by (auto simp: map_inv_def map_frame_def)
qed

lemma fresh_unlisted:
  assumes "inv base s" "maps s p = None"
  shows "remove1 p (mlists s r) = mlists s r" "remove1 p (glinks s h) = glinks s h"
proof -
  have "p \<notin> set (mlists s r)" "p \<notin> set (glinks s h)"
    using assms by (auto simp: map_inv_def lists_ok_def fam_ok_def)
  then show "remove1 p (mlists s r) = mlists s r" "remove1 p (glinks s h) = glinks s h"
    by (simp_all add: remove1_idem)
qed

text \<open>A new descriptor with no data yet, and its removal.\<close>

definition new_map :: "'b map_st_scheme \<Rightarrow> ptr \<Rightarrow> map_desc \<Rightarrow> 'b map_st_scheme \<Rightarrow> bool" where
  "new_map s p m s' \<longleftrightarrow> p \<noteq> NULL \<and> maps s p = None \<and> maps s' = (maps s)(p \<mapsto> m) \<and>
     mlists s' = mlists s \<and> glinks s' = glinks s \<and> map_frame s s'"

lemma create_descriptor_ok:
  assumes i: "inv base s" and f: "alloc_fresh env"
    and c: "create_descriptor env cur pdev va n s = (Inr p, s1)"
  shows "inv base s1 \<and> clean (klog s1) = clean (klog s) \<and> new_map s p
    \<lparr>m_owner = cur, m_vaddr = va, m_pdev = pdev, m_page_size = 0, m_data = DNull, m_release = RelNone,
     m_group_id = 0, m_kind = 0, m_n_addrs = n, m_addrs = replicate n 0\<rparr> s1"
proof -
  from c obtain s0 where k: "k_alloc env s = (p, s0)" "p \<noteq> NULL"
    by (auto simp: create_descriptor_def split: prod.splits if_splits)
  have none: "maps s p = None" using fresh_map [OF i f k] .
  let ?m = "\<lparr>m_owner = cur, m_vaddr = va, m_pdev = pdev, m_page_size = 0, m_data = DNull, m_release = RelNone,
     m_group_id = 0, m_kind = 0, m_n_addrs = n, m_addrs = replicate n 0\<rparr>"
  have s1: "s1 = s\<lparr>klog := Acq (RMem p) # klog s, maps := (maps s)(p \<mapsto> ?m)\<rparr>"
    using c k by (auto simp: create_descriptor_def k_alloc_def Let_def emit_def split: if_splits)
  have nm: "new_map s p ?m s1" using k(2) none by (simp add: new_map_def s1 map_frame_def)
  have r: "ready s" using i by (simp add: map_inv_def)
  have "inv base s1"
    by (rule add_inv [OF i none k(2), where m = ?m])
      (use ready_same [OF _ r, of s1] in \<open>simp_all add: s1 gains_def data_res_def map_wf_def map_frame_def\<close>)
  moreover have "clean (klog s1) = clean (klog s)" by (simp add: s1)
  ultimately show ?thesis using nm by blast
qed

lemma drop_new_map:
  assumes i: "inv base s" and i2: "inv base s2" and nm: "new_map s p m s2"
  shows "inv base (unmap_and_release ops p s2) \<and> same_maps s (unmap_and_release ops p s2) \<and>
    map_frame s (unmap_and_release ops p s2) \<and> (clean (klog s2) \<longrightarrow> clean (klog (unmap_and_release ops p s2)))"
proof -
  have m: "maps s2 p = Some m" "p \<noteq> NULL" "maps s p = None" using nm by (auto simp: new_map_def)
  have wf: "ready s2" "map_wf (length (pdevs s2)) (phx_deregister_fn s2) m"
    using i2 m by (auto simp: map_inv_def)
  note u = unmap_and_release_ok [OF wf(1) m(1,2) wf(2)]
  have "(maps s)(p := None) = maps s" using m(3) by auto
  then have "same_maps s (unmap_and_release ops p s2)"
    using u nm fresh_unlisted [OF i m(3)] by (simp add: same_maps_def new_map_def)
  then show ?thesis
    using unmap_inv [OF i2 m(1)] u nm map_frame_trans by (auto simp: new_map_def rel_ok_def)
qed

end

context map_backend
begin

lemma map_user_pages_ok:
  assumes i: "inv base s" and m: "maps s p = Some m" "m_data m = DNull" "1 \<le> m_n_addrs m"
      "length (m_addrs m) = m_n_addrs m"
    and env: "gup_ok env" "dma_ok env" "\<forall>q. \<not> is_vmalloc env q"
    and r: "map_user_pages env p s = (err, s')"
  shows "inv base s' \<and> map_frame s s' \<and> mlists s' = mlists s \<and> glinks s' = glinks s \<and>
    (clean (klog s) \<longrightarrow> clean (klog s')) \<and>
    (if err = 0 then \<exists>a pages addrs. maps s' = (maps s)(p \<mapsto> m\<lparr>m_n_addrs := length pages,
        m_page_size := PAGE_SIZE, m_data := DPages a pages, m_release := RelUser, m_addrs := addrs\<rparr>) \<and>
        0 < length pages \<and> length pages \<le> m_n_addrs m
     else maps s' = maps s)"
proof -
  have rdy: "ready s" using i by (simp add: map_inv_def)
  consider "k_alloc env s = (NULL, emit (Note ''alloc failed'' 0) s)"
    | a where "a \<noteq> NULL" "k_alloc env s = (a, emit (Acq (RMem a)) s)"
    by (rule k_alloc_cases [of env s])
  then show ?thesis
  proof cases
    case 1
    with r m have s': "err = -ENOMEM" "s' = emit (Note ''alloc failed'' 0) s" by (auto simp: map_user_pages_def)
    have "inv base s'"
      by (rule inv_log [OF i]) (use ready_same [OF _ rdy, of s'] s' in \<open>simp_all add: emit_def map_frame_def\<close>)
    then show ?thesis using s' by (simp add: map_frame_def emit_def ENOMEM_def)
  next
    case (2 a)
    let ?s1 = "emit (Acq (RMem a)) s"
    obtain rv pages where g: "get_user_pages env (klog ?s1) (m_vaddr m) (m_n_addrs m) = (rv, pages)" by fastforce
    note gok = gup_okD(1) [OF env(1) g m(3)] gup_okD(2) [OF env(1) g]
    show ?thesis
    proof (cases "rv < 0")
      case True
      then have s': "err = rv" "s' = k_free a (emit (Note ''get_user_pages failed'' 0) ?s1)"
        using r m 2 g env(3) by (auto simp: map_user_pages_def k_free_kv_def)
      have "inv base s'"
        by (rule inv_log [OF i])
          (use ready_same [OF _ rdy, of s'] s' 2 in \<open>simp_all add: k_free_def emit_def map_frame_def\<close>)
      then show ?thesis using s' True 2 by (simp add: map_frame_def emit_def k_free_def)
    next
      case False
      then have len: "nat rv \<le> m_n_addrs m" "length pages = nat rv" "0 < rv" using gok by auto
      let ?s2 = "emit_all (map (\<lambda>pg. Acq (RPage pg)) pages) ?s1"
      obtain err' addrs s3 where d: "dma_map_loop env (m_pdev m) pages 0 (m_addrs m) ?s2 = (err', addrs, s3)"
        by (metis prod_cases3)
      have dl: "err' = 0" "length addrs = length (m_addrs m)"
        "klog s3 = rev (map Acq (map (RDma (m_pdev m)) (take (length pages) addrs))) @ klog ?s2"
        "s3 = ?s2\<lparr>klog := klog s3\<rparr>"
        using dma_map_loop_ok [OF d _ env(2)] len m(4) by auto
      let ?m = "m\<lparr>m_n_addrs := length pages, m_page_size := PAGE_SIZE, m_data := DPages a pages,
        m_release := RelUser, m_addrs := addrs\<rparr>"
      have s': "err = 0" "s' = s3\<lparr>maps := (maps s3)(p \<mapsto> ?m)\<rparr>"
        using r m 2 g False gok(1) d dl(1) len by (auto simp: map_user_pages_def)
      have fl: "maps s3 = maps s" "mlists s3 = mlists s" "glinks s3 = glinks s" "psyms s3 = psyms s"
          "map_frame s s3"
        by (subst dl(4), simp add: emit_all_eq emit_def map_frame_def)+
      have kl: "klog s3 = rev (map Acq (map (RDma (m_pdev m)) (take (length pages) addrs))) @
          rev (map Acq (map RPage pages)) @ Acq (RMem a) # klog s"
        using dl(3) by (simp add: emit_all_eq emit_def comp_def)
      have fr: "map_frame s s'" using fl(5) s'(2) by (simp add: map_frame_def)
      have "inv base s'"
      proof (rule inv_update [OF i m(1), where m' = ?m])
        show "maps s' = (maps s)(p \<mapsto> ?m)" "mlists s' = mlists s" "map_frame s s'"
          using s' fl fr by simp_all
        show "ready s'" by (rule ready_same [OF _ rdy]) (simp add: s' fl)
        show "lists_ok s'"
          using i m(1) fl s' by (simp add: map_inv_def lists_ok_def insert_absorb domI)
        show "map_wf (length (pdevs s)) (phx_deregister_fn s) ?m"
          using 2 len dl(2) m(4) by (simp add: map_wf_def)
        show "held (klog s') r = held (klog s) r + cost (data_res pt_res dm_res (pdevs s) ?m) r -
            cost (data_res pt_res dm_res (pdevs s) m) r" for r
          using m(2) by (simp add: s' kl held_acqs data_res_def del: map_map rev_map)
      qed
      moreover have "clean (klog s') = clean (klog s)" by (simp add: s' kl clean_events del: map_map)
      moreover have "0 < length pages" "length pages \<le> m_n_addrs m" using len by simp_all
      ultimately show ?thesis using fr fl(1-3) s' by (simp del: length_greater_0_conv) blast
    qed
  qed
qed

end

section \<open>The common frame of the mapping calls\<close>

text \<open>
  The three mapping calls differ in the alignment, the page size, the registry and the
  function that fills in the descriptor.
\<close>

definition map_common ::
  "'e kenv_scheme \<Rightarrow> 'a map_st_scheme peer_memory_ops \<Rightarrow> u64 \<Rightarrow> u64 \<Rightarrow> map_reg \<Rightarrow>
   (ptr \<Rightarrow> 'a map_st_scheme \<Rightarrow> int \<times> 'a map_st_scheme) \<Rightarrow> task \<Rightarrow> pdev \<Rightarrow> u64 \<Rightarrow> nat \<Rightarrow>
   'a map_st_scheme \<Rightarrow> (int + ptr) \<times> 'a map_st_scheme" where
  "map_common env ops msk psz reg fill cur pdev vaddr n s =
     (if n < 1 then (Inl (-EINVAL), s)
      else case create_descriptor env cur pdev (and vaddr msk) n s of
        (Inl e, s1) \<Rightarrow> (Inl e, s1)
      | (Inr md, s1) \<Rightarrow>
          (case fill md (upd_map md (\<lambda>m. m\<lparr>m_page_size := psz\<rparr>) s1) of (err, s2) \<Rightarrow>
           if err \<noteq> 0 then (Inl err, unmap_and_release ops md s2)
           else (Inr md, list_insert_map reg md s2)))"

lemma map_common_instances:
  "map_userspace env ops = map_common env ops PAGE_MASK PAGE_SIZE Host (map_user_pages env)"
  "map_device_memory menv ops = map_common menv ops GPU_PAGE_MASK GPU_PAGE_SIZE Device (map_gpu_memory menv ops)"
  by (simp_all add: fun_eq_iff map_common_def map_userspace_def map_device_memory_def)

definition same_ident :: "map_desc \<Rightarrow> map_desc \<Rightarrow> bool" where
  "same_ident m m' \<longleftrightarrow> m_owner m' = m_owner m \<and> m_vaddr m' = m_vaddr m \<and> m_pdev m' = m_pdev m \<and>
     m_group_id m' = m_group_id m \<and> m_kind m' = m_kind m"

lemma fam_ok_link:
  "fam_ok f D \<Longrightarrow> p \<in> D \<Longrightarrow> \<forall>i. p \<notin> set (f i) \<Longrightarrow> fam_ok (f(r := f r @ [p])) D"
  by (simp add: fam_ok_def) blast

text \<open>
  The code copies as many bus addresses as pages were asked for. What it relies on: a DMA
  mapping of a range pinned for \<open>n\<close> pages lists at least \<open>n\<close> addresses, and the Phoenix service
  reports at most as many addresses as pages asked for.
\<close>

definition addrs_for :: "'a map_st_scheme peer_memory_ops \<Rightarrow> peer_page_table option \<Rightarrow> u32 \<Rightarrow> nat \<Rightarrow> bool" where
  "addrs_for ops pt psz n \<longleftrightarrow> (\<forall>d t dm t'. op_dma_map_pages ops d pt psz t = (0, Some dm, t') \<longrightarrow>
     n \<le> length (op_dm_addresses ops (Some dm) t'))"

definition addrs_safe :: "'a map_st_scheme peer_memory_ops \<Rightarrow> nat \<Rightarrow> bool" where
  "addrs_safe ops n \<longleftrightarrow> (\<forall>va t pt t'. op_get_pages ops va (GPU_PAGE_SIZE * of_nat n) t = (0, pt, t') \<longrightarrow>
     addrs_for ops pt (ucast GPU_PAGE_SIZE) n)"

definition phx_safe :: "'e map_env_scheme \<Rightarrow> nat \<Rightarrow> bool" where
  "phx_safe env n \<longleftrightarrow> (\<forall>l va. case phx_register env l va (GPU_PAGE_SIZE * of_nat n) of (e, h, io) \<Rightarrow> length io \<le> n)"

context map_backend
begin

text \<open>What the function that fills in a descriptor must satisfy.\<close>

definition fills :: "(ptr \<Rightarrow> 'b map_st_scheme \<Rightarrow> int \<times> 'b map_st_scheme) \<Rightarrow> (resource \<Rightarrow> int) \<Rightarrow> bool \<Rightarrow>
    u64 \<Rightarrow> nat \<Rightarrow> nat \<Rightarrow> bool" where
  "fills fill base safe psz n nc \<longleftrightarrow>
     (\<forall>p m s err s'. inv base s \<and> maps s p = Some m \<and> m_data m = DNull \<and> m_n_addrs m = n \<and>
        length (m_addrs m) = n \<and> m_page_size m = psz \<and> length (pdevs s) \<le> nc \<and> fill p s = (err, s') \<longrightarrow>
        inv base s' \<and> map_frame s s' \<and> mlists s' = mlists s \<and> glinks s' = glinks s \<and>
        (safe \<and> clean (klog s) \<longrightarrow> clean (klog s')) \<and>
        (\<exists>m'. maps s' = (maps s)(p \<mapsto> m') \<and> same_ident m m' \<and>
           (err = 0 \<longrightarrow> m_data m' \<noteq> DNull \<and> m_page_size m' = psz)))"

lemma link_inv:
  assumes i: "inv base s" and i2: "inv base s2" and nm: "new_map s p m s2"
  shows "inv base (list_insert_map r p s2)"
proof -
  have l: "p \<notin> set (mlists s2 x)" for x
    using i nm by (auto simp: new_map_def map_inv_def lists_ok_def fam_ok_def)
  have p: "p \<in> dom (maps s2)" using nm by (auto simp: new_map_def)
  have "lists_ok (list_insert_map r p s2)"
    using i2 l p by (simp add: map_inv_def lists_ok_def list_insert_map_def fam_ok_link)
  moreover have "ready (list_insert_map r p s2)"
    by (rule ready_same [of _ s2]) (use i2 in \<open>simp_all add: map_inv_def list_insert_map_def\<close>)
  moreover have "held_total (list_insert_map r p s2) x = held_total s2 x" for x
    by (rule total_cong) (simp_all add: list_insert_map_def pdevs_def)
  ultimately show ?thesis
    using i2 by (simp add: map_inv_def list_insert_map_def pdevs_def)
qed

lemma map_common_ok:
  assumes i: "inv base s" and env: "alloc_fresh env" and f: "1 \<le> n \<Longrightarrow> fills fill base safe psz n nc"
    and nc: "length (pdevs s) \<le> nc"
    and r: "map_common env ops msk psz reg fill cur pdev va n s = (r, s')"
  shows "inv base s' \<and> map_frame s s' \<and> (safe \<and> clean (klog s) \<longrightarrow> clean (klog s')) \<and>
    (case r of Inl e \<Rightarrow> e \<noteq> 0 \<and> same_maps s s'
     | Inr p \<Rightarrow> p \<noteq> NULL \<and> maps s p = None \<and> glinks s' = glinks s \<and>
         mlists s' = (mlists s)(reg := mlists s reg @ [p]) \<and>
         (\<exists>m. maps s' = (maps s)(p \<mapsto> m) \<and> m_owner m = cur \<and> m_vaddr m = and va msk \<and>
           m_pdev m = pdev \<and> m_page_size m = psz \<and> m_group_id m = 0 \<and> m_kind m = 0 \<and> m_data m \<noteq> DNull))"
proof (cases "n < 1")
  case True
  then show ?thesis using r i by (auto simp: map_common_def same_maps_def EINVAL_def)
next
  case False
  obtain q s1 where c: "create_descriptor env cur pdev (and va msk) n s = (q, s1)" by fastforce
  show ?thesis
  proof (cases q)
    case (Inl e)
    with c r False have e: "r = Inl (-ENOMEM)" "s' = emit (Note ''alloc failed'' 0) s"
      by (auto simp: map_common_def create_descriptor_def k_alloc_def Let_def split: if_splits prod.splits)
    have "ready s'" by (rule ready_same [of _ s]) (use i e in \<open>simp_all add: map_inv_def emit_def\<close>)
    then have "inv base s'" by (intro inv_log [OF i]) (simp_all add: e emit_def map_frame_def)
    then show ?thesis using e by (simp add: emit_def map_frame_def same_maps_def ENOMEM_def)
  next
    case (Inr p)
    let ?m0 = "\<lparr>m_owner = cur, m_vaddr = and va msk, m_pdev = pdev, m_page_size = 0, m_data = DNull,
      m_release = RelNone, m_group_id = 0, m_kind = 0, m_n_addrs = n, m_addrs = replicate n 0\<rparr>"
    have c1: "inv base s1" "new_map s p ?m0 s1" "clean (klog s1) = clean (klog s)"
      using create_descriptor_ok [OF i env] c Inr by blast+
    let ?m1 = "?m0\<lparr>m_page_size := psz\<rparr>" and ?s1 = "upd_map p (\<lambda>m. m\<lparr>m_page_size := psz\<rparr>) s1"
    have m1: "maps s1 p = Some ?m0" using c1(2) by (simp add: new_map_def)
    have s1': "?s1 = s1\<lparr>maps := (maps s1)(p \<mapsto> ?m1)\<rparr>" using m1 by (simp add: upd_map_def)
    have nm: "new_map s p ?m1 ?s1" using c1(2) by (simp add: s1' new_map_def map_frame_def)
    have i1: "inv base ?s1"
      by (rule inv_update [OF c1(1) m1, where m' = ?m1])
        (use c1(1) m1 ready_same [of ?s1 s1] in \<open>simp_all add: s1' data_res_def map_wf_def map_inv_def
           map_frame_def lists_ok_def insert_absorb domI\<close>)
    obtain err s2 where u: "fill p ?s1 = (err, s2)" by fastforce
    have nc1: "length (pdevs ?s1) \<le> nc" using nm nc map_frame_pdevs [of s ?s1] by (simp add: new_map_def)
    obtain m' where uok: "inv base s2" "map_frame ?s1 s2" "mlists s2 = mlists ?s1" "glinks s2 = glinks ?s1"
      "safe \<and> clean (klog ?s1) \<longrightarrow> clean (klog s2)" "maps s2 = (maps ?s1)(p \<mapsto> m')" "same_ident ?m1 m'"
      "err = 0 \<longrightarrow> m_data m' \<noteq> DNull \<and> m_page_size m' = psz"
      using f [unfolded fills_def, rule_format, of ?s1 p ?m1 err s2] i1 nm u nc1 False
      by (auto simp: new_map_def)
    have nm2: "new_map s p m' s2"
      using uok nm map_frame_trans by (auto simp: new_map_def)
    have cl: "safe \<and> clean (klog s) \<longrightarrow> clean (klog s2)" using uok(5) c1(3) by (simp add: s1')
    have res: "(r, s') = (if err \<noteq> 0 then (Inl err, unmap_and_release ops p s2) else (Inr p, list_insert_map reg p s2))"
      using r False c Inr u by (simp add: map_common_def split: if_splits)
    show ?thesis
    proof (cases "err = 0")
      case False
      then show ?thesis using drop_new_map [OF i uok(1) nm2] cl res by simp
    next
      case True
      then show ?thesis
        using link_inv [OF i uok(1) nm2, of reg] res nm2 uok(7,8) cl
        by (auto simp: new_map_def list_insert_map_def map_frame_def same_ident_def)
    qed
  qed
qed

lemma fills_user:
  assumes "gup_ok env" "dma_ok env" "\<forall>q. \<not> is_vmalloc env q" "1 \<le> n"
  shows "fills (map_user_pages env) base True PAGE_SIZE n nc"
  unfolding fills_def
proof (intro allI impI, elim conjE)
  fix p m s err s'
  assume a: "inv base s" "maps s p = Some m" "m_data m = DNull" "m_n_addrs m = n" "length (m_addrs m) = n"
    "map_user_pages env p s = (err, s')"
  have "maps s = (maps s)(p \<mapsto> m)" using a(2) by auto
  with map_user_pages_ok [OF a(1-3) _ _ assms(1-3) a(6)] a(4,5) assms(4)
  show "inv base s' \<and> map_frame s s' \<and> mlists s' = mlists s \<and> glinks s' = glinks s \<and>
      (True \<and> clean (klog s) \<longrightarrow> clean (klog s')) \<and>
      (\<exists>m'. maps s' = (maps s)(p \<mapsto> m') \<and> same_ident m m' \<and>
         (err = 0 \<longrightarrow> m_data m' \<noteq> DNull \<and> m_page_size m' = PAGE_SIZE))"
    by (cases "err = 0") (auto simp: same_ident_def)
qed

text \<open>GPU memory: one DMA mapping per controller.\<close>

lemma gpu_map_loop_ok:
  assumes "ready s" "ms = map Some pre @ replicate k None" "length pre = j" "length ds \<le> k"
    and "gpu_map_loop ops ds pt psz ms j n addrs s = (err, ms', addrs', s')"
  shows "\<exists>dms. ms' = map Some (pre @ dms) @ replicate (k - length dms) None \<and> length dms \<le> length ds \<and>
    ready s' \<and> map_frame s s' \<and> same_maps s s' \<and> gains (klog s) (dms_res dm_res ds dms) (klog s') \<and>
    (addrs_for ops pt psz n \<and> clean (klog s) \<longrightarrow> clean (klog s'))"
  using assms
proof (induction ds arbitrary: s ms pre k j addrs)
  case Nil
  then show ?case by (intro exI [of _ "[]"]) (auto simp: same_maps_def)
next
  case (Cons d ds)
  obtain err1 dm s1 where d: "op_dma_map_pages ops d pt psz s = (err1, dm, s1)" by (metis prod_cases3)
  have ok: "keeps ready s s1" "dm = None \<longleftrightarrow> err1 \<noteq> 0" "gains (klog s) (opt_res (dm_res d) dm) (klog s1)"
    using dma_map_ok [OF Cons.prems(1) d] by auto
  have f1: "ready s1" "map_frame s s1" "same_maps s s1" "clean (klog s) \<longrightarrow> clean (klog s1)"
    using ok(1) Cons.prems(1) keeps_same_maps [OF ok(1)] keeps_map_fields(1) [of s1 s]
    by (auto simp: keeps_def)
  show ?case
  proof (cases "err1 = 0")
    case False
    then have "ms' = ms" "s' = s1" using Cons.prems(5) d by auto
    then show ?thesis
      using False ok f1 Cons.prems(2) by (intro exI [of _ "[]"]) auto
  next
    case True
    then obtain x where x: "dm = Some x" using ok(2) by auto
    obtain addrs2 s3 where c: "(if j = 0 then copy_addrs n (op_dm_addresses ops dm s1) s1 else (addrs, s1)) = (addrs2, s3)"
      by fastforce
    have s3: "s3 = s1 \<or> s3 = emit Undef s1 \<and> \<not> n \<le> length (op_dm_addresses ops dm s1)"
      using c by (auto simp: copy_addrs_def split: if_splits)
    have f3: "ready s3" "map_frame s s3" "same_maps s s3" "\<And>r. held (klog s3) r = held (klog s1) r"
      using s3 f1 ready_same [of s3 s1] by (auto simp: emit_def map_frame_def same_maps_def)
    obtain k' where k': "k = Suc k'" using Cons.prems(4) by (cases k) auto
    then have "ms = map Some pre @ None # replicate k' None" using Cons.prems(2) by simp
    then have ms2: "ms[j := dm] = map Some (pre @ [x]) @ replicate (k - 1) None" and lt: "j < length ms"
      using x k' by (simp_all add: Cons.prems(3) [symmetric] list_update_append)
    have len: "length (pre @ [x]) = j + 1" "length ds \<le> k - 1" using Cons.prems(3,4) by auto
    have rec: "gpu_map_loop ops ds pt psz (ms[j := dm]) (j + 1) n addrs2 s3 = (err, ms', addrs', s')"
      using Cons.prems(5) d True lt c by (simp add: Let_def)
    obtain dms where dms: "ms' = map Some ((pre @ [x]) @ dms) @ replicate (k - 1 - length dms) None"
      "length dms \<le> length ds" "ready s'" "map_frame s3 s'" "same_maps s3 s'"
      "gains (klog s3) (dms_res dm_res ds dms) (klog s')"
      "addrs_for ops pt psz n \<and> clean (klog s3) \<longrightarrow> clean (klog s')"
      using Cons.IH [OF f3(1) ms2 len rec] by blast
    have "gains (klog s) (dms_res dm_res (d # ds) (x # dms)) (klog s')"
      using ok(3) f3(4) dms(6) x by (simp add: gains_def)
    moreover have "map_frame s s'" using map_frame_trans [OF f3(2) dms(4)] .
    moreover have "same_maps s s'" using f3(3) dms(5) by (simp add: same_maps_def)
    moreover have "addrs_for ops pt psz n \<and> clean (klog s) \<longrightarrow> clean (klog s')"
      using dms(7) s3 f1(4) x d True unfolding addrs_for_def by blast
    ultimately show ?thesis
      using dms(1-3) k' by (intro exI [of _ "x # dms"]) simp
  qed
qed

lemma inv_set:
  assumes i: "inv base s" and m: "maps s p = Some m"
    and s1: "same_maps s s1" "map_frame s s1" "ready s1" "gains (klog s) xs (klog s1)"
    and wf: "map_wf (length (pdevs s)) (phx_deregister_fn s) m'"
    and c: "\<And>r. cost (data_res pt_res dm_res (pdevs s) m') r = cost (data_res pt_res dm_res (pdevs s) m) r + cost xs r"
  shows "inv base (s1\<lparr>maps := (maps s1)(p \<mapsto> m')\<rparr>)"
proof (rule inv_update [OF i m, where m' = m'])
  let ?s = "s1\<lparr>maps := (maps s1)(p \<mapsto> m')\<rparr>"
  show "maps ?s = (maps s)(p \<mapsto> m')" "mlists ?s = mlists s" using s1(1) by (simp_all add: same_maps_def)
  show "map_frame s ?s" using s1(2) by (simp add: map_frame_def)
  show "ready ?s" by (rule ready_same [OF _ s1(3)]) simp
  show "lists_ok ?s"
    using i m s1(1) by (simp add: map_inv_def lists_ok_def same_maps_def insert_absorb domI)
  show "held (klog ?s) r = held (klog s) r + cost (data_res pt_res dm_res (pdevs s) m') r -
      cost (data_res pt_res dm_res (pdevs s) m) r" for r
    using s1(4) c [of r] by (simp add: gains_def)
qed (rule wf)

lemma map_gpu_pin_ok:
  assumes i: "inv base s" and m: "maps s p = Some m"
    and gd: "m_data m = DGpu a gd" "gd_pages gd = None" "gd_phx gd = NULL" "gd_map_ptr gd \<noteq> NULL"
      "gd_mappings gd = replicate max_num_ctrls None"
    and rel: "m_release m = RelGpu" "a \<noteq> NULL" and nc: "length (pdevs s) \<le> max_num_ctrls"
    and g: "op_get_pages ops va len s = (0, pt, s5)"
    and l: "gpu_map_loop ops (pdevs s5) pt psz (gd_mappings gd) 0 n addrs s5 = (err, ms, addrs', s6)"
  defines "s7 \<equiv> upd_map p (\<lambda>m. m\<lparr>m_addrs := addrs'\<rparr>) (set_gd p a (gd\<lparr>gd_pages := pt, gd_mappings := ms\<rparr>) s6)"
  shows "inv base s7 \<and> map_frame s s7 \<and> mlists s7 = mlists s \<and> glinks s7 = glinks s \<and> pt \<noteq> None \<and>
    maps s7 = (maps s)(p \<mapsto> m\<lparr>m_data := DGpu a (gd\<lparr>gd_pages := pt, gd_mappings := ms\<rparr>), m_addrs := addrs'\<rparr>) \<and>
    (addrs_for ops pt psz n \<and> clean (klog s) \<longrightarrow> clean (klog s7))"
proof -
  have rdy: "ready s" using i by (simp add: map_inv_def)
  obtain t where t: "pt = Some t" and k5: "keeps ready s s5" "gains (klog s) (pt_res t) (klog s5)"
    using get_pages_ok [OF rdy g] by auto
  have f5: "ready s5" "map_frame s s5" "same_maps s s5" "pdevs s5 = pdevs s"
    using k5(1) rdy keeps_same_maps [OF k5(1)] keeps_map_fields(1) [of s5 s] map_frame_pdevs
    by (auto simp: keeps_def)
  obtain dms where d: "ms = map Some dms @ replicate (max_num_ctrls - length dms) None"
    "length dms \<le> length (pdevs s)" "ready s6" "map_frame s5 s6" "same_maps s5 s6"
    "gains (klog s5) (dms_res dm_res (pdevs s) dms) (klog s6)"
    "addrs_for ops pt psz n \<and> clean (klog s5) \<longrightarrow> clean (klog s6)"
    using gpu_map_loop_ok [OF f5(1) _ _ _ l, of "[]" max_num_ctrls] nc f5(4) gd(5)
    by fastforce
  let ?m7 = "m\<lparr>m_data := DGpu a (gd\<lparr>gd_pages := pt, gd_mappings := ms\<rparr>), m_addrs := addrs'\<rparr>"
  have "same_maps s s6" using d(5) f5(3) by (simp add: same_maps_def)
  note f6 = this map_frame_trans [OF f5(2) d(4)] gains_trans [OF k5(2) d(6)]
  have s7: "s7 = s6\<lparr>maps := (maps s6)(p \<mapsto> ?m7)\<rparr>"
    using f6(1) m by (simp add: s7_def set_gd_def upd_map_def same_maps_def)
  have "inv base s7" unfolding s7
  proof (rule inv_set [OF i m f6(1,2) d(3) f6(3)])
    show "map_wf (length (pdevs s)) (phx_deregister_fn s) ?m7"
      using rel gd(3,4) nc d(1,2) by (auto simp: map_wf_def gd_wf_def)
    show "cost (data_res pt_res dm_res (pdevs s) ?m7) r =
        cost (data_res pt_res dm_res (pdevs s) m) r + cost (pt_res t @ dms_res dm_res (pdevs s) dms) r" for r
      using gd t d(1) by (simp add: data_res_def gd_res_def filter_mappings map_filter_def)
  qed
  then show ?thesis
    using f6 s7 t d(7) k5(1) by (auto simp: same_maps_def map_frame_def keeps_def)
qed

lemma finish_gpu_ok:
  assumes i: "inv base s" and m: "maps s p = Some m" "m_data m = DGpu a gd" "pt \<noteq> None"
    and f: "finish_gpu ops p pt s = (err, s')"
  shows "err = 0 \<and> inv base s' \<and> map_frame s s' \<and> mlists s' = mlists s \<and> glinks s' = glinks s \<and>
    klog s' = klog s \<and> (\<exists>k. maps s' = (maps s)(p \<mapsto> m\<lparr>m_n_addrs := k\<rparr>))"
proof -
  obtain k where "op_pt_entries ops pt s = Some k" using m(3) pt_entries_ok by (metis option.exhaust)
  then have s': "err = 0" "s' = s\<lparr>maps := (maps s)(p \<mapsto> m\<lparr>m_n_addrs := unat k\<rparr>)\<rparr>"
    using f m(1) by (auto simp: finish_gpu_def upd_map_def)
  have "map_wf (length (pdevs s)) (phx_deregister_fn s) m" "ready s" using i m(1) by (auto simp: map_inv_def)
  then have "inv base s'" unfolding s'
    by (intro inv_set [OF i m(1), where xs = "[]"])
      (use m(2) in \<open>simp_all add: same_maps_def map_wf_def data_res_def\<close>)
  with s' show ?thesis by (auto simp: map_frame_def)
qed

lemma map_gpu_peer_ok:
  assumes i: "inv base s" and m: "maps s p = Some m" "m_data m = DGpu a gd_null" "m_release m = RelGpu" "a \<noteq> NULL"
    and nc: "length (pdevs s) \<le> max_num_ctrls"
    and r: "map_gpu_peer env ops p m a gd_null s = (err, s')"
  shows "inv base s' \<and> map_frame s s' \<and> mlists s' = mlists s \<and> glinks s' = glinks s \<and>
    (addrs_safe ops (m_n_addrs m) \<and> clean (klog s) \<longrightarrow> clean (klog s')) \<and>
    (\<exists>m'. maps s' = (maps s)(p \<mapsto> m') \<and> same_ident m m' \<and> m_data m' \<noteq> DNull \<and> m_page_size m' = m_page_size m)"
proof -
  have rdy: "ready s" using i by (simp add: map_inv_def)
  have mm: "maps s = (maps s)(p \<mapsto> m)" using m(1) by auto
  consider "k_alloc env s = (NULL, emit (Note ''alloc failed'' 0) s)"
    | b where "b \<noteq> NULL" "k_alloc env s = (b, emit (Acq (RMem b)) s)"
    by (rule k_alloc_cases [of env s])
  then show ?thesis
  proof cases
    case 1
    then have s': "s' = emit (Note ''alloc failed'' 0) s" using r by (simp add: map_gpu_peer_def)
    have "inv base s'"
      by (rule inv_log [OF i]) (use ready_same [OF _ rdy, of s'] s' in \<open>simp_all add: emit_def map_frame_def\<close>)
    then show ?thesis using s' mm m(2) by (auto simp: emit_def map_frame_def same_ident_def)
  next
    case (2 b)
    define gd1 where "gd1 = gd_null\<lparr>gd_map_ptr := b, gd_mappings := replicate max_num_ctrls None\<rparr>"
    define m4 where "m4 = m\<lparr>m_data := DGpu a gd1\<rparr>"
    let ?s3 = "emit (Acq (RMem b)) s"
    let ?s4 = "?s3\<lparr>maps := (maps ?s3)(p \<mapsto> m4)\<rparr>"
    have s4: "set_gd p a gd1 ?s3 = ?s4" using m(1) by (simp add: set_gd_def upd_map_def m4_def emit_def)
    have f3: "same_maps s ?s3" "map_frame s ?s3" "ready ?s3" "gains (klog s) [RMem b] (klog ?s3)"
      using ready_same [OF _ rdy, of ?s3] by (simp_all add: same_maps_def map_frame_def emit_def gains_def)
    have i4: "inv base ?s4"
    proof (rule inv_set [OF i m(1) f3])
      show "map_wf (length (pdevs s)) (phx_deregister_fn s) m4"
        using m(3,4) 2(1) nc
        by (auto simp: m4_def gd1_def map_wf_def gd_wf_def gd_null_def intro!: exI [of _ "[]"])
    qed (use m(2) 2(1) in \<open>simp add: m4_def gd1_def data_res_def gd_res_def gd_null_def map_filter_def mem_res_def\<close>)
    have fr4: "map_frame s ?s4" "pdevs ?s4 = pdevs s" "maps ?s4 p = Some m4"
      using f3 by (simp_all add: map_frame_def pdevs_def)
    have gd: "m_data m4 = DGpu a gd1" "gd_pages gd1 = None" "gd_phx gd1 = NULL" "gd_map_ptr gd1 \<noteq> NULL"
        "gd_mappings gd1 = replicate max_num_ctrls None" "m_release m4 = RelGpu" "length (pdevs ?s4) \<le> max_num_ctrls"
      using m 2(1) nc fr4(2) by (simp_all add: m4_def gd1_def gd_null_def)
    obtain e5 pt s5 where g: "op_get_pages ops (m_vaddr m) (GPU_PAGE_SIZE * of_nat (m_n_addrs m)) ?s4 = (e5, pt, s5)"
      by (metis prod_cases3)
    show ?thesis
    proof (cases "e5 = 0")
      case False
      then have s': "s' = s5" using r 2 g s4 by (simp add: map_gpu_peer_def gd1_def [symmetric])
      have k: "keeps ready ?s4 s5" "gains (klog ?s4) [] (klog s5)"
        using get_pages_ok [OF _ g] i4 False by (auto simp: map_inv_def)
      have f5: "same_maps ?s4 s5" "map_frame ?s4 s5" "ready s5" "clean (klog ?s4) \<longrightarrow> clean (klog s5)"
        using k(1) keeps_same_maps [OF k(1)] keeps_map_fields(1) [of s5 ?s4] i4 by (auto simp: keeps_def map_inv_def)
      have "inv base s5"
        by (rule inv_log [OF i4]) (use f5 k(2) in \<open>simp_all add: same_maps_def gains_def\<close>)
      then show ?thesis
        using s' f5 map_frame_trans [OF fr4(1) f5(2)]
        by (auto simp: same_maps_def emit_def m4_def same_ident_def)
    next
      case True
      obtain e6 ms addrs s6 where l: "gpu_map_loop ops (pdevs s5) pt (ucast GPU_PAGE_SIZE) (gd_mappings gd1) 0
          (m_n_addrs m) (m_addrs m) s5 = (e6, ms, addrs, s6)" by (metis prod_cases4)
      define s7 where "s7 = upd_map p (\<lambda>m. m\<lparr>m_addrs := addrs\<rparr>) (set_gd p a (gd1\<lparr>gd_pages := pt, gd_mappings := ms\<rparr>) s6)"
      have "inv base s7 \<and> map_frame ?s4 s7 \<and> mlists s7 = mlists ?s4 \<and> glinks s7 = glinks ?s4 \<and> pt \<noteq> None \<and>
        maps s7 = (maps ?s4)(p \<mapsto> m4\<lparr>m_data := DGpu a (gd1\<lparr>gd_pages := pt, gd_mappings := ms\<rparr>), m_addrs := addrs\<rparr>) \<and>
        (addrs_for ops pt (ucast GPU_PAGE_SIZE) (m_n_addrs m) \<and> clean (klog ?s4) \<longrightarrow> clean (klog s7))"
        unfolding s7_def
        by (rule map_gpu_pin_ok [OF i4 fr4(3) gd(1-6) m(4) gd(7) _ l]) (use g True in simp)
      note s7 = this [THEN conjunct1] this [THEN conjunct2]
      have af: "addrs_for ops pt (ucast GPU_PAGE_SIZE) (m_n_addrs m)" if "addrs_safe ops (m_n_addrs m)"
        using that g True unfolding addrs_safe_def by blast
      have s': "(if e6 \<noteq> 0 then (e6, s7) else finish_gpu ops p pt s7) = (err, s')"
        using r 2 g s4 True l by (simp add: map_gpu_peer_def gd1_def [symmetric] s7_def Let_def split: if_splits)
      define m7 where "m7 = m4\<lparr>m_data := DGpu a (gd1\<lparr>gd_pages := pt, gd_mappings := ms\<rparr>), m_addrs := addrs\<rparr>"
      have m7: "maps s7 = (maps ?s4)(p \<mapsto> m7)" using s7(2) by (simp add: m7_def)
      obtain k where all: "inv base s'" "map_frame s7 s'" "mlists s' = mlists s7" "glinks s' = glinks s7"
          "klog s' = klog s7" "maps s' = (maps s7)(p \<mapsto> m7\<lparr>m_n_addrs := k\<rparr>)"
      proof (cases "e6 = 0")
        case False
        then have "s' = s7" using s' by simp
        then show thesis using that [of "m_n_addrs m7"] s7(1) m7 by simp
      next
        case True
        then have fin: "finish_gpu ops p pt s7 = (err, s')" using s' by simp
        have "maps s7 p = Some m7" "m_data m7 = DGpu a (gd1\<lparr>gd_pages := pt, gd_mappings := ms\<rparr>)" "pt \<noteq> None"
          using m7 s7(2) by (simp_all add: m7_def)
        from finish_gpu_ok [OF s7(1) this fin] that show thesis by blast
      qed
      have "map_frame s s'" using map_frame_trans [OF fr4(1)] map_frame_trans all(2) s7(2) by blast
      moreover have "maps s' = (maps s)(p \<mapsto> m7\<lparr>m_n_addrs := k\<rparr>)" by (simp add: all(6) m7 emit_def)
      moreover have "same_ident m (m7\<lparr>m_n_addrs := k\<rparr>)" by (simp add: m7_def m4_def same_ident_def)
      ultimately show ?thesis
        using all(1,3-5) s7(2) af by (intro conjI exI [of _ "m7\<lparr>m_n_addrs := k\<rparr>"]) (simp_all add: emit_def m7_def m4_def)
    qed
  qed
qed

lemma map_gpu_memory_ok:
  assumes i: "inv base s" and m: "maps s p = Some m" "m_data m = DNull"
    and len: "length (m_addrs m) = m_n_addrs m" and nc: "length (pdevs s) \<le> max_num_ctrls"
    and r: "map_gpu_memory env ops p s = (err, s')"
  shows "inv base s' \<and> map_frame s s' \<and> mlists s' = mlists s \<and> glinks s' = glinks s \<and>
    ((addrs_safe ops (m_n_addrs m) \<and> phx_safe env (m_n_addrs m)) \<and> clean (klog s) \<longrightarrow> clean (klog s')) \<and>
    (\<exists>m'. maps s' = (maps s)(p \<mapsto> m') \<and> same_ident m m' \<and>
      (err = 0 \<longrightarrow> m_data m' \<noteq> DNull \<and> m_page_size m' = GPU_PAGE_SIZE))"
proof -
  have rdy: "ready s" using i by (simp add: map_inv_def)
  have mm: "maps s = (maps s)(p \<mapsto> m)" using m(1) by auto
  consider "k_alloc env s = (NULL, emit (Note ''alloc failed'' 0) s)"
    | a where "a \<noteq> NULL" "k_alloc env s = (a, emit (Acq (RMem a)) s)"
    by (rule k_alloc_cases [of env s])
  then show ?thesis
  proof cases
    case 1
    then have s': "err = -ENOMEM" "s' = emit (Note ''alloc failed'' 0) s"
      using r m(1) by (auto simp: map_gpu_memory_def)
    have "inv base s'"
      by (rule inv_log [OF i]) (use ready_same [OF _ rdy, of s'] s' in \<open>simp_all add: emit_def map_frame_def\<close>)
    then show ?thesis
      using s' mm by (intro conjI exI [of _ m]) (simp_all add: emit_def map_frame_def same_ident_def ENOMEM_def)
  next
    case (2 a)
    define m1 where "m1 = m\<lparr>m_page_size := GPU_PAGE_SIZE, m_data := DGpu a gd_null, m_release := RelGpu\<rparr>"
    let ?s1 = "emit (Acq (RMem a)) s"
    let ?s2 = "?s1\<lparr>maps := (maps ?s1)(p \<mapsto> m1)\<rparr>"
    have f1: "same_maps s ?s1" "map_frame s ?s1" "ready ?s1" "gains (klog s) [RMem a] (klog ?s1)"
      using ready_same [OF _ rdy, of ?s1] by (simp_all add: same_maps_def map_frame_def emit_def gains_def)
    have i2: "inv base ?s2"
      by (rule inv_set [OF i m(1) f1])
        (use m(2) 2(1) in \<open>simp_all add: m1_def map_wf_def gd_wf_def gd_null_def data_res_def gd_res_def
           map_filter_def mem_res_def\<close>)
    have f2: "map_frame s ?s2" "maps ?s2 p = Some m1" "pdevs ?s2 = pdevs s"
      using f1 by (simp_all add: map_frame_def pdevs_def)
    have peer: ?thesis if "map_gpu_peer env ops p m1 a gd_null s3 = (err, s')"
        "s3 = ?s2 \<or> s3 = emit (Note ''phx_register failed'' 0) ?s2" for s3
    proof -
      have e: "maps s3 = maps ?s2" "mlists s3 = mlists ?s2" "glinks s3 = glinks ?s2" "map_frame ?s2 s3"
          "ready s3" "\<And>r. held (klog s3) r = held (klog ?s2) r" "clean (klog s3) = clean (klog ?s2)"
        using that(2) i2 ready_same [of s3 ?s2] by (auto simp: emit_def map_frame_def map_inv_def)
      have i3: "inv base s3" by (rule inv_log [OF i2 e(1-6)])
      have m3: "maps s3 p = Some m1" "m_data m1 = DGpu a gd_null" "m_release m1 = RelGpu"
          "length (pdevs s3) \<le> max_num_ctrls"
        using e(1) f2 map_frame_pdevs [OF e(4)] nc by (simp_all add: m1_def)
      from map_gpu_peer_ok [OF i3 m3(1-3) 2(1) m3(4) that(1)]
      have p: "inv base s'" "map_frame s3 s'" "mlists s' = mlists s3" "glinks s' = glinks s3"
        "addrs_safe ops (m_n_addrs m) \<and> clean (klog s3) \<longrightarrow> clean (klog s')"
        and "\<exists>m'. maps s' = (maps s3)(p \<mapsto> m') \<and> same_ident m1 m' \<and> m_data m' \<noteq> DNull \<and> m_page_size m' = GPU_PAGE_SIZE"
        by (simp_all add: m1_def)
      then obtain m' where m': "maps s' = (maps s3)(p \<mapsto> m')" "same_ident m1 m'" "m_data m' \<noteq> DNull"
          "m_page_size m' = GPU_PAGE_SIZE" by blast
      have "map_frame s s'" using map_frame_trans f2(1) e(4) p(2) by blast
      then show ?thesis
        using p m' e(1-3,7) by (intro conjI exI [of _ m']) (simp_all add: emit_def same_ident_def m1_def)
    qed
    show ?thesis
    proof (cases "phx_register_fn ?s2")
      case False
      then have "map_gpu_peer env ops p m1 a gd_null ?s2 = (err, s')"
        using r m(1) 2 by (simp add: map_gpu_memory_def m1_def Let_def)
      then show ?thesis by (rule peer) simp
    next
      case True
      obtain e h io where ph: "phx_register env (klog ?s2) (m_vaddr m) (GPU_PAGE_SIZE * of_nat (m_n_addrs m)) = (e, h, io)"
        by (metis prod_cases3)
      show ?thesis
      proof (cases "e = 0 \<and> h \<noteq> NULL")
        case False
        then have "map_gpu_peer env ops p m1 a gd_null (emit (Note ''phx_register failed'' 0) ?s2) = (err, s')"
          using r m(1) 2 True ph by (auto simp: map_gpu_memory_def m1_def Let_def)
        then show ?thesis by (rule peer) simp
      next
        case ok: True
        let ?s3 = "emit (Acq (RPhx h)) ?s2"
        define s4 where "s4 = (if length io \<le> length (m_addrs m) then ?s3 else emit Undef ?s3)"
        define m4 where "m4 = m1\<lparr>m_data := DGpu a (gd_null\<lparr>gd_phx := h\<rparr>), m_n_addrs := length io,
            m_addrs := io @ drop (length io) (m_addrs m)\<rparr>"
        have s': "s' = s4\<lparr>maps := (maps s4)(p \<mapsto> m4)\<rparr>"
          using r m(1) 2 True ph ok by (simp add: map_gpu_memory_def m1_def m4_def s4_def Let_def split: if_splits)
        have f4: "same_maps ?s2 s4" "map_frame ?s2 s4" "ready s4" "gains (klog ?s2) [RPhx h] (klog s4)"
          using i2 ready_same [of s4 ?s2]
          by (simp_all add: s4_def same_maps_def map_frame_def emit_def gains_def map_inv_def)
        have d: "phx_deregister_fn ?s2" using True i2 by (simp add: map_inv_def)
        have "inv base s'" unfolding s'
          by (rule inv_set [OF i2 f2(2) f4])
            (use d 2(1) ok in \<open>simp_all add: m4_def m1_def map_wf_def gd_wf_def gd_null_def data_res_def gd_res_def
               map_filter_def mem_res_def\<close>)
        moreover have "map_frame s s'" using map_frame_trans [OF f2(1) f4(2)] s' by (simp add: map_frame_def)
        moreover have "phx_safe env (m_n_addrs m) \<and> clean (klog s) \<longrightarrow> clean (klog s')"
          using ph len by (auto simp: s' s4_def phx_safe_def split: prod.splits) (metis prod.inject)
        ultimately show ?thesis
          using f4(1) by (intro conjI exI [of _ m4]) (simp_all add: s' same_maps_def emit_def m4_def m1_def same_ident_def)
      qed
    qed
  qed
qed

lemma fills_gpu:
  "fills (map_gpu_memory env ops) base (addrs_safe ops n \<and> phx_safe env n) GPU_PAGE_SIZE n max_num_ctrls"
  unfolding fills_def using map_gpu_memory_ok by blast

end

end
