(* ===== verification/Snvm_MapProps.thy ===== *)
theory Snvm_MapProps
  imports Snvm_MapBalance
begin

text \<open>
  The mapping code over both peer-memory backends: the registries of mappings as enumerable
  lists, mapping and unmapping as inverse operations, the purge by owner, and the cases in
  which the code does not keep its balance.
\<close>

section \<open>The lists of mappings\<close>

text \<open>
  Every list of mappings, global or hanging on a group link, is enumerated by its links, and
  releasing one of its mappings removes that mapping and keeps the ledger.
\<close>

context map_backend
begin

lemma listed_live:
  assumes "inv base s" "p \<in> set (mlists s r) \<or> p \<in> set (glinks s h)"
  obtains m where "maps s p = Some m"
proof -
  have "set (mlists s r) \<subseteq> dom (maps s)" "set (glinks s h) \<subseteq> dom (maps s)"
    using assms(1) by (simp_all add: map_inv_def lists_ok_def fam_ok_def)
  with assms(2) show ?thesis using that by blast
qed

lemma unmap_view:
  assumes "inv base s" "p \<in> set (mlists s r) \<or> p \<in> set (glinks s h)"
  shows "inv base (unmap_and_release ops p s) \<and> map_frame s (unmap_and_release ops p s) \<and>
    maps (unmap_and_release ops p s) = (maps s)(p := None) \<and>
    mlists (unmap_and_release ops p s) = (\<lambda>r. remove1 p (mlists s r)) \<and>
    glinks (unmap_and_release ops p s) = (\<lambda>h. remove1 p (glinks s h)) \<and>
    (clean (klog s) \<longrightarrow> clean (klog (unmap_and_release ops p s)))"
proof -
  obtain m where m: "maps s p = Some m" using listed_live [OF assms] .
  have "ready s" "p \<noteq> NULL" "map_wf (length (pdevs s)) (phx_deregister_fn s) m"
    using assms(1) m by (auto simp: map_inv_def)
  with unmap_and_release_ok [OF this(1) m this(2,3)] unmap_inv [OF assms(1) m] show ?thesis
    by (simp add: rel_ok_def)
qed

lemma map_lists_basic:
  assumes "inv base s"
  shows "distinct (mlists s r)" "distinct (glinks s h)" "NULL \<notin> set (mlists s r)" "NULL \<notin> set (glinks s h)"
    "mlists s r = xs @ p # ys \<Longrightarrow> p \<notin> set xs" "glinks s h = xs @ p # ys \<Longrightarrow> p \<notin> set xs"
proof -
  have f: "fam_ok (mlists s) (dom (maps s))" "fam_ok (glinks s) (dom (maps s))" "NULL \<notin> dom (maps s)"
    using assms by (auto simp: map_inv_def lists_ok_def)
  then show d: "distinct (mlists s r)" "distinct (glinks s h)" by (simp_all add: fam_ok_def)
  have "set (mlists s r) \<subseteq> dom (maps s)" "set (glinks s h) \<subseteq> dom (maps s)"
    using f(1,2) by (simp_all add: fam_ok_def)
  then show "NULL \<notin> set (mlists s r)" "NULL \<notin> set (glinks s h)" using f(3) by blast+
  show "mlists s r = xs @ p # ys \<Longrightarrow> p \<notin> set xs" "glinks s h = xs @ p # ys \<Longrightarrow> p \<notin> set xs"
    using d by auto
qed

end

sublocale map_backend \<subseteq> lst: enumerable "\<lambda>s xs. map_inv ready pt_res dm_res base s \<and> mlists s r = xs"
    "\<lambda>s. hd0 (mlists s r)" "\<lambda>s. seq_next (mlists s r)" "\<lambda>s p. unmap_and_release ops p s" for base r
proof (unfold_locales, goal_cases)
  case (5 s xs e ys)
  then show ?case
    using unmap_view [of base s e r] map_lists_basic(5) [of base s r xs e ys] by (simp add: remove1_append)
qed (use map_lists_basic seq_next_split in \<open>auto\<close>)

sublocale map_backend \<subseteq> lnk: enumerable "\<lambda>s xs. map_inv ready pt_res dm_res base s \<and> glinks s h = xs"
    "\<lambda>s. hd0 (glinks s h)" "\<lambda>s. seq_next (glinks s h)" "\<lambda>s p. unmap_and_release ops p s" for base h
proof (unfold_locales, goal_cases)
  case (5 s xs e ys)
  then show ?case
    using unmap_view [of base s e _ h] map_lists_basic(6) [of base s h xs e ys] by (simp add: remove1_append)
qed (use map_lists_basic seq_next_split in \<open>auto\<close>)

context map_backend
begin

text \<open>The states reached by releasing mappings: what a bulk release keeps.\<close>

definition shrinks :: "'b map_st_scheme \<Rightarrow> ptr set \<Rightarrow> 'b map_st_scheme \<Rightarrow> bool" where
  "shrinks s D s' \<longleftrightarrow> map_frame s s' \<and> maps s' = maps s |` (- D) \<and>
     (\<forall>r. mlists s' r = filter (\<lambda>p. p \<notin> D) (mlists s r)) \<and>
     (\<forall>h. glinks s' h = filter (\<lambda>p. p \<notin> D) (glinks s h)) \<and>
     (clean (klog s) \<longrightarrow> clean (klog s'))"

lemma shrinks_refl: "shrinks s {} s"
  by (simp add: shrinks_def restrict_map_def)

lemma shrinks_step:
  assumes "inv base s" "shrinks s0 D s" "p \<in> set (mlists s r) \<or> p \<in> set (glinks s h)"
  shows "shrinks s0 (insert p D) (unmap_and_release ops p s)"
proof -
  have s: "maps s = maps s0 |` (- D)" "\<And>r. mlists s r = filter (\<lambda>p. p \<notin> D) (mlists s0 r)"
    "\<And>h. glinks s h = filter (\<lambda>p. p \<notin> D) (glinks s0 h)" "map_frame s0 s" "clean (klog s0) \<longrightarrow> clean (klog s)"
    using assms(2) by (simp_all add: shrinks_def)
  have f: "remove1 p xs = filter (\<lambda>q. q \<notin> insert p D) ys"
    if "distinct xs" "xs = filter (\<lambda>q. q \<notin> D) ys" for xs ys
    using that by (simp add: remove1_distinct_filter conj_commute)
  have m: "(maps s)(p := None) = maps s0 |` (- insert p D)"
    by (auto simp: s(1) restrict_map_def fun_eq_iff)
  note u = unmap_view [OF assms(1,3)] and d = map_lists_basic(1,2) [OF assms(1)]
  have "\<forall>r. mlists (unmap_and_release ops p s) r = filter (\<lambda>q. q \<notin> insert p D) (mlists s0 r)"
    "\<forall>h. glinks (unmap_and_release ops p s) h = filter (\<lambda>q. q \<notin> insert p D) (glinks s0 h)"
    using u f [OF d(1) s(2)] f [OF d(2) s(3)] by simp_all
  moreover have "map_frame s0 (unmap_and_release ops p s)" using u s(4) map_frame_trans by blast
  ultimately show ?thesis unfolding shrinks_def using u m s(5) by simp
qed

lemma purge_ok:
  assumes "inv base s" "owner \<noteq> NULL"
  shows "\<exists>s'. map_purge_by_owner ops r owner s = Some (s', length (filter (purgeable owner s) (mlists s r))) \<and>
    inv base s' \<and> shrinks s (set (filter (purgeable owner s) (mlists s r))) s'"
proof -
  let ?Q = "\<lambda>t. \<exists>D. shrinks s D t \<and> D \<subseteq> set (filter (purgeable owner s) (mlists s r))"
  have keep: "purgeable owner t x \<longleftrightarrow> x \<notin> D \<and> purgeable owner s x" if "shrinks s D t" for t D x
    using that by (auto simp: shrinks_def purgeable_def restrict_map_def)
  have "\<exists>s'. purge_loop (\<lambda>s. hd0 (mlists s r)) (\<lambda>s. seq_next (mlists s r)) (\<lambda>s p. unmap_and_release ops p s)
      (purgeable owner) s (hd0 (mlists s r)) 0 = Some (s', 0 + length (filter (purgeable owner s) (mlists s r))) \<and>
      (inv base s' \<and> mlists s' r = filter (\<lambda>x. \<not> purgeable owner s x) (mlists s r)) \<and> ?Q s'"
  proof (rule lst.purge_loop_spec, goal_cases)
    case (1 t xs e x)
    then show ?case using unmap_view [of base t e r] by (simp add: purgeable_def)
  next
    case (2 t xs e)
    from 2(4) obtain D where D: "shrinks s D t" "D \<subseteq> set (filter (purgeable owner s) (mlists s r))" by blast
    have "e \<in> set (mlists s r)" using D(1) 2(1,2) by (auto simp: shrinks_def)
    then have "insert e D \<subseteq> set (filter (purgeable owner s) (mlists s r))"
      using keep [OF D(1)] 2(3) D(2) by simp
    then show ?case using shrinks_step [OF _ D(1), of base e r] 2(1,2) by blast
  next
    case 3
    then show ?case using assms(1) by simp
  next
    case 4
    then show ?case using shrinks_refl by blast
  qed
  then obtain s' D where s': "map_purge_by_owner ops r owner s = Some (s', length (filter (purgeable owner s) (mlists s r)))"
    "inv base s'" "mlists s' r = filter (\<lambda>x. \<not> purgeable owner s x) (mlists s r)"
    and D: "shrinks s D s'" "D \<subseteq> set (filter (purgeable owner s) (mlists s r))"
    using assms(2) by (auto simp: map_purge_by_owner_def)
  have "x \<in> D" if "x \<in> set (filter (purgeable owner s) (mlists s r))" for x
  proof (rule ccontr)
    assume "x \<notin> D"
    with that D(1) have "x \<in> set (mlists s' r)" by (simp add: shrinks_def)
    with s'(3) that show False by simp
  qed
  then have "D = set (filter (purgeable owner s) (mlists s r))" using D(2) by blast
  with s' D(1) show ?thesis by blast
qed

lemma map_find_ok:
  assumes "inv base s"
  shows "map_find r cur va s =
    Some (case find (map_matches cur va s) (mlists s r) of None \<Rightarrow> NULL | Some p \<Rightarrow> p)"
  unfolding map_find_def by (rule lst.find_loop_spec) (use assms in simp)

text \<open>Mapping and unmapping again.\<close>

lemma inv_balanced:
  assumes "inv base s" "inv base s'" "same_maps s s'" "map_frame s s'"
  shows "gains (klog s) [] (klog s')"
  using assms total_cong [of s' s] map_frame_pdevs [of s s'] by (simp add: map_inv_def gains_def same_maps_def)

lemma map_unmap_ok:
  assumes i: "inv base s" and i': "inv base s'" and p: "maps s p = None" "maps s' = (maps s)(p \<mapsto> m)"
    and l: "glinks s' = glinks s" "mlists s' = (mlists s)(reg := mlists s reg @ [p])" and fr: "map_frame s s'"
  shows "inv base (unmap_and_release ops p s') \<and> same_maps s (unmap_and_release ops p s') \<and>
    gains (klog s) [] (klog (unmap_and_release ops p s')) \<and>
    (clean (klog s') \<longrightarrow> clean (klog (unmap_and_release ops p s')))"
proof -
  note fu = fresh_unlisted [OF i p(1)]
  have "p \<in> set (mlists s' reg)" using l(2) by simp
  note u = unmap_view [OF i' disjI1 [OF this]]
  have "p \<notin> set (mlists s reg)" using i p(1) by (auto simp: map_inv_def lists_ok_def fam_ok_def)
  then have "remove1 p (mlists s' r) = mlists s r" for r
    using fu(1) l(2) by (simp add: remove1_append)
  moreover have "(maps s')(p := None) = maps s" using p by auto
  ultimately have sm: "same_maps s (unmap_and_release ops p s')"
    using u fu(2) l(1) by (simp add: same_maps_def)
  then show ?thesis
    using u inv_balanced [OF i _ sm] map_frame_trans [OF fr] by blast
qed

end

text \<open>
  The contract of the mapping calls: on failure nothing has changed and nothing is held; on
  success there is one new mapping, found in its registry, and releasing it restores both.
\<close>

definition map_call_ok ::
  "'a map_st_scheme peer_memory_ops \<Rightarrow> map_reg \<Rightarrow> u64 \<Rightarrow> u64 \<Rightarrow> bool \<Rightarrow> task \<Rightarrow> pdev \<Rightarrow> u64 \<Rightarrow>
   'a map_st_scheme \<Rightarrow> (int + ptr) \<times> 'a map_st_scheme \<Rightarrow> bool" where
  "map_call_ok ops reg msk psz safe cur pdev va s res \<longleftrightarrow>
     (case res of
        (Inl e, s') \<Rightarrow> e \<noteq> 0 \<and> same_maps s s' \<and> gains (klog s) [] (klog s') \<and>
          (safe \<and> clean (klog s) \<longrightarrow> clean (klog s'))
      | (Inr p, s') \<Rightarrow>
          p \<noteq> NULL \<and> maps s p = None \<and> mlists s' = (mlists s)(reg := mlists s reg @ [p]) \<and>
          (\<exists>m. maps s' = (maps s)(p \<mapsto> m) \<and> m_owner m = cur \<and> m_vaddr m = and va msk \<and>
             m_pdev m = pdev \<and> m_page_size m = psz \<and> m_group_id m = 0 \<and> m_data m \<noteq> DNull) \<and>
          (let s'' = unmap_and_release ops p s'
           in same_maps s s'' \<and> gains (klog s) [] (klog s'') \<and>
              (safe \<and> clean (klog s) \<longrightarrow> clean (klog s''))))"

context map_backend
begin

lemma map_call:
  assumes i: "inv base s" and env: "alloc_fresh env" and f: "1 \<le> n \<Longrightarrow> fills fill base safe psz n nc"
    and nc: "length (pdevs s) \<le> nc"
  shows "map_call_ok ops reg msk psz safe cur pdev va s (map_common env ops msk psz reg fill cur pdev va n s)"
proof -
  obtain r s' where r: "map_common env ops msk psz reg fill cur pdev va n s = (r, s')" by fastforce
  note ok = map_common_ok [OF i env f nc r]
  show ?thesis
  proof (cases r)
    case (Inl e)
    then show ?thesis using ok r inv_balanced [OF i, of s'] by (simp add: map_call_ok_def)
  next
    case (Inr p)
    then obtain m where m: "maps s' = (maps s)(p \<mapsto> m)" "m_owner m = cur" "m_vaddr m = and va msk"
      "m_pdev m = pdev" "m_page_size m = psz" "m_group_id m = 0" "m_data m \<noteq> DNull"
      and p: "p \<noteq> NULL" "maps s p = None" "glinks s' = glinks s" "mlists s' = (mlists s)(reg := mlists s reg @ [p])"
      and s': "inv base s'" "map_frame s s'" "safe \<and> clean (klog s) \<longrightarrow> clean (klog s')"
      using ok by auto
    note u = map_unmap_ok [OF i s'(1) p(2) m(1) p(3,4) s'(2)]
    have "\<exists>m. maps s' = (maps s)(p \<mapsto> m) \<and> m_owner m = cur \<and> m_vaddr m = and va msk \<and>
        m_pdev m = pdev \<and> m_page_size m = psz \<and> m_group_id m = 0 \<and> m_data m \<noteq> DNull" using m by blast
    then show ?thesis using Inr r p u s'(3) by (simp add: map_call_ok_def Let_def)
  qed
qed

end

section \<open>The backends\<close>

interpretation nvidia_maps: map_backend "nvidia_ops env" "nv_usable env" nv_pt_res nv_dm_res for env
  by (rule map_backend.intro) (rule nvidia.peer_backend_axioms)

interpretation metax_maps: map_backend "metax_ops env" mx_ready mx_pt_res mx_dm_res for env
  by (rule map_backend.intro) (rule metax.peer_backend_axioms)

section \<open>Properties\<close>




definition demo_menv :: map_env where
  "demo_menv = ctrl_env.extend demo_cenv \<lparr>phx_register = (\<lambda>_ _ _. (-1, 0, []))\<rparr>"

definition demo_mst :: map_st where
  "demo_mst = ctrl_st.extend demo_ctrl_st
     \<lparr>maps = Map.empty, mlists = (\<lambda>_. []), glinks = (\<lambda>_. []), phx_register_fn = False, phx_deregister_fn = False\<rparr>"

lemmas demo_map_defs = demo_menv_def demo_cenv_def demo_penv_def peer_env.extend_def ctrl_env.extend_def
  demo_mst_def demo_ctrl_st_def ctrl_st.extend_def

lemma demo_menv_fresh: "alloc_fresh demo_menv"
  by (simp add: alloc_fresh_def demo_map_defs held_above_fresh)

lemma demo_mst_inv: "map_inv (nv_usable demo_menv) nv_pt_res nv_dm_res (\<lambda>_. 0) demo_mst"
  by (simp add: map_inv_def nv_usable_def nv_nonnull_def nv_ready_def nv_names_def total_def lists_ok_def
      fam_ok_def demo_map_defs)

lemma demo_menv_ok: "gup_ok demo_menv" "dma_ok demo_menv" "\<forall>q. \<not> is_vmalloc demo_menv q"
  by (simp_all add: gup_ok_def dma_ok_def demo_map_defs)

lemma demo_map_runs:
  obtains p s' where "map_userspace demo_menv (nvidia_ops demo_menv) 9 3 4097 2 demo_mst = (Inr p, s')"
  by (simp add: map_userspace_def create_descriptor_def map_user_pages_def k_alloc_def upd_map_def
      demo_map_defs Let_def emit_def emit_all_def numeral_2_eq_2)



lemma demo_mapped:
  obtains p s' where "map_userspace demo_menv (nvidia_ops demo_menv) 9 3 4097 2 demo_mst = (Inr p, s')"
    "map_inv (nv_usable demo_menv) nv_pt_res nv_dm_res (\<lambda>_. 0) s'" "mlists s' Host = [p]" "purgeable 9 s' p"
proof -
  obtain p s' where r: "map_userspace demo_menv (nvidia_ops demo_menv) 9 3 4097 2 demo_mst = (Inr p, s')"
    by (rule demo_map_runs)
  note ok = nvidia_maps.map_common_ok [OF demo_mst_inv demo_menv_fresh nvidia_maps.fills_user [OF demo_menv_ok]
      order_refl r [unfolded map_common_instances]]
  have "mlists demo_mst Host = []" by (simp add: demo_map_defs)
  with ok that [OF r] show thesis by (auto simp: purgeable_def)
qed


section \<open>Where the balance is lost\<close>

text \<open>
  The hypotheses of the theorems above are needed. When the second of two pages cannot be
  mapped for DMA, the error path unmaps an address that was never mapped.
\<close>

theorem map_userspace_dma_error_unbalanced:
  "\<exists>e s'. map_userspace (demo_menv\<lparr>dma_mapping_error := (\<lambda>_ a. if a = 4100096 then -5 else 0)\<rparr>)
      (nvidia_ops demo_menv) 9 3 4097 2 demo_mst = (Inl e, s') \<and> held (klog s') (RDma 3 4100096) = -1"
  unfolding numeral_2_eq_2
  by (simp add: map_userspace_def create_descriptor_def map_user_pages_def k_alloc_def k_free_def upd_map_def
      unmap_and_release_def unlink_map_def run_release_def release_user_pages_def upt_rec
      demo_map_defs Let_def emit_def emit_all_def)

text \<open>
  When the pages of a large request cannot be pinned, the array of pages, which \<open>kvcalloc\<close> may
  have taken from \<open>vmalloc\<close>, is passed to \<open>kfree\<close>.
\<close>

theorem map_userspace_vmalloc_bad_free:
  "\<exists>e s'. map_userspace (demo_menv\<lparr>is_vmalloc := (\<lambda>p. p = 2), get_user_pages := (\<lambda>_ _ _. (-14, []))\<rparr>)
      (nvidia_ops demo_menv) 9 3 4097 2 demo_mst = (Inl e, s') \<and> BadFree 2 \<in> set (klog s')"
  by (simp add: map_userspace_def create_descriptor_def map_user_pages_def k_alloc_def k_free_def k_free_kv_def
      upd_map_def unmap_and_release_def unlink_map_def demo_map_defs Let_def emit_def numeral_2_eq_2)

text \<open>
  With a ninth controller the loop that maps GPU memory writes past the end of its array of
  \<open>max_num_ctrls\<close> mappings.
\<close>

theorem map_device_memory_nine_controllers:
  "\<exists>r s'. map_device_memory demo_menv (nvidia_ops demo_menv) 9 3 70000 1 (demo_mst\<lparr>ctrl_list := [1 ..< 10]\<rparr>) = (r, s') \<and>
     Undef \<in> set (klog s')"
  by (simp add: map_device_memory_def create_descriptor_def map_gpu_memory_def map_gpu_peer_def k_alloc_def
      upd_map_def set_gd_def finish_gpu_def nvidia_ops_def nvidia_peer_get_pages_def nvidia_pt_entries_def pdevs_def
      nvidia_peer_dma_map_pages_def nvidia_dm_addresses_def copy_addrs_def max_num_ctrls_def
      list_insert_map_def upt_rec demo_map_defs Let_def emit_def emit_all_def)

end
