(* ===== verification/Snvm_DevInv.thy ===== *)
theory Snvm_DevInv
  imports Snvm_DevIoctl Snvm_MapProps
begin

text \<open>
  The invariant of the character devices: who owns a queue group, which mappings hang on it,
  which queue identifiers are in use, and that the resources held are exactly those of the
  open files, their groups, the identifier bitmaps and the live mappings. Every operation of
  the device keeps it.
\<close>

section \<open>Views of the state\<close>

text \<open>The fields the invariant speaks about; the counters of mappings are not among them.\<close>

definition ocore :: "'a dev_st_scheme \<Rightarrow> ptr \<Rightarrow> (ptr \<times> task \<times> ptr list) option" where
  "ocore s p = map_option (\<lambda>w. (own_ctrl w, own_owner w, own_groups w)) (owners s p)"

definition gcore :: "'a dev_st_scheme \<Rightarrow> ptr \<Rightarrow> (u32 \<times> snvm_user_queue list \<times> u32) option" where
  "gcore s g = map_option (\<lambda>r. (g_group_id r, g_queues r, g_cur_queues r)) (qgroups s g)"

definition mcore :: "'a map_st_scheme \<Rightarrow> ptr \<Rightarrow> (u32 \<times> u8) option" where
  "mcore s p = map_option (\<lambda>m. (m_group_id m, m_kind m)) (maps s p)"

type_synonym ocores = "ptr \<Rightarrow> (ptr \<times> task \<times> ptr list) option"
type_synonym gcores = "ptr \<Rightarrow> (u32 \<times> snvm_user_queue list \<times> u32) option"

definition ogroups :: "ocores \<Rightarrow> ptr \<Rightarrow> ptr list" where
  "ogroups oc p = (case oc p of None \<Rightarrow> [] | Some (c, t, gs) \<Rightarrow> gs)"

definition slots_ok :: "snvm_user_queue list \<Rightarrow> u32 \<Rightarrow> bool" where
  "slots_ok qs cur \<longleftrightarrow> length qs = NVM_MAX_QUEUES_PER_GROUP \<and> unat cur \<le> NVM_MAX_QUEUES_PER_GROUP \<and>
     (\<forall>i < NVM_MAX_QUEUES_PER_GROUP. uq_alive (qs ! i) \<longleftrightarrow> i < unat cur)"

definition live_qids :: "snvm_user_queue list \<Rightarrow> u16 list" where
  "live_qids qs = map uq_qid (filter uq_alive qs)"

definition live :: "gcores \<Rightarrow> ptr \<Rightarrow> u16 list" where
  "live gc g = (case gc g of None \<Rightarrow> [] | Some (i, qs, cur) \<Rightarrow> live_qids qs)"

text \<open>The live queues of an open file on its controller.\<close>

definition fd_queues :: "'a dev_st_scheme \<Rightarrow> ptr \<Rightarrow> (ptr \<times> u16 list) option" where
  "fd_queues s p = map_option (\<lambda>(c, t, gs). (c, concat (map (live (gcore s)) gs))) (ocore s p)"

lemma fd_queues_cong: "ocore s' = ocore s \<Longrightarrow> live (gcore s') = live (gcore s) \<Longrightarrow> fd_queues s' = fd_queues s"
  by (intro ext) (simp add: fd_queues_def)

lemma fd_queues_log [simp]: "fd_queues (s\<lparr>klog := l\<rparr>) = fd_queues s"
  by (rule fd_queues_cong) (simp_all add: ocore_def gcore_def live_def fun_eq_iff)

text \<open>A group belongs to the controller of the file that owns it.\<close>

definition serves :: "ocores \<Rightarrow> ptr \<Rightarrow> ptr \<Rightarrow> bool" where
  "serves oc c g \<longleftrightarrow> (\<exists>p t gs. oc p = Some (c, t, gs) \<and> g \<in> set gs)"

section \<open>The parts of the invariant\<close>

definition grp_wf :: "ocores \<Rightarrow> gcores \<Rightarrow> (ptr \<Rightarrow> ctrl option) \<Rightarrow> bool" where
  "grp_wf oc gc cs \<longleftrightarrow>
     (\<forall>p c t gs. oc p = Some (c, t, gs) \<longrightarrow> p \<noteq> NULL \<and> c \<noteq> NULL \<and> cs c \<noteq> None) \<and>
     fam_ok (ogroups oc) (dom gc) \<and> (\<forall>g \<in> dom gc. \<exists>p. g \<in> set (ogroups oc p)) \<and>
     (\<forall>g i qs cur. gc g = Some (i, qs, cur) \<longrightarrow> g \<noteq> NULL \<and> i \<noteq> 0 \<and> slots_ok qs cur) \<and>
     (\<forall>g h i qs cur qs' cur'. gc g = Some (i, qs, cur) \<and> gc h = Some (i, qs', cur') \<longrightarrow> g = h)"

definition link_wf ::
  "ocores \<Rightarrow> gcores \<Rightarrow> (link_head \<Rightarrow> ptr list) \<Rightarrow> (ptr \<Rightarrow> (u32 \<times> u8) option) \<Rightarrow> bool" where
  "link_wf oc gc gl mc \<longleftrightarrow>
     (\<forall>g. gc g = None \<longrightarrow> gl (LGroup g) = []) \<and> (\<forall>p. oc p = None \<longrightarrow> gl (LData p) = []) \<and>
     (\<forall>g i qs cur m. gc g = Some (i, qs, cur) \<and> m \<in> set (gl (LGroup g)) \<longrightarrow>
        (\<exists>k. mc m = Some (i, k) \<and> k \<noteq> NVM_MAP_KIND_DATA)) \<and>
     (\<forall>p m. m \<in> set (gl (LData p)) \<longrightarrow> mc m = Some (0, NVM_MAP_KIND_DATA)) \<and>
     (\<forall>m i k. mc m = Some (i, k) \<and> i \<noteq> 0 \<longrightarrow> (\<exists>g. m \<in> set (gl (LGroup g))))"

text \<open>
  Every live queue has its own identifier, and the identifiers in use in the pool of a
  controller are those of its live queues and of a set \<open>ex c\<close> reserved by an operation
  in progress.
\<close>

definition cqids :: "ocores \<Rightarrow> gcores \<Rightarrow> ptr \<Rightarrow> u16 set" where
  "cqids oc gc c = {q. \<exists>g. serves oc c g \<and> q \<in> set (live gc g)}"

definition pool_wf :: "ocores \<Rightarrow> gcores \<Rightarrow> ptr \<Rightarrow> ctrl \<Rightarrow> u16 set \<Rightarrow> bool" where
  "pool_wf oc gc c d ex \<longleftrightarrow>
     (user_qid_bitmap d \<noteq> None \<longrightarrow> pool_ok d) \<and>
     ex \<inter> cqids oc gc c = {} \<and> pool_used d = ex \<union> cqids oc gc c"

definition qid_wf :: "ocores \<Rightarrow> gcores \<Rightarrow> (ptr \<Rightarrow> ctrl option) \<Rightarrow> (ptr \<Rightarrow> u16 set) \<Rightarrow> bool" where
  "qid_wf oc gc cs ex \<longleftrightarrow>
     (\<forall>g. distinct (live gc g)) \<and>
     (\<forall>c g h. serves oc c g \<and> serves oc c h \<and> g \<noteq> h \<longrightarrow> set (live gc g) \<inter> set (live gc h) = {}) \<and>
     (\<forall>c d. cs c = Some d \<longrightarrow> pool_wf oc gc c d (ex c))"

text \<open>The resources of the device layer, over a base that belongs to the rest of the driver.\<close>

definition dev_base :: "(resource \<Rightarrow> int) \<Rightarrow> ocores \<Rightarrow> gcores \<Rightarrow> (ptr \<Rightarrow> ctrl option) \<Rightarrow> resource \<Rightarrow> int" where
  "dev_base b oc gc cs r =
     b r + (case r of
        RMem p \<Rightarrow> of_bool (oc p \<noteq> None) + of_bool (gc p \<noteq> None)
      | RGroupId i \<Rightarrow> of_bool (\<exists>g x. gc g = Some x \<and> unat (fst x) = i)
      | RBitmap c \<Rightarrow> of_bool (\<exists>d. cs c = Some d \<and> user_qid_bitmap d \<noteq> None)
      | _ \<Rightarrow> 0)"

lemma dev_base_nonneg: "\<forall>r. 0 \<le> b r \<Longrightarrow> 0 \<le> dev_base b oc gc cs r"
  by (simp add: dev_base_def add_nonneg_nonneg split: resource.splits)

definition cnt_wf :: "'a dev_st_scheme \<Rightarrow> bool" where
  "cnt_wf s \<longleftrightarrow> (\<forall>p w. owners s p = Some w \<longrightarrow>
     own_nr_groups w = of_nat (length (own_groups w)) \<and> length (own_groups w) \<le> 1) \<and>
     (\<forall>g r. qgroups s g = Some r \<longrightarrow> g_max_queues r = of_nat NVM_MAX_QUEUES_PER_GROUP)"

definition hw_wf :: "'a dev_st_scheme \<Rightarrow> bool" where
  "hw_wf s \<longleftrightarrow> distinct (ctrl_list s) \<and> NULL \<notin> set (ctrl_list s) \<and> set (ctrl_list s) \<subseteq> dom (ctrls s) \<and>
     length (ctrl_list s) \<le> max_num_ctrls \<and>
     (\<forall>d nd. drvdata s d = Some nd \<longrightarrow> unat (ctrl_max_io_queues nd) < 65536)"

section \<open>Lemmas on the parts\<close>

lemma live_take:
  assumes "slots_ok qs cur"
  shows "live_qids qs = map uq_qid (take (unat cur) qs)"
proof -
  have "filter uq_alive qs = take (unat cur) qs"
  proof -
    have l: "length qs = NVM_MAX_QUEUES_PER_GROUP" "unat cur \<le> length qs"
      "\<And>i. i < length qs \<Longrightarrow> uq_alive (qs ! i) \<longleftrightarrow> i < unat cur"
      using assms by (auto simp: slots_ok_def)
    have "\<forall>u \<in> set (take (unat cur) qs). uq_alive u"
      using l(2,3) by (auto simp: in_set_conv_nth)
    moreover have "\<forall>u \<in> set (drop (unat cur) qs). \<not> uq_alive u"
      using l(2,3) by (auto simp: in_set_conv_nth)
    moreover have "filter uq_alive qs = filter uq_alive (take (unat cur) qs) @ filter uq_alive (drop (unat cur) qs)"
      by (metis append_take_drop_id filter_append)
    ultimately show ?thesis by (simp add: filter_empty_conv)
  qed
  then show ?thesis by (simp add: live_qids_def)
qed

lemma grp_wf_groups:
  assumes "grp_wf oc gc cs" "g \<in> set (ogroups oc p)"
  shows "\<exists>i qs cur. gc g = Some (i, qs, cur) \<and> g \<noteq> NULL \<and> i \<noteq> 0 \<and> slots_ok qs cur"
proof -
  have "fam_ok (ogroups oc) (dom gc)" using assms(1) by (simp add: grp_wf_def)
  then have "g \<in> dom gc" using assms(2) unfolding fam_ok_def by blast
  then obtain i qs cur where "gc g = Some (i, qs, cur)" by auto
  then show ?thesis using assms(1) unfolding grp_wf_def by blast
qed

lemma servesI: "oc p = Some (c, t, gs) \<Longrightarrow> g \<in> set gs \<Longrightarrow> serves oc c g"
  unfolding serves_def by blast

lemma serves_iff: "serves oc c g \<longleftrightarrow> (\<exists>p. g \<in> set (ogroups oc p) \<and> (\<exists>t gs. oc p = Some (c, t, gs)))"
proof
  assume "serves oc c g"
  then obtain p t gs where "oc p = Some (c, t, gs)" "g \<in> set gs" by (auto simp: serves_def)
  moreover from this have "g \<in> set (ogroups oc p)" by (simp add: ogroups_def)
  ultimately show "\<exists>p. g \<in> set (ogroups oc p) \<and> (\<exists>t gs. oc p = Some (c, t, gs))" by blast
next
  assume "\<exists>p. g \<in> set (ogroups oc p) \<and> (\<exists>t gs. oc p = Some (c, t, gs))"
  then obtain p t gs where "oc p = Some (c, t, gs)" "g \<in> set gs" by (auto simp: ogroups_def)
  then show "serves oc c g" unfolding serves_def by blast
qed

lemma serves_unique:
  assumes "grp_wf oc gc cs" "serves oc c g" "serves oc c' g"
  shows "c = c'"
proof -
  obtain p p' t t' gs gs' where p: "oc p = Some (c, t, gs)" "g \<in> set (ogroups oc p)"
    "oc p' = Some (c', t', gs')" "g \<in> set (ogroups oc p')"
    using assms(2,3) by (auto simp: serves_iff)
  have "fam_ok (ogroups oc) (dom gc)" using assms(1) by (simp add: grp_wf_def)
  then have "p = p'" using p(2,4) unfolding fam_ok_def by blast
  then show ?thesis using p by simp
qed

lemma link_wfD:
  assumes "link_wf oc gc gl mc"
  shows "gc g = None \<Longrightarrow> gl (LGroup g) = []" "oc p = None \<Longrightarrow> gl (LData p) = []"
    "gc g = Some (i, qs, cur) \<Longrightarrow> m \<in> set (gl (LGroup g)) \<Longrightarrow> \<exists>k. mc m = Some (i, k) \<and> k \<noteq> NVM_MAP_KIND_DATA"
    "m \<in> set (gl (LData p)) \<Longrightarrow> mc m = Some (0, NVM_MAP_KIND_DATA)"
    "mc m = Some (i, k) \<Longrightarrow> i \<noteq> 0 \<Longrightarrow> \<exists>g. m \<in> set (gl (LGroup g))"
  using assms unfolding link_wf_def by blast+

lemma link_wfI:
  assumes "\<And>g. gc g = None \<Longrightarrow> gl (LGroup g) = []" "\<And>p. oc p = None \<Longrightarrow> gl (LData p) = []"
    "\<And>g i qs cur m. gc g = Some (i, qs, cur) \<Longrightarrow> m \<in> set (gl (LGroup g)) \<Longrightarrow>
        \<exists>k. mc m = Some (i, k) \<and> k \<noteq> NVM_MAP_KIND_DATA"
    "\<And>p m. m \<in> set (gl (LData p)) \<Longrightarrow> mc m = Some (0, NVM_MAP_KIND_DATA)"
    "\<And>m i k. mc m = Some (i, k) \<Longrightarrow> i \<noteq> 0 \<Longrightarrow> \<exists>g. m \<in> set (gl (LGroup g))"
  shows "link_wf oc gc gl mc"
  unfolding link_wf_def using assms by blast

lemma link_wf_shrink:
  assumes "link_wf oc gc gl mc"
    and "\<And>h. gl' h = filter (\<lambda>p. p \<notin> D) (gl h)" "mc' = mc |` (- D)"
  shows "link_wf oc gc gl' mc'"
proof -
  note a = link_wfD [OF assms(1)]
  show ?thesis
    by (rule link_wfI) (use a in \<open>auto simp: assms(2,3) restrict_map_def split: if_splits\<close>)
qed

lemma link_wf_new:
  assumes "link_wf oc gc gl mc" "mc p = None" "\<forall>h. p \<notin> set (gl h)"
  shows "link_wf oc gc gl (mc(p \<mapsto> (0, k)))"
proof -
  note a = link_wfD [OF assms(1)]
  have n: "m \<noteq> p" if "m \<in> set (gl h)" for m h using that assms(3) by auto
  show ?thesis by (rule link_wfI) (use a n in \<open>auto split: if_splits\<close>)
qed

lemma link_wf_data:
  assumes "link_wf oc gc gl mc" "mc p = Some (0, NVM_MAP_KIND_DATA)" "oc own \<noteq> None"
  shows "link_wf oc gc (gl(LData own := gl (LData own) @ [p])) mc"
proof -
  note a = link_wfD [OF assms(1)]
  show ?thesis by (rule link_wfI) (use a assms(2,3) in \<open>auto split: if_splits\<close>)
qed

lemma link_wf_group:
  assumes "link_wf oc gc gl mc" "gc g = Some (i, qs, cur)" "k \<noteq> NVM_MAP_KIND_DATA" "\<forall>h. p \<notin> set (gl h)"
  shows "link_wf oc gc (gl(LGroup g := gl (LGroup g) @ [p])) (mc(p \<mapsto> (i, k)))"
proof (rule link_wfI)
  note a = link_wfD [OF assms(1)]
  have n: "m \<noteq> p" if "m \<in> set (gl h)" for m h using that assms(4) by auto
  let ?gl = "gl(LGroup g := gl (LGroup g) @ [p])" and ?mc = "mc(p \<mapsto> (i, k))"
  show "?gl (LGroup h) = []" if "gc h = None" for h using that a(1) assms(2) by auto
  show "?gl (LData q) = []" if "oc q = None" for q using that a(2) by simp
  show "\<exists>k. ?mc m = Some (j, k) \<and> k \<noteq> NVM_MAP_KIND_DATA"
    if "gc h = Some (j, qs', cur')" "m \<in> set (?gl (LGroup h))" for h j qs' cur' m
    using that a(3) [of h j qs' cur' m] n [of m "LGroup h"] assms(2,3) by (cases "h = g") auto
  show "?mc m = Some (0, NVM_MAP_KIND_DATA)" if "m \<in> set (?gl (LData q))" for q m
    using that a(4) n [of m "LData q"] by auto
  show "\<exists>h. m \<in> set (?gl (LGroup h))" if j: "?mc m = Some (j, k')" "j \<noteq> 0" for m j k'
  proof (cases "m = p")
    case True
    then show ?thesis by (intro exI [of _ g]) simp
  next
    case False
    then obtain h where "m \<in> set (gl (LGroup h))" using j a(5) [of m j k'] by auto
    then show ?thesis by (intro exI [of _ h]) auto
  qed
qed

section \<open>The invariant\<close>

definition core_inv :: "('a dev_st_scheme \<Rightarrow> bool) \<Rightarrow> (peer_page_table \<Rightarrow> resource list) \<Rightarrow>
    (pdev \<Rightarrow> peer_dma_mapping \<Rightarrow> resource list) \<Rightarrow> (resource \<Rightarrow> int) \<Rightarrow> (ptr \<Rightarrow> u16 set) \<Rightarrow> 'a dev_st_scheme \<Rightarrow> bool" where
  "core_inv ready pt_res dm_res b ex s \<longleftrightarrow>
     (\<forall>r. 0 \<le> b r) \<and> map_inv ready pt_res dm_res (dev_base b (ocore s) (gcore s) (ctrls s)) s \<and>
     grp_wf (ocore s) (gcore s) (ctrls s) \<and> link_wf (ocore s) (gcore s) (glinks s) (mcore s) \<and>
     qid_wf (ocore s) (gcore s) (ctrls s) ex \<and> hw_wf s"

definition dev_inv :: "('a dev_st_scheme \<Rightarrow> bool) \<Rightarrow> (peer_page_table \<Rightarrow> resource list) \<Rightarrow>
    (pdev \<Rightarrow> peer_dma_mapping \<Rightarrow> resource list) \<Rightarrow> (resource \<Rightarrow> int) \<Rightarrow> 'a dev_st_scheme \<Rightarrow> bool" where
  "dev_inv ready pt_res dm_res b s \<longleftrightarrow> core_inv ready pt_res dm_res b (\<lambda>_. {}) s \<and> cnt_wf s"

text \<open>Files, groups and live queues are the same; counters and mappings may differ.\<close>

definition same_views :: "'a dev_st_scheme \<Rightarrow> 'a dev_st_scheme \<Rightarrow> bool" where
  "same_views s s' \<longleftrightarrow> ocore s' = ocore s \<and> gcore s' = gcore s"

lemma same_views_trans: "same_views s s1 \<Longrightarrow> same_views s1 s2 \<Longrightarrow> same_views s s2"
  by (simp add: same_views_def)

lemma same_views_simps [simp]:
  "same_views s s" "same_views s (s\<lparr>klog := l\<rparr>)" "same_views s (link_map h p s)" "same_views s (upd_map p f s)"
  by (simp_all add: same_views_def ocore_def gcore_def fun_eq_iff link_map_def upd_map_def emit_def split: option.splits)

lemma same_views_counters:
  "(\<And>w. own_ctrl (f w) = own_ctrl w \<and> own_owner (f w) = own_owner w \<and> own_groups (f w) = own_groups w) \<Longrightarrow>
   same_views s (upd_owner p f s)"
  "(\<And>r. g_group_id (h r) = g_group_id r \<and> g_queues (h r) = g_queues r \<and> g_cur_queues (h r) = g_cur_queues r) \<Longrightarrow>
   same_views s (upd_group g h s)"
  by (auto simp: same_views_def ocore_def gcore_def fun_eq_iff upd_owner_def upd_group_def emit_def split: option.splits)

lemma frame_views:
  assumes "map_frame s s'"
  shows "owners s' = owners s" "qgroups s' = qgroups s" "pdev_driver s' = pdev_driver s" "drvdata s' = drvdata s"
    "ctrls s' = ctrls s" "ctrl_list s' = ctrl_list s" "ocore s' = ocore s" "gcore s' = gcore s"
    "cnt_wf s' = cnt_wf s" "hw_wf s' = hw_wf s"
proof -
  have "map_st.more s' = map_st.more s" using assms by (simp add: map_frame_def)
  then show f: "owners s' = owners s" "qgroups s' = qgroups s" "pdev_driver s' = pdev_driver s" "drvdata s' = drvdata s"
    by (cases s, cases s', simp)+
  show g: "ctrls s' = ctrls s" "ctrl_list s' = ctrl_list s" using assms by (simp_all add: map_frame_def)
  show "ocore s' = ocore s" "gcore s' = gcore s"
    using f by (simp_all add: ocore_def gcore_def fun_eq_iff)
  show "cnt_wf s' = cnt_wf s" "hw_wf s' = hw_wf s"
    using f g by (simp_all add: cnt_wf_def hw_wf_def)
qed

locale dev_backend = map_backend ops ready pt_res dm_res
  for ops :: "'c dev_st_scheme peer_memory_ops" and ready pt_res dm_res
begin

abbreviation core :: "(resource \<Rightarrow> int) \<Rightarrow> (ptr \<Rightarrow> u16 set) \<Rightarrow> 'c dev_st_scheme \<Rightarrow> bool" where
  "core \<equiv> core_inv ready pt_res dm_res"

abbreviation good :: "(resource \<Rightarrow> int) \<Rightarrow> 'c dev_st_scheme \<Rightarrow> bool" where
  "good \<equiv> dev_inv ready pt_res dm_res"

abbreviation sbase :: "(resource \<Rightarrow> int) \<Rightarrow> 'c dev_st_scheme \<Rightarrow> resource \<Rightarrow> int" where
  "sbase b s \<equiv> dev_base b (ocore s) (gcore s) (ctrls s)"

lemma inv_rebase:
  assumes "inv base s" "maps s' = maps s" "mlists s' = mlists s" "glinks s' = glinks s" "pdevs s' = pdevs s"
    "psyms s' = psyms s" "phx_register_fn s' = phx_register_fn s" "phx_deregister_fn s' = phx_deregister_fn s"
    and "\<And>r. held (klog s') r - base' r = held (klog s) r - base r" "\<And>r. 0 \<le> base' r"
  shows "inv base' s'"
proof -
  have "held_total s' r = held_total s r" for r by (rule total_cong) (use assms in auto)
  then have "held (klog s') r = base' r + held_total s' r" for r
    using assms(1) assms(9) [of r] by (auto simp: map_inv_def algebra_simps)
  moreover have "ready s'" using assms(1) ready_same [OF assms(6)] by (simp add: map_inv_def)
  ultimately show ?thesis
    using assms by (simp add: map_inv_def lists_ok_def)
qed

lemma core_cong:
  assumes "core b ex s" and "ocore s' = ocore s" "gcore s' = gcore s" "ctrls s' = ctrls s" "ctrl_list s' = ctrl_list s"
    "drvdata s' = drvdata s" "maps s' = maps s" "mlists s' = mlists s" "glinks s' = glinks s" "psyms s' = psyms s"
    "phx_register_fn s' = phx_register_fn s" "phx_deregister_fn s' = phx_deregister_fn s"
    and "\<And>r. held (klog s') r = held (klog s) r"
  shows "core b ex s'"
proof -
  have "inv (sbase b s) s'"
    by (rule inv_rebase [of "sbase b s" s])
      (use assms in \<open>simp_all add: core_inv_def dev_base_nonneg pdevs_def\<close>)
  moreover have "mcore s' = mcore s" using assms(7) by (simp add: mcore_def fun_eq_iff)
  ultimately show ?thesis using assms by (simp add: core_inv_def hw_wf_def)
qed

lemma core_map_step:
  assumes "core b ex s" "inv (sbase b s) s'" "map_frame s s'"
    and "link_wf (ocore s) (gcore s) (glinks s') (mcore s')"
  shows "core b ex s'"
  using assms frame_views [OF assms(3)] by (simp add: core_inv_def)

lemma core_shrink:
  assumes "core b ex s" "inv (sbase b s) s'" "shrinks s D s'"
  shows "core b ex s'"
proof (rule core_map_step [OF assms(1,2)])
  have sh: "map_frame s s'" "maps s' = maps s |` (- D)" "\<And>h. glinks s' h = filter (\<lambda>p. p \<notin> D) (glinks s h)"
    using assms(3) by (simp_all add: shrinks_def)
  show "map_frame s s'" by (rule sh(1))
  have "mcore s' = mcore s |` (- D)"
    by (auto simp: mcore_def sh(2) restrict_map_def fun_eq_iff)
  then show "link_wf (ocore s) (gcore s) (glinks s') (mcore s')"
    using assms(1) link_wf_shrink [OF _ sh(3)] by (simp add: core_inv_def)
qed

end

section \<open>Mappings\<close>

lemma find_qgroup_spec:
  assumes "find_qgroup_locked s own gid = g" "g \<noteq> NULL"
  shows "\<exists>w gr. owners s own = Some w \<and> g \<in> set (own_groups w) \<and> qgroups s g = Some gr \<and> g_group_id gr = gid \<and>
    own \<noteq> NULL \<and> gid \<noteq> 0"
  using assms find_Some_mem [of "has_group_id s gid"]
  by (fastforce simp: find_qgroup_locked_def has_group_id_def split: if_splits option.splits)

context dev_backend
begin

lemma shrinks_trans: "shrinks s D s1 \<Longrightarrow> shrinks s1 E s2 \<Longrightarrow> shrinks s (D \<union> E) s2"
  using map_frame_trans [of s s1 s2]
  by (auto simp: shrinks_def conj_commute intro!: filter_cong)

lemma unmap_shrinks:
  assumes i: "inv base s" and m: "maps s p = Some m"
  shows "inv base (unmap_and_release ops p s) \<and> shrinks s {p} (unmap_and_release ops p s)"
proof -
  have wf: "ready s" "p \<noteq> NULL" "map_wf (length (pdevs s)) (phx_deregister_fn s) m"
    using i m by (auto simp: map_inv_def)
  note u = unmap_and_release_ok [OF wf(1) m wf(2,3)]
  have "(maps s)(p := None) = maps s |` (- {p})" by (auto simp: restrict_map_def fun_eq_iff)
  moreover have "remove1 p (mlists s r) = filter (\<lambda>q. q \<noteq> p) (mlists s r)"
    "remove1 p (glinks s h) = filter (\<lambda>q. q \<noteq> p) (glinks s h)" for r h
    using map_lists_basic(1,2) [OF i] by (simp_all add: remove1_distinct_filter)
  ultimately show ?thesis
    using u unmap_inv [OF i m] by (simp add: shrinks_def rel_ok_def)
qed

lemma fold_unmap:
  assumes "inv base s" "set xs \<subseteq> dom (maps s)" "distinct xs"
  shows "inv base (fold (unmap_and_release ops) xs s) \<and> shrinks s (set xs) (fold (unmap_and_release ops) xs s)"
  using assms
proof (induction xs arbitrary: s)
  case Nil
  then show ?case by (simp add: shrinks_refl)
next
  case (Cons x xs)
  let ?s = "unmap_and_release ops x s"
  from Cons.prems(2) obtain m where m: "maps s x = Some m" by auto
  note u = unmap_shrinks [OF Cons.prems(1) m]
  have "set xs \<subseteq> dom (maps ?s)"
    using Cons.prems(2,3) u by (auto simp: shrinks_def restrict_map_def)
  with Cons.IH [of ?s] u Cons.prems(3) shrinks_trans [of s "{x}" ?s] show ?case by simp
qed

lemma core_unmap:
  assumes "core b ex s" "maps s p = Some m"
  shows "core b ex (unmap_and_release ops p s)"
  using assms unmap_shrinks [of "sbase b s" s p m] core_shrink [OF assms(1)] by (auto simp: core_inv_def)

lemma good_unmap:
  assumes "good b s" "maps s p = Some m"
  shows "good b (unmap_and_release ops p s)"
proof -
  have i: "inv (sbase b s) s" using assms(1) by (simp add: dev_inv_def core_inv_def)
  have f: "map_frame s (unmap_and_release ops p s)" using unmap_shrinks [OF i assms(2)] by (simp add: shrinks_def)
  show ?thesis
    using assms core_unmap [of b "\<lambda>_. {}" s p m] frame_views(9) [OF f] by (simp add: dev_inv_def)
qed

lemma unmap_views:
  assumes "good b s" "maps s p = Some m"
  shows "same_views s (unmap_and_release ops p s)"
proof -
  have i: "inv (sbase b s) s" using assms(1) by (simp add: dev_inv_def core_inv_def)
  have "map_frame s (unmap_and_release ops p s)" using unmap_shrinks [OF i assms(2)] by (simp add: shrinks_def)
  from frame_views(7,8) [OF this] show ?thesis by (simp add: same_views_def)
qed

lemma good_counters:
  assumes "good b s"
  shows "\<lbrakk>\<And>w. owners s p = Some w \<Longrightarrow> own_ctrl (f w) = own_ctrl w \<and> own_owner (f w) = own_owner w \<and>
      own_groups (f w) = own_groups w \<and> own_nr_groups (f w) = own_nr_groups w\<rbrakk> \<Longrightarrow> good b (upd_owner p f s)"
    and "\<lbrakk>\<And>r. qgroups s g = Some r \<Longrightarrow> g_group_id (h r) = g_group_id r \<and> g_queues (h r) = g_queues r \<and>
      g_cur_queues (h r) = g_cur_queues r \<and> g_max_queues (h r) = g_max_queues r\<rbrakk> \<Longrightarrow> good b (upd_group g h s)"
proof -
  have c: "core b (\<lambda>_. {}) s" "cnt_wf s" using assms by (simp_all add: dev_inv_def)
  show "good b (upd_owner p f s)"
    if a: "\<And>w. owners s p = Some w \<Longrightarrow> own_ctrl (f w) = own_ctrl w \<and> own_owner (f w) = own_owner w \<and>
      own_groups (f w) = own_groups w \<and> own_nr_groups (f w) = own_nr_groups w"
  proof -
    have "core b (\<lambda>_. {}) (upd_owner p f s)"
      by (rule core_cong [OF c(1)])
        (use a in \<open>auto simp: upd_owner_def ocore_def gcore_def fun_eq_iff emit_def split: option.splits\<close>)
    moreover have "cnt_wf (upd_owner p f s)"
      using c(2) a by (auto simp: upd_owner_def cnt_wf_def emit_def split: option.splits)
    ultimately show ?thesis by (simp add: dev_inv_def)
  qed
  show "good b (upd_group g h s)"
    if a: "\<And>r. qgroups s g = Some r \<Longrightarrow> g_group_id (h r) = g_group_id r \<and> g_queues (h r) = g_queues r \<and>
      g_cur_queues (h r) = g_cur_queues r \<and> g_max_queues (h r) = g_max_queues r"
  proof -
    have "core b (\<lambda>_. {}) (upd_group g h s)"
      by (rule core_cong [OF c(1)])
        (use a in \<open>auto simp: upd_group_def ocore_def gcore_def fun_eq_iff emit_def split: option.splits\<close>)
    moreover have "cnt_wf (upd_group g h s)"
      using c(2) a by (auto simp: upd_group_def cnt_wf_def emit_def split: option.splits)
    ultimately show ?thesis by (simp add: dev_inv_def)
  qed
qed

lemma good_log:
  assumes "good b s" "\<And>r. held l r = held (klog s) r"
  shows "good b (s\<lparr>klog := l\<rparr>)"
proof -
  have "core b (\<lambda>_. {}) (s\<lparr>klog := l\<rparr>)"
    by (rule core_cong [of _ _ s]) (use assms in \<open>simp_all add: dev_inv_def ocore_def gcore_def fun_eq_iff\<close>)
  then show ?thesis using assms(1) by (simp add: dev_inv_def cnt_wf_def)
qed

lemma inv_glink:
  assumes "inv base s" "maps s p = Some m" "\<forall>h. p \<notin> set (glinks s h)"
  shows "inv base (link_map h p s)"
proof -
  have "lists_ok (link_map h p s)"
    using assms fam_ok_link [of "glinks s" "dom (maps s)" p h] by (auto simp: link_map_def lists_ok_def map_inv_def)
  moreover have "held_total (link_map h p s) r = held_total s r" for r
    by (rule total_cong) (simp_all add: link_map_def pdevs_def)
  moreover have "ready (link_map h p s)"
    by (rule ready_same [of _ s]) (use assms(1) in \<open>simp_all add: link_map_def map_inv_def\<close>)
  ultimately show ?thesis using assms(1) by (simp add: map_inv_def link_map_def pdevs_def)
qed

text \<open>Changing the tags of a mapping.\<close>

lemma inv_tags:
  assumes i: "inv base s" and m: "maps s p = Some m"
  shows "inv base (upd_map p (\<lambda>m. m\<lparr>m_kind := k\<rparr>) s)" "inv base (upd_map p (\<lambda>m. m\<lparr>m_group_id := j\<rparr>) s)"
proof -
  have wf: "ready s" "lists_ok s" "map_wf (length (pdevs s)) (phx_deregister_fn s) m" using i m by (auto simp: map_inv_def)
  have dm: "insert p (dom (maps s)) = dom (maps s)" using m by auto
  show "inv base (upd_map p (\<lambda>m. m\<lparr>m_kind := k\<rparr>) s)"
    by (rule inv_update [OF i m, where m' = "m\<lparr>m_kind := k\<rparr>"])
      (use wf m ready_same [of "s\<lparr>maps := (maps s)(p \<mapsto> m\<lparr>m_kind := k\<rparr>)\<rparr>" s] in
        \<open>simp_all add: upd_map_def map_frame_def lists_ok_def dm map_wf_def data_res_def cong: map_data.case_cong\<close>)
  show "inv base (upd_map p (\<lambda>m. m\<lparr>m_group_id := j\<rparr>) s)"
    by (rule inv_update [OF i m, where m' = "m\<lparr>m_group_id := j\<rparr>"])
      (use wf m ready_same [of "s\<lparr>maps := (maps s)(p \<mapsto> m\<lparr>m_group_id := j\<rparr>)\<rparr>" s] in
        \<open>simp_all add: upd_map_def map_frame_def lists_ok_def dm map_wf_def data_res_def cong: map_data.case_cong\<close>)
qed

lemma attach_map_cases:
  assumes "attach_map ops own req p s = (rc, s')"
  obtains (err) "rc \<noteq> 0" "s' = unmap_and_release ops p s" | (plain) "rc = 0" "s' = s"
    | (data) "rc = 0" "map_kind req = NVM_MAP_KIND_DATA" "own \<noteq> NULL"
        "s' = upd_owner own (\<lambda>o'. o'\<lparr>own_nr_data_maps := own_nr_data_maps o' + 1\<rparr>) (link_map (LData own) p s)"
    | (grp) gp where "rc = 0" "map_kind req \<noteq> NVM_MAP_KIND_DATA" "gp = find_qgroup_locked s own (map_group_id req)" "gp \<noteq> NULL"
        "s' = upd_group gp (\<lambda>gr. gr\<lparr>g_nr_maps := g_nr_maps gr + 1\<rparr>)
           (link_map (LGroup gp) p (upd_map p (\<lambda>m. m\<lparr>m_group_id := map_group_id req\<rparr>) s))"
proof (cases "map_kind req = NVM_MAP_KIND_DATA")
  case True
  show thesis
    by (cases "own = NULL") (use assms True in \<open>simp_all add: err data attach_map_def ENODEV_def\<close>)
next
  case False
  show thesis
  proof (cases "map_group_id req = 0 \<or> own = NULL")
    case True
    then show thesis
      by (cases "map_group_id req = 0") (use assms False in \<open>simp_all add: err plain attach_map_def ENODEV_def\<close>)
  next
    case grp': False
    show thesis
    proof (cases "find_qgroup_locked s own (map_group_id req) = NULL")
      case True
      then show thesis using assms False grp' by (intro err) (simp_all add: attach_map_def ENOENT_def)
    next
      case g: False
      show thesis
        by (rule grp [OF _ False refl g]) (use assms False grp' g in \<open>simp_all add: attach_map_def Let_def\<close>)
    qed
  qed
qed

text \<open>A mapping just made, with its kind set but not yet linked to a file or a group.\<close>

lemma attach_good:
  assumes g: "good b s" and m: "maps s p = Some m" "m_group_id m = 0" "m_kind m = map_kind req"
    and u: "\<forall>h. p \<notin> set (glinks s h)" and o: "own = NULL \<or> owners s own \<noteq> None"
    and r: "attach_map ops own req p s = (rc, s')"
  shows "good b s' \<and> (rc = 0 \<longrightarrow> maps s' p \<noteq> None)"
proof -
  have c: "core b (\<lambda>_. {}) s" "cnt_wf s" using g by (simp_all add: dev_inv_def)
  have i: "inv (sbase b s) s" "link_wf (ocore s) (gcore s) (glinks s) (mcore s)"
    using c(1) by (simp_all add: core_inv_def)
  have mc: "mcore s p = Some (0, map_kind req)" using m by (simp add: mcore_def)
  from r show ?thesis
  proof (cases rule: attach_map_cases)
    case err
    then show ?thesis using good_unmap [OF g m(1)] by simp
  next
    case plain
    then show ?thesis using g m by simp
  next
    case data
    let ?s = "link_map (LData own) p s"
    have f: "map_frame s ?s" by (simp add: link_map_def map_frame_def)
    have "mcore ?s = mcore s" by (simp add: link_map_def mcore_def fun_eq_iff)
    then have "link_wf (ocore s) (gcore s) (glinks ?s) (mcore ?s)"
      using link_wf_data [OF i(2), of p own] mc data(2,3) o by (auto simp: link_map_def ocore_def)
    then have "core b (\<lambda>_. {}) ?s"
      by (rule core_map_step [OF c(1) inv_glink [OF i(1) m(1) u] f])
    then have "good b ?s" using c(2) frame_views(9) [OF f] by (simp add: dev_inv_def)
    moreover have "maps s' p = maps s p"
      using data(4) by (simp add: upd_owner_def link_map_def emit_def split: option.splits)
    ultimately show ?thesis using good_counters(1) [of b ?s own] m data(4) by simp
  next
    case (grp gp)
    obtain w gr where gr: "qgroups s gp = Some gr" "g_group_id gr = map_group_id req"
      using find_qgroup_spec [OF grp(3) [symmetric] grp(4)] by blast
    let ?t = "upd_map p (\<lambda>m. m\<lparr>m_group_id := map_group_id req\<rparr>) s"
    let ?s = "link_map (LGroup gp) p ?t"
    have t: "?t = s\<lparr>maps := (maps s)(p \<mapsto> m\<lparr>m_group_id := map_group_id req\<rparr>)\<rparr>"
      using m(1) by (simp add: upd_map_def)
    have f: "map_frame s ?s" by (simp add: t link_map_def map_frame_def)
    have "inv (sbase b s) ?s"
      by (rule inv_glink [OF inv_tags(2) [OF i(1) m(1)], where m = "m\<lparr>m_group_id := map_group_id req\<rparr>"])
        (use u in \<open>simp_all add: t\<close>)
    moreover have "mcore ?s = (mcore s)(p \<mapsto> (map_group_id req, map_kind req))"
      using m(3) by (auto simp: t link_map_def mcore_def fun_eq_iff)
    then have "link_wf (ocore s) (gcore s) (glinks ?s) (mcore ?s)"
      using link_wf_group [OF i(2) _ grp(2) u, of gp "map_group_id req"] gr
      by (simp add: t link_map_def gcore_def)
    ultimately have "core b (\<lambda>_. {}) ?s"
      by (intro core_map_step [OF c(1) _ f])
    then have "good b ?s" using c(2) frame_views(9) [OF f] by (simp add: dev_inv_def)
    moreover have "maps s' p \<noteq> None"
      using grp(5) by (simp add: t upd_group_def link_map_def emit_def split: option.splits)
    ultimately show ?thesis using good_counters(2) [of b ?s gp] grp(5) by simp
  qed
qed

lemma count_good:
  assumes "good b s"
  shows "good b (dec_data_maps own s)" "good b (count_unmap own m s)"
    "maps (dec_data_maps own s) = maps s" "maps (count_unmap own m s) = maps s"
proof -
  show d: "good b (dec_data_maps own s)"
    unfolding dec_data_maps_def by (rule good_counters(1) [OF assms]) simp
  show m: "maps (dec_data_maps own s) = maps s"
    by (simp add: dec_data_maps_def upd_owner_def emit_def split: option.splits)
  show "good b (count_unmap own m s)"
    unfolding count_unmap_def Let_def using d good_counters(2) [OF assms] assms by simp
  show "maps (count_unmap own m s) = maps s"
    using m by (simp add: count_unmap_def Let_def upd_group_def emit_def split: option.splits)
qed

lemma detach_good:
  assumes "good b s" "maps s p = Some m"
  shows "good b (detach_map ops own req p s)"
proof -
  let ?t = "if map_kind req = NVM_MAP_KIND_DATA then (if own \<noteq> NULL then dec_data_maps own s else s)
        else if map_group_id req \<noteq> 0 \<and> own \<noteq> NULL then
          let g = find_qgroup_locked s own (map_group_id req)
          in if g \<noteq> NULL then upd_group g (\<lambda>gr. gr\<lparr>g_nr_maps := g_nr_maps gr - 1\<rparr>) s else s
        else s"
  have "good b ?t" using assms(1) count_good(1) [OF assms(1)] good_counters(2) [OF assms(1)] by (simp add: Let_def)
  moreover have "maps ?t = maps s"
    using count_good(3) [OF assms(1)] by (simp add: Let_def upd_group_def emit_def split: option.splits)
  ultimately show ?thesis
    unfolding detach_map_def using good_unmap [of b ?t p m] assms(2) by simp
qed

lemma count_views: "same_views s (dec_data_maps own s)" "same_views s (count_unmap own m s)"
  by (auto simp: dec_data_maps_def count_unmap_def Let_def intro!: same_views_counters)

lemma attach_views:
  assumes g: "good b s" and m: "maps s p = Some m" and r: "attach_map ops own req p s = (rc, s')"
  shows "same_views s s'"
  using r
proof (cases rule: attach_map_cases)
  case err
  then show ?thesis using unmap_views [OF g m] by simp
next
  case plain
  then show ?thesis by simp
next
  case data
  then show ?thesis
    by (auto intro!: same_views_trans [OF same_views_simps(3) same_views_counters(1)])
next
  case (grp gp)
  then show ?thesis
    by (auto intro!: same_views_trans [OF same_views_trans [OF same_views_simps(4) same_views_simps(3)] same_views_counters(2)])
qed

lemma detach_views:
  assumes g: "good b s" and m: "maps s p = Some m"
  shows "same_views s (detach_map ops own req p s)"
proof -
  let ?t = "if map_kind req = NVM_MAP_KIND_DATA then (if own \<noteq> NULL then dec_data_maps own s else s)
        else if map_group_id req \<noteq> 0 \<and> own \<noteq> NULL then
          let g = find_qgroup_locked s own (map_group_id req)
          in if g \<noteq> NULL then upd_group g (\<lambda>gr. gr\<lparr>g_nr_maps := g_nr_maps gr - 1\<rparr>) s else s
        else s"
  have gt: "good b ?t" using g count_good(1) [OF g] good_counters(2) [OF g] by (simp add: Let_def)
  have "maps ?t = maps s"
    using count_good(3) [OF g] by (simp add: Let_def upd_group_def emit_def split: option.splits)
  then have "same_views ?t (unmap_and_release ops p ?t)" using unmap_views [OF gt, of p m] m by simp
  moreover have "same_views s ?t" by (simp add: Let_def count_views(1) same_views_counters(2))
  ultimately show ?thesis unfolding detach_map_def by (rule same_views_trans [rotated])
qed

text \<open>What a mapping call must satisfy for the handler to keep the invariant.\<close>

definition mapper_ok :: "(resource \<Rightarrow> int) \<Rightarrow> 'c dev_st_scheme \<Rightarrow> (int + ptr) \<times> 'c dev_st_scheme \<Rightarrow> bool" where
  "mapper_ok b s res \<longleftrightarrow> (case res of (r, s') \<Rightarrow>
     inv (sbase b s) s' \<and> map_frame s s' \<and>
     (case r of Inl e \<Rightarrow> e \<noteq> 0 \<and> same_maps s s'
      | Inr p \<Rightarrow> maps s p = None \<and> glinks s' = glinks s \<and>
          (\<exists>m. maps s' = (maps s)(p \<mapsto> m) \<and> m_group_id m = 0)))"

lemma nvm_map_good:
  assumes g: "good b s" and o: "own = NULL \<or> owners s own \<noteq> None"
    and mp: "\<And>va n. mapper_ok b s (mapper va n s)"
    and r: "nvm_map_memory env ops mapper own arg s = (rc, rep, s')"
  shows "good b s' \<and> same_views s s'"
proof (cases "\<exists>req. arg = Some req \<and> \<not> map_request_invalid req")
  case False
  then have "s' = s" using r by (auto simp: nvm_map_memory_def split: option.splits if_splits)
  then show ?thesis using g by simp
next
  case True
  then obtain req where req: "arg = Some req" "\<not> map_request_invalid req" by blast
  have c: "core b (\<lambda>_. {}) s" "cnt_wf s" using g by (simp_all add: dev_inv_def)
  obtain q s1 where q: "mapper (vaddr_start req) (unat (n_pages req)) s = (q, s1)" by fastforce
  have mo: "inv (sbase b s) s1" "map_frame s s1"
    using mp [of "vaddr_start req" "unat (n_pages req)"] q by (simp_all add: mapper_ok_def)
  show ?thesis
  proof (cases q)
    case (Inl e)
    then have "same_maps s s1" using mp [of "vaddr_start req" "unat (n_pages req)"] q by (simp add: mapper_ok_def)
    then have "mcore s1 = mcore s" "glinks s1 = glinks s" by (simp_all add: same_maps_def mcore_def fun_eq_iff)
    then have "core b (\<lambda>_. {}) s1" using core_map_step [OF c(1) mo] c(1) by (simp add: core_inv_def)
    then show ?thesis
      using r req q Inl c(2) frame_views(7-9) [OF mo(2)] by (simp add: nvm_map_memory_def dev_inv_def same_views_def)
  next
    case (Inr p)
    then obtain m where m: "maps s p = None" "glinks s1 = glinks s" "maps s1 = (maps s)(p \<mapsto> m)" "m_group_id m = 0"
      using mp [of "vaddr_start req" "unat (n_pages req)"] q by (auto simp: mapper_ok_def)
    let ?m = "m\<lparr>m_kind := map_kind req\<rparr>" and ?t = "upd_map p (\<lambda>m. m\<lparr>m_kind := map_kind req\<rparr>) s1"
    have t: "?t = s1\<lparr>maps := (maps s1)(p \<mapsto> ?m)\<rparr>" using m(3) by (simp add: upd_map_def)
    have u: "\<forall>h. p \<notin> set (glinks s h)"
      using c(1) m(1) unfolding core_inv_def map_inv_def lists_ok_def fam_ok_def by blast
    have f: "map_frame s ?t" using mo(2) by (simp add: t map_frame_def)
    have "inv (sbase b s) ?t" by (rule inv_tags(1) [OF mo(1), of p m]) (use m(3) in simp)
    moreover have "mcore ?t = (mcore s)(p \<mapsto> (0, map_kind req))" "mcore s p = None"
      using m by (auto simp: t mcore_def fun_eq_iff)
    then have "link_wf (ocore s) (gcore s) (glinks ?t) (mcore ?t)"
      using link_wf_new [of "ocore s" "gcore s" "glinks s" "mcore s" p "map_kind req"] c(1) u m(2)
      by (simp add: t core_inv_def)
    ultimately have "core b (\<lambda>_. {}) ?t" by (intro core_map_step [OF c(1) _ f])
    then have gt: "good b ?t" using c(2) frame_views(9) [OF f] by (simp add: dev_inv_def)
    obtain rc2 s2 where a: "attach_map ops own req p ?t = (rc2, s2)" by fastforce
    have g2: "good b s2" "rc2 = 0 \<longrightarrow> maps s2 p \<noteq> None"
      using attach_good [OF gt _ _ _ _ _ a, of ?m] m u o frame_views(1) [OF f] by (auto simp: t)
    have "same_views s ?t" using frame_views(7,8) [OF f] by (simp add: same_views_def)
    moreover have "same_views ?t s2" by (rule attach_views [OF gt _ a, of ?m]) (simp add: t)
    ultimately have v2: "same_views s s2" by (rule same_views_trans)
    show ?thesis
    proof (cases "rc2 = 0")
      case False
      then show ?thesis using r req q Inr a g2 v2 by (simp add: nvm_map_memory_def)
    next
      case True
      then obtain m2 where m2: "maps s2 p = Some m2" using g2(2) by auto
      obtain out s3 where s3: "copy_addrs (m_n_addrs m2) (m_addrs m2) s2 = (out, s3)" by fastforce
      then have s3': "s3 = s2 \<or> s3 = s2\<lparr>klog := Undef # klog s2\<rparr>"
        by (auto simp: copy_addrs_def emit_def split: if_splits)
      then have g3: "good b s3" "maps s3 p = Some m2" using g2(1) good_log [OF g2(1), of "Undef # klog s2"] m2 by auto
      have "same_views s2 s3" using s3' by auto
      then have v3: "same_views s s3" by (rule same_views_trans [OF v2])
      have "same_views s (detach_map ops own req p s3)" by (rule same_views_trans [OF v3 detach_views [OF g3]])
      then show ?thesis
        using r req q Inr a True m2 s3 g3 v3 detach_good [OF g3]
        by (auto simp: nvm_map_memory_def split: if_splits)
    qed
  qed
qed

end

section \<open>Destroying a group\<close>

definition free_all_qids :: "u16 list \<Rightarrow> ctrl \<Rightarrow> ctrl" where
  "free_all_qids qs d = fold (\<lambda>q d. snvm_user_qid_free_locked d q) qs d"

lemma free_all_qids_fields [simp]:
  "c_pdev (free_all_qids qs d) = c_pdev d"
  "user_qid_bitmap (free_all_qids qs d) = None \<longleftrightarrow> user_qid_bitmap d = None"
  "user_qid_first (free_all_qids qs d) = user_qid_first d" "user_qid_last (free_all_qids qs d) = user_qid_last d"
  unfolding free_all_qids_def
  by (induction qs arbitrary: d) (simp_all add: snvm_user_qid_free_locked_def split: option.splits)

lemma free_all_qids_pool:
  assumes "user_qid_bitmap d \<noteq> None \<longrightarrow> pool_ok d" "set qs \<subseteq> pool_used d"
  shows "(user_qid_bitmap (free_all_qids qs d) \<noteq> None \<longrightarrow> pool_ok (free_all_qids qs d)) \<and>
    pool_used (free_all_qids qs d) = pool_used d - set qs"
proof (cases "user_qid_bitmap d")
  case None
  then have "qs = []" using assms(2) by (auto simp: pool_used_def)
  then show ?thesis using assms(1) by (simp add: free_all_qids_def)
next
  case (Some bm)
  then have "pool_ok d" "set qs \<subseteq> pool_range d" using assms qid.used_range by auto
  with qid.free_all [of d qs] show ?thesis by (simp add: free_all_qids_def)
qed

lemma drain_queues_eq:
  assumes "ctrls s c = Some d0" "c \<noteq> NULL"
  shows "\<exists>es. drain_queues env d lv c uqs s =
      s\<lparr>klog := es @ klog s, ctrls := (ctrls s)(c \<mapsto> free_all_qids (live_qids uqs) d0)\<rparr> \<and>
    (\<forall>e \<in> set es. \<exists>q rc. e = Admin d (Delete_SQ q) rc \<or> e = Admin d (Delete_CQ q) rc) \<and> (\<not> lv \<longrightarrow> es = [])"
  using assms(1)
proof (induction uqs arbitrary: s d0)
  case Nil
  then have "(ctrls s)(c \<mapsto> d0) = ctrls s" by auto
  then show ?case by (intro exI [of _ "[]"]) (simp add: live_qids_def free_all_qids_def)
next
  case (Cons uq uqs)
  show ?case
  proof (cases "uq_alive uq")
    case False
    then show ?thesis using Cons.IH [OF Cons.prems] by (simp add: live_qids_def)
  next
    case True
    define s1 where "s1 = (if lv then snd (adapter_delete_cq env d (uq_qid uq)
      (snd (adapter_delete_sq env d (uq_qid uq) s))) else s)"
    define r1 where "r1 = submit_sync_cmd env (klog s) d (Delete_SQ (uq_qid uq))"
    define r2 where "r2 = submit_sync_cmd env (Admin d (Delete_SQ (uq_qid uq)) r1 # klog s) d (Delete_CQ (uq_qid uq))"
    have s1: "s1 = s\<lparr>klog := (if lv then [Admin d (Delete_CQ (uq_qid uq)) r2, Admin d (Delete_SQ (uq_qid uq)) r1]
        else []) @ klog s\<rparr>"
      by (simp add: s1_def r1_def r2_def adapter_delete_cq_def adapter_delete_sq_def adapter_delete_queue_def adapter_cmd_def
          Let_def emit_def)
    let ?d = "snvm_user_qid_free_locked d0 (uq_qid uq)"
    let ?s2 = "s1\<lparr>ctrls := (ctrls s1)(c \<mapsto> ?d)\<rparr>"
    have rec: "drain_queues env d lv c (uq # uqs) s = drain_queues env d lv c uqs ?s2"
      using True assms(2) Cons.prems s1 by (simp add: s1_def [symmetric] upd_ctrl_def)
    have p2: "ctrls ?s2 c = Some ?d" by simp
    from Cons.IH [OF p2] obtain es where es: "drain_queues env d lv c uqs ?s2 =
        ?s2\<lparr>klog := es @ klog ?s2, ctrls := (ctrls ?s2)(c \<mapsto> free_all_qids (live_qids uqs) ?d)\<rparr>"
      "\<forall>e \<in> set es. \<exists>q rc. e = Admin d (Delete_SQ q) rc \<or> e = Admin d (Delete_CQ q) rc" "\<not> lv \<longrightarrow> es = []"
      by blast
    have lq: "free_all_qids (live_qids (uq # uqs)) d0 = free_all_qids (live_qids uqs) ?d"
      using True by (simp add: free_all_qids_def live_qids_def)
    let ?a = "if lv then [Admin d (Delete_CQ (uq_qid uq)) r2, Admin d (Delete_SQ (uq_qid uq)) r1] else []"
    show ?thesis
    proof (intro exI conjI)
      show "drain_queues env d lv c (uq # uqs) s = s\<lparr>klog := (es @ ?a) @ klog s,
          ctrls := (ctrls s)(c \<mapsto> free_all_qids (live_qids (uq # uqs)) d0)\<rparr>"
        unfolding rec es(1) lq by (simp add: s1)
      show "\<forall>e \<in> set (es @ ?a). \<exists>q rc. e = Admin d (Delete_SQ q) rc \<or> e = Admin d (Delete_CQ q) rc"
        using es(2) by auto
      show "\<not> lv \<longrightarrow> es @ ?a = []" using es(3) by simp
    qed
  qed
qed

lemma held_admin: "\<forall>e \<in> set es. \<exists>d c rc. e = Admin d c rc \<Longrightarrow> held (es @ l) r = held l r"
  by (induction es) auto

lemma ogroups_upd [simp]: "ogroups (oc(p \<mapsto> (c, t, gs))) = (ogroups oc)(p := gs)"
  by (simp add: ogroups_def fun_eq_iff)

lemma ogroups_remove:
  assumes "fam_ok (ogroups oc) D" "oc p = Some (c, t, gs)" "g \<in> set gs"
  shows "ogroups (oc(p \<mapsto> (c, t, remove1 g gs))) = (\<lambda>q. remove1 g (ogroups oc q))"
proof
  fix q
  have gp: "g \<in> set (ogroups oc p)" "ogroups oc p = gs" using assms(2,3) by (simp_all add: ogroups_def)
  have "q \<noteq> p \<Longrightarrow> g \<notin> set (ogroups oc q)" using assms(1) gp(1) unfolding fam_ok_def by blast
  then show "ogroups (oc(p \<mapsto> (c, t, remove1 g gs))) q = remove1 g (ogroups oc q)"
    using gp(2) by (simp add: remove1_idem)
qed

lemma serves_remove:
  assumes "grp_wf oc gc cs" "oc p = Some (c, t, gs)" "g \<in> set gs"
  shows "serves (oc(p \<mapsto> (c, t, remove1 g gs))) c' h \<longleftrightarrow> serves oc c' h \<and> h \<noteq> g"
proof -
  have f: "fam_ok (ogroups oc) (dom gc)" using assms(1) by (simp add: grp_wf_def)
  have d: "distinct (ogroups oc q)" for q using f by (simp add: fam_ok_def)
  have "(\<exists>t gs'. (oc(p \<mapsto> (c, t', remove1 g gs))) q = Some (c', t, gs')) \<longleftrightarrow> (\<exists>t gs'. oc q = Some (c', t, gs'))" for q t'
    using assms(2) by auto
  then show ?thesis
    unfolding serves_iff ogroups_remove [OF f assms(2,3)] using d by (auto simp: set_remove1_eq)
qed

lemma grp_wf_drop:
  assumes w: "grp_wf oc gc cs" and p: "oc p = Some (c, t, gs)" "g \<in> set gs" and d: "\<forall>x. cs x \<noteq> None \<longrightarrow> cs' x \<noteq> None"
  shows "grp_wf (oc(p \<mapsto> (c, t, remove1 g gs))) (gc(g := None)) cs'"
proof -
  have f: "fam_ok (ogroups oc) (dom gc)" using w by (simp add: grp_wf_def)
  note rm = ogroups_remove [OF f p]
  have "fam_ok (\<lambda>q. remove1 g (ogroups oc q)) (dom gc - {g})" using f by (rule fam_ok_remove)
  moreover have "dom (gc(g := None)) = dom gc - {g}" by auto
  moreover have "\<exists>q. h \<in> set (remove1 g (ogroups oc q))" if "h \<in> dom gc" "h \<noteq> g" for h
    using w that by (auto simp: grp_wf_def)
  moreover have "p \<noteq> NULL \<and> c \<noteq> NULL \<and> cs' c \<noteq> None" using w p(1) d unfolding grp_wf_def by blast
  ultimately show ?thesis
    using w d unfolding grp_wf_def rm by (auto split: if_splits)
qed

lemma link_wf_drop:
  assumes "link_wf oc gc gl mc" "gl (LGroup g) = []" "\<forall>q. oc q \<noteq> None \<longrightarrow> oc' q \<noteq> None"
  shows "link_wf oc' (gc(g := None)) gl mc"
proof -
  note a = link_wfD [OF assms(1)]
  show ?thesis
  proof (rule link_wfI)
    show "gl (LData p) = []" if "oc' p = None" for p using that assms(3) a(2) [of p] by blast
    show "\<exists>h. m \<in> set (gl (LGroup h))" if "mc m = Some (i, k)" "i \<noteq> 0" for m i k using a(5) that by blast
    show "gl (LGroup h) = []" if "(gc(g := None)) h = None" for h using that a(1) assms(2) by (cases "h = g") auto
    show "\<exists>k. mc m = Some (i, k) \<and> k \<noteq> NVM_MAP_KIND_DATA"
      if "(gc(g := None)) h = Some (i, qs, cur)" "m \<in> set (gl (LGroup h))" for h i qs cur m
      using that a(3) [of h i qs cur m] by (auto split: if_splits)
  qed (rule a(4))
qed

lemma live_drop: "live (gc(g := None)) h = (if h = g then [] else live gc h)"
  by (simp add: live_def)

lemma qid_wf_drop:
  assumes q: "qid_wf oc gc cs (\<lambda>_. {})" and w: "grp_wf oc gc cs" and p: "oc p = Some (c, t, gs)" "g \<in> set gs"
    and d: "cs c = Some d"
  shows "qid_wf (oc(p \<mapsto> (c, t, remove1 g gs))) (gc(g := None)) (cs(c \<mapsto> free_all_qids (rev (live gc g)) d)) (\<lambda>_. {})"
proof -
  let ?oc = "oc(p \<mapsto> (c, t, remove1 g gs))" and ?gc = "gc(g := None)"
  let ?d = "free_all_qids (rev (live gc g)) d"
  note sv = serves_remove [OF w p]
  have g: "serves oc c g" using p unfolding serves_def by blast
  have pw: "pool_wf oc gc c' d' {}" if "cs c' = Some d'" for c' d' using q that by (simp add: qid_wf_def)
  have dis: "set (live gc g) \<inter> set (live gc h) = {}" if "serves oc c h" "h \<noteq> g" for h
    using q g that unfolding qid_wf_def by blast
  have cc: "cqids ?oc ?gc c = cqids oc gc c - set (live gc g)"
  proof (intro equalityI subsetI)
    fix x assume "x \<in> cqids ?oc ?gc c"
    then obtain h where "serves oc c h" "h \<noteq> g" "x \<in> set (live gc h)"
      unfolding cqids_def sv live_drop by auto
    then show "x \<in> cqids oc gc c - set (live gc g)" using dis unfolding cqids_def by blast
  next
    fix x assume "x \<in> cqids oc gc c - set (live gc g)"
    then obtain h where "serves oc c h" "x \<in> set (live gc h)" "h \<noteq> g" by (auto simp: cqids_def)
    then show "x \<in> cqids ?oc ?gc c" unfolding cqids_def sv live_drop by auto
  qed
  have co: "cqids ?oc ?gc c' = cqids oc gc c'" if "c' \<noteq> c" for c'
  proof -
    have "serves oc c' h \<Longrightarrow> h \<noteq> g" for h using serves_unique [OF w g] that by auto
    then show ?thesis unfolding cqids_def sv live_drop by auto
  qed
  have sub: "set (rev (live gc g)) \<subseteq> pool_used d" using pw [OF d] g by (auto simp: pool_wf_def cqids_def)
  have "user_qid_bitmap d \<noteq> None \<longrightarrow> pool_ok d" "pool_used d = cqids oc gc c" using pw [OF d] by (simp_all add: pool_wf_def)
  with free_all_qids_pool [OF _ sub] cc have "pool_wf ?oc ?gc c ?d {}" by (simp add: pool_wf_def)
  note pc = this
  have "pool_wf ?oc ?gc c' d' {}" if "(cs(c \<mapsto> ?d)) c' = Some d'" for c' d'
  proof (cases "c' = c")
    case True
    then show ?thesis using that pc by auto
  next
    case False
    then show ?thesis using that pw [of c' d'] co [of c'] by (simp add: pool_wf_def)
  qed
  then have "\<forall>c' d'. (cs(c \<mapsto> ?d)) c' = Some d' \<longrightarrow> pool_wf ?oc ?gc c' d' {}" by blast
  then show ?thesis
    using q unfolding qid_wf_def sv live_drop by simp blast
qed

lemma dev_base_drop:
  assumes "gc g = Some (i, qs, cur)" "\<forall>g h i qs cur qs' cur'. gc g = Some (i, qs, cur) \<and> gc h = Some (i, qs', cur') \<longrightarrow> g = h"
    and "\<And>q. oc' q = None \<longleftrightarrow> oc q = None" "\<And>x. (\<exists>d. cs' x = Some d \<and> user_qid_bitmap d \<noteq> None) \<longleftrightarrow>
      (\<exists>d. cs x = Some d \<and> user_qid_bitmap d \<noteq> None)"
  shows "dev_base b oc' (gc(g := None)) cs' r =
    dev_base b oc gc cs r - (if r = RMem g then 1 else 0) - (if r = RGroupId (unat i) then 1 else 0)"
proof (cases r)
  case (RGroupId j)
  have "(\<exists>h x. (gc(g := None)) h = Some x \<and> unat (fst x) = j) \<longleftrightarrow>
      (\<exists>h x. gc h = Some x \<and> unat (fst x) = j) \<and> j \<noteq> unat i"
  proof -
    have e: "h = g" if "gc h = Some x" "unat (fst x) = unat i" for h x
    proof -
      obtain i' qs' cur' where x: "x = (i', qs', cur')" by (cases x)
      then have "i' = i" using that(2) by (simp add: word_unat_eq_iff)
      then show ?thesis using assms(2) that(1) assms(1) x by blast
    qed
    show ?thesis
    proof
      assume "\<exists>h x. (gc(g := None)) h = Some x \<and> unat (fst x) = j"
      then obtain h x where h: "h \<noteq> g" "gc h = Some x" "unat (fst x) = j" by (auto split: if_splits)
      then show "(\<exists>h x. gc h = Some x \<and> unat (fst x) = j) \<and> j \<noteq> unat i" using e by blast
    next
      assume a: "(\<exists>h x. gc h = Some x \<and> unat (fst x) = j) \<and> j \<noteq> unat i"
      then obtain h x where h: "gc h = Some x" "unat (fst x) = j" by blast
      then have "h \<noteq> g" using a assms(1) by auto
      then show "\<exists>h x. (gc(g := None)) h = Some x \<and> unat (fst x) = j"
        using h by (intro exI [of _ h] exI [of _ x]) simp
    qed
  qed
  moreover have "\<exists>h x. gc h = Some x \<and> unat (fst x) = unat i" using assms(1) by (intro exI [of _ g]) auto
  ultimately show ?thesis using RGroupId by (simp add: dev_base_def)
qed (use assms in \<open>simp_all add: dev_base_def\<close>)

text \<open>The effect of destroying the group \<open>g\<close> of the file \<open>own\<close>, whose owner record becomes \<open>w'\<close>.\<close>

definition group_gone :: "'a dev_st_scheme \<Rightarrow> ptr \<Rightarrow> ptr \<Rightarrow> snvm_dev_owner \<Rightarrow> 'a dev_st_scheme \<Rightarrow> bool" where
  "group_gone s own g w' s' \<longleftrightarrow>
     (let D = set (glinks s (LGroup g))
      in owners s' = (owners s)(own \<mapsto> w') \<and> qgroups s' = (qgroups s)(g := None) \<and>
         maps s' = maps s |` (- D) \<and>
         (\<forall>r. mlists s' r = filter (\<lambda>p. p \<notin> D) (mlists s r)) \<and>
         (\<forall>h. glinks s' h = filter (\<lambda>p. p \<notin> D) (glinks s h)) \<and>
         ctrl_list s' = ctrl_list s \<and> drvdata s' = drvdata s \<and> pdev_driver s' = pdev_driver s \<and>
         i_cdev s' = i_cdev s \<and>
         (\<forall>c. map_option c_pdev (ctrls s' c) = map_option c_pdev (ctrls s c)) \<and>
         (clean (klog s) \<longrightarrow> clean (klog s')))"

lemma clean_admin: "\<forall>e \<in> set es. \<exists>d c rc. e = Admin d c rc \<Longrightarrow> clean (es @ l) = clean l"
  by (induction es) auto

lemma live_qids_rev: "live_qids (rev qs) = rev (live_qids qs)"
  by (simp add: live_qids_def rev_map rev_filter)

context dev_backend
begin

lemma destroy_core:
  fixes env :: "'e dev_env_scheme"
  assumes co: "core b (\<lambda>_. {}) s" and w: "owners s own = Some w" "g \<in> set (own_groups w)"
    and f: "own_ctrl (f w) = own_ctrl w" "own_owner (f w) = own_owner w" "own_groups (f w) = remove1 g (own_groups w)"
  defines "s' \<equiv> destroy_qgroup_locked env ops g (own_ctrl w) (upd_owner own f s)"
  shows "core b (\<lambda>_. {}) s' \<and> group_gone s own g (f w) s'"
proof -
  let ?oc = "ocore s" and ?gc = "gcore s" and ?cs = "ctrls s" and ?c = "own_ctrl w"
  let ?t = "own_owner w" and ?gs = "own_groups w" and ?D = "set (glinks s (LGroup g))"
  have i: "inv (sbase b s) s" "grp_wf ?oc ?gc ?cs" "link_wf ?oc ?gc (glinks s) (mcore s)"
    "qid_wf ?oc ?gc ?cs (\<lambda>_. {})" "hw_wf s" "\<forall>r. 0 \<le> b r"
    using co by (simp_all add: core_inv_def)
  have p: "?oc own = Some (?c, ?t, ?gs)" using w(1) by (simp add: ocore_def)
  have "g \<in> set (ogroups ?oc own)" using p w(2) by (simp add: ogroups_def)
  then obtain i0 qs cur where gq: "?gc g = Some (i0, qs, cur)" "g \<noteq> NULL"
    using grp_wf_groups [OF i(2)] by blast
  then obtain gr where gr: "qgroups s g = Some gr" "g_group_id gr = i0" "g_queues gr = qs"
    by (auto simp: gcore_def)
  obtain d0 where d0: "?cs ?c = Some d0" "?c \<noteq> NULL" using i(2) p unfolding grp_wf_def by blast
  define s0 where "s0 = s\<lparr>owners := (owners s)(own \<mapsto> f w)\<rparr>"
  have s0: "upd_owner own f s = s0" using w(1) by (simp add: upd_owner_def s0_def)
  define d' where "d' = free_all_qids (rev (live_qids qs)) d0"
  obtain es where es: "drain_queues env (ctrl_pdev s0 ?c) (snvm_ctrl_get_live_ndev s0 ?c \<noteq> None) ?c (rev qs) s0 =
      s0\<lparr>klog := es @ klog s0, ctrls := (ctrls s0)(?c \<mapsto> d')\<rparr>"
    "\<forall>e \<in> set es. \<exists>d c rc. e = Admin d c rc"
  proof -
    have c0: "ctrls s0 ?c = Some d0" using d0(1) by (simp add: s0_def)
    from drain_queues_eq [OF c0 d0(2), of env "ctrl_pdev s0 ?c" "snvm_ctrl_get_live_ndev s0 ?c \<noteq> None" "rev qs"]
    obtain es where "drain_queues env (ctrl_pdev s0 ?c) (snvm_ctrl_get_live_ndev s0 ?c \<noteq> None) ?c (rev qs) s0 =
        s0\<lparr>klog := es @ klog s0, ctrls := (ctrls s0)(?c \<mapsto> free_all_qids (live_qids (rev qs)) d0)\<rparr>"
      and "\<forall>e \<in> set es. \<exists>q rc. e = Admin (ctrl_pdev s0 ?c) (Delete_SQ q) rc \<or> e = Admin (ctrl_pdev s0 ?c) (Delete_CQ q) rc"
      by (elim exE conjE)
    then show thesis unfolding live_qids_rev d'_def [symmetric] by (intro that [of es]) blast+
  qed
  define gr' where "gr' = gr\<lparr>g_queues := map (\<lambda>uq. uq\<lparr>uq_alive := False\<rparr>) (g_queues gr), g_cur_queues := 0\<rparr>"
  define s2 where "s2 = s0\<lparr>klog := es @ klog s0, ctrls := (ctrls s0)(?c \<mapsto> d'), qgroups := (qgroups s0)(g \<mapsto> gr')\<rparr>"
  define s3 where "s3 = fold (unmap_and_release ops) (glinks s (LGroup g)) s2"
  have g0: "qgroups s0 = qgroups s" and gl0: "glinks s0 = glinks s" by (simp_all add: s0_def)
  have s': "s' = k_free g ((emit (Rel (RGroupId (unat i0))) s3)\<lparr>qgroups := (qgroups s3)(g := None)\<rparr>)"
    unfolding s'_def s0 destroy_qgroup_locked_def Let_def
    using gq(2) gr g0 by (simp add: es(1) upd_group_def s2_def s3_def gr'_def gl0 emit_def del: not_None_eq)
  have pd: "pdevs s2 = pdevs s"
    using d0(1) by (auto simp: s2_def s0_def pdevs_def d'_def)
  have i2: "inv (sbase b s) s2"
    by (rule inv_rebase [OF i(1)])
      (use i(6) pd in \<open>simp_all add: s2_def s0_def dev_base_nonneg held_admin [OF es(2)]\<close>)
  have D: "?D \<subseteq> dom (maps s2)" "distinct (glinks s (LGroup g))" "maps s2 = maps s" "mlists s2 = mlists s" "glinks s2 = glinks s"
    using i(1) map_lists_basic(2) [OF i(1)] unfolding s2_def s0_def map_inv_def lists_ok_def fam_ok_def by auto
  have s3: "inv (sbase b s) s3" "shrinks s2 ?D s3" using fold_unmap [OF i2 D(1,2)] by (simp_all add: s3_def)
  then have fr: "map_frame s2 s3" by (simp add: shrinks_def)
  note v3 = frame_views [OF fr]
  have oc': "ocore s' = ?oc(own \<mapsto> (?c, ?t, remove1 g ?gs))"
    using f by (auto simp: s' k_free_def emit_def ocore_def v3 s2_def s0_def fun_eq_iff)
  have gc': "gcore s' = ?gc(g := None)"
    by (auto simp: s' k_free_def emit_def gcore_def v3 s2_def s0_def fun_eq_iff)
  have cs': "ctrls s' = ?cs(?c \<mapsto> d')" by (simp add: s' k_free_def emit_def v3 s2_def s0_def)
  have pd3: "pdevs s' = pdevs s3" by (simp add: s' k_free_def emit_def pdevs_def)
  have bm: "(\<exists>d. (?cs(?c \<mapsto> d')) x = Some d \<and> user_qid_bitmap d \<noteq> None) \<longleftrightarrow>
      (\<exists>d. ?cs x = Some d \<and> user_qid_bitmap d \<noteq> None)" for x
    using d0(1) by (auto simp: d'_def simp del: not_None_eq)
  have inj: "\<forall>g h i qs cur qs' cur'. ?gc g = Some (i, qs, cur) \<and> ?gc h = Some (i, qs', cur') \<longrightarrow> g = h"
    using i(2) by (simp add: grp_wf_def)
  have db: "sbase b s' r = sbase b s r - (if r = RMem g then 1 else 0) - (if r = RGroupId (unat i0) then 1 else 0)" for r
    unfolding oc' gc' cs' by (rule dev_base_drop [OF gq(1) inj]) (use p bm in auto)
  have h': "held (klog s') r = held (klog s3) r - (if r = RMem g then 1 else 0) - (if r = RGroupId (unat i0) then 1 else 0)" for r
    using gq(2) by (simp add: s' k_free_def emit_def)
  have fl: "maps s' = maps s3" "mlists s' = mlists s3" "glinks s' = glinks s3" "psyms s' = psyms s3"
    "phx_register_fn s' = phx_register_fn s3" "phx_deregister_fn s' = phx_deregister_fn s3"
    by (simp_all add: s' k_free_def emit_def)
  have nn: "0 \<le> sbase b s' r" for r using i(6) by (rule dev_base_nonneg)
  have "inv (sbase b s') s'"
    by (rule inv_rebase [OF s3(1) fl(1-3) pd3 fl(4-6) _ nn]) (simp add: db h')
  moreover have "grp_wf (ocore s') (gcore s') (ctrls s')"
    unfolding oc' gc' cs' by (rule grp_wf_drop [OF i(2) p w(2)]) simp
  moreover have gl: "\<forall>h. glinks s' h = filter (\<lambda>p. p \<notin> ?D) (glinks s h)" "maps s' = maps s |` (- ?D)"
    "\<forall>r. mlists s' r = filter (\<lambda>p. p \<notin> ?D) (mlists s r)"
    using s3(2) D(3-5) by (simp_all add: s' k_free_def emit_def shrinks_def)
  have "mcore s' = mcore s |` (- ?D)"
    using gl(2) by (auto simp: mcore_def restrict_map_def fun_eq_iff)
  then have "link_wf ?oc ?gc (glinks s') (mcore s')" using link_wf_shrink [OF i(3)] gl(1) by blast
  then have "link_wf (ocore s') (gcore s') (glinks s') (mcore s')"
    unfolding oc' gc' by (rule link_wf_drop) (use gl(1) in auto)
  moreover have lv: "live ?gc g = live_qids qs" using gq(1) by (simp add: live_def)
  have "qid_wf (ocore s') (gcore s') (ctrls s') (\<lambda>_. {})"
    using qid_wf_drop [OF i(4,2) p w(2) d0(1)] unfolding oc' gc' cs' lv d'_def .
  moreover have rest: "ctrl_list s' = ctrl_list s" "drvdata s' = drvdata s" "pdev_driver s' = pdev_driver s" "i_cdev s' = i_cdev s"
    using fr by (simp_all add: s' k_free_def emit_def v3 s2_def s0_def map_frame_def)
  have "hw_wf s'" using i(5) unfolding hw_wf_def cs' rest by auto
  ultimately have "core b (\<lambda>_. {}) s'" using i(6) by (simp add: core_inv_def)
  moreover have "group_gone s own g (f w) s'"
    unfolding group_gone_def Let_def
  proof (intro conjI)
    show "owners s' = (owners s)(own \<mapsto> f w)" "qgroups s' = (qgroups s)(g := None)"
      by (simp_all add: s' k_free_def emit_def v3 s2_def s0_def)
    show "\<forall>c. map_option c_pdev (ctrls s' c) = map_option c_pdev (ctrls s c)"
      unfolding cs' using d0(1) by (simp add: d'_def)
    show "clean (klog s) \<longrightarrow> clean (klog s')"
      using s3(2) by (simp add: s' k_free_def emit_def shrinks_def s2_def s0_def clean_admin [OF es(2)])
  qed (use gl rest in simp_all)
  ultimately show ?thesis by blast
qed

lemma destroy_good:
  fixes env :: "'e dev_env_scheme"
  assumes g: "good b s" and w: "owners s own = Some w" "g \<in> set (own_groups w)"
  defines "s' \<equiv> destroy_qgroup_locked env ops g (own_ctrl w) (unlink_group own g s)"
  shows "good b s' \<and> group_gone s own g (w\<lparr>own_groups := remove1 g (own_groups w), own_nr_groups := own_nr_groups w - 1\<rparr>) s'"
proof -
  let ?f = "\<lambda>o'. o'\<lparr>own_groups := remove1 g (own_groups o'), own_nr_groups := own_nr_groups o' - 1\<rparr>"
  have c: "core b (\<lambda>_. {}) s" "cnt_wf s" using g by (simp_all add: dev_inv_def)
  have "core b (\<lambda>_. {}) s' \<and> group_gone s own g (?f w) s'"
    unfolding s'_def unlink_group_def by (rule destroy_core [OF c(1) w]) simp_all
  moreover have "own_groups w = [g]" "own_nr_groups w = 1"
    using c(2) w by (cases "own_groups w"; force simp: cnt_wf_def)+
  ultimately show ?thesis
    using c(2) by (auto simp: dev_inv_def cnt_wf_def group_gone_def Let_def split: if_splits)
qed

end

section \<open>Creating a group\<close>

lemma slots_ok_new: "slots_ok (replicate NVM_MAX_QUEUES_PER_GROUP \<lparr>uq_qid = 0, uq_alive = False\<rparr>) 0"
  by (simp add: slots_ok_def)

lemma live_qids_new: "live_qids (replicate n \<lparr>uq_qid = 0, uq_alive = False\<rparr>) = []"
  by (simp add: live_qids_def filter_empty_conv)

lemma fd_queues_new:
  assumes "gcore s g = None" "owners s own = Some w" "own_groups w = []"
  shows "fd_queues (s\<lparr>klog := l, qgroups := (qgroups s)(g \<mapsto> new_group n), owners := (owners s)(own \<mapsto>
    w\<lparr>own_groups := [g], own_nr_groups := k\<rparr>)\<rparr>) = fd_queues s"
proof -
  let ?s = "s\<lparr>klog := l, qgroups := (qgroups s)(g \<mapsto> new_group n), owners := (owners s)(own \<mapsto>
    w\<lparr>own_groups := [g], own_nr_groups := k\<rparr>)\<rparr>"
  have l: "live (gcore ?s) = live (gcore s)" "live (gcore s) g = []"
    using assms(1) by (auto simp: live_def gcore_def new_group_def live_qids_new fun_eq_iff)
  show ?thesis unfolding fd_queues_def l(1) using assms(2,3) l(2) by (intro ext) (simp add: ocore_def)
qed

lemma fd_queues_drop:
  assumes "group_gone s own g w' s'" "live (gcore s) g = []" "owners s own = Some w"
    "own_ctrl w' = own_ctrl w" "own_groups w = [g]" "own_groups w' = []"
  shows "fd_queues s' = fd_queues s"
proof -
  have l: "live (gcore s') = live (gcore s)"
    using assms(1,2) by (auto simp: group_gone_def Let_def live_def gcore_def fun_eq_iff)
  have "owners s' = (owners s)(own \<mapsto> w')" using assms(1) by (simp add: group_gone_def Let_def)
  then show ?thesis unfolding fd_queues_def l using assms(2-) by (intro ext) (simp add: ocore_def)
qed

lemma grp_wf_add:
  assumes w: "grp_wf oc gc cs" and p: "oc p = Some (c, t, gs)" and g: "gc g = None" "g \<noteq> NULL" "i \<noteq> 0" "slots_ok qs cur"
    and i: "\<And>h x. gc h = Some x \<Longrightarrow> fst x \<noteq> i"
  shows "grp_wf (oc(p \<mapsto> (c, t, gs @ [g]))) (gc(g \<mapsto> (i, qs, cur))) cs"
proof -
  have f: "fam_ok (ogroups oc) (dom gc)" using w by (simp add: grp_wf_def)
  have gs: "ogroups oc p = gs" using p by (simp add: ogroups_def)
  have "fam_ok ((ogroups oc)(p := ogroups oc p @ [g])) (insert g (dom gc))"
    using f g(1) by (intro fam_ok_add) auto
  moreover have "dom (gc(g \<mapsto> (i, qs, cur))) = insert g (dom gc)" by auto
  moreover have "\<exists>q. h \<in> set (((ogroups oc)(p := gs @ [g])) q)" if h: "h \<in> insert g (dom gc)" for h
  proof (cases "h = g")
    case True
    then show ?thesis by (intro exI [of _ p]) simp
  next
    case False
    then have "h \<in> dom gc" using h by simp
    then obtain q where "h \<in> set (ogroups oc q)" using w unfolding grp_wf_def by blast
    then show ?thesis using gs by (intro exI [of _ q]) auto
  qed
  moreover have "p \<noteq> NULL \<and> c \<noteq> NULL \<and> cs c \<noteq> None" using w p unfolding grp_wf_def by blast
  moreover have "\<And>h q1 c1. gc h \<noteq> Some (i, q1, c1)" using i by fastforce
  ultimately show ?thesis
    using w g gs unfolding grp_wf_def ogroups_upd by (auto split: if_splits)
qed

lemma link_wf_add:
  assumes "link_wf oc gc gl mc" "gc g = None" "\<forall>q. oc q \<noteq> None \<longrightarrow> oc' q \<noteq> None"
  shows "link_wf oc' (gc(g \<mapsto> x)) gl mc"
proof -
  note a = link_wfD [OF assms(1)]
  have g: "gl (LGroup g) = []" using a(1) assms(2) .
  show ?thesis
  proof (rule link_wfI)
    show "gl (LData p) = []" if "oc' p = None" for p using that assms(3) a(2) [of p] by blast
    show "\<exists>h. m \<in> set (gl (LGroup h))" if "mc m = Some (i, k)" "i \<noteq> 0" for m i k using a(5) that by blast
    show "gl (LGroup h) = []" if "(gc(g \<mapsto> x)) h = None" for h using that a(1) by (auto split: if_splits)
    show "\<exists>k. mc m = Some (i, k) \<and> k \<noteq> NVM_MAP_KIND_DATA"
      if "(gc(g \<mapsto> x)) h = Some (i, qs, cur)" "m \<in> set (gl (LGroup h))" for h i qs cur m
      using that a(3) [of h i qs cur m] g by (auto split: if_splits)
  qed (rule a(4))
qed

lemma qid_wf_add:
  assumes q: "qid_wf oc gc cs ex" and w: "grp_wf oc gc cs" and p: "oc p = Some (c, t, gs)" and g: "gc g = None" "live_qids qs = []"
  shows "qid_wf (oc(p \<mapsto> (c, t, gs @ [g]))) (gc(g \<mapsto> (i, qs, cur))) cs ex"
proof -
  let ?oc = "oc(p \<mapsto> (c, t, gs @ [g]))" and ?gc = "gc(g \<mapsto> (i, qs, cur))"
  have sv: "serves ?oc c' h \<longleftrightarrow> serves oc c' h \<or> c' = c \<and> h = g" for c' h
  proof
    assume "serves ?oc c' h"
    then obtain q t' gs' where "?oc q = Some (c', t', gs')" "h \<in> set gs'" unfolding serves_def by blast
    then have "(oc q = Some (c', t', gs') \<and> h \<in> set gs') \<or> c' = c \<and> (h = g \<or> h \<in> set gs)"
      by (auto split: if_splits)
    then show "serves oc c' h \<or> c' = c \<and> h = g" using p unfolding serves_def by blast
  next
    assume "serves oc c' h \<or> c' = c \<and> h = g"
    then show "serves ?oc c' h"
    proof
      assume "serves oc c' h"
      then obtain q t' gs' where q: "oc q = Some (c', t', gs')" "h \<in> set gs'" unfolding serves_def by blast
      show ?thesis
      proof (cases "q = p")
        case True
        then show ?thesis using p q by (intro servesI [of ?oc p c' t "gs @ [g]"]) auto
      next
        case False
        then show ?thesis using q by (intro servesI [of ?oc q c' t' gs']) auto
      qed
    next
      assume "c' = c \<and> h = g"
      then show ?thesis by (intro servesI [of ?oc p c' t "gs @ [g]"]) auto
    qed
  qed
  have lv: "live ?gc h = live gc h" for h using g by (simp add: live_def)
  have g0: "live gc g = []" using g(1) by (simp add: live_def)
  have "cqids ?oc ?gc c' = cqids oc gc c'" for c'
    unfolding cqids_def sv lv using g0 by auto
  then have pw: "pool_wf ?oc ?gc c' d e = pool_wf oc gc c' d e" for c' d e by (simp add: pool_wf_def)
  have "set (live gc h) \<inter> set (live gc h') = {}" if "serves ?oc c' h" "serves ?oc c' h'" "h \<noteq> h'" for c' h h'
    using that q g0 unfolding sv qid_wf_def by (metis inf_bot_left inf_bot_right set_empty)
  then show ?thesis using q unfolding qid_wf_def lv pw by blast
qed

lemma dev_base_add:
  assumes "gc g = None" "\<forall>h x. gc h = Some x \<longrightarrow> fst x \<noteq> fst y" "\<And>q. oc' q = None \<longleftrightarrow> oc q = None"
  shows "dev_base b oc' (gc(g \<mapsto> y)) cs r =
    dev_base b oc gc cs r + (if r = RMem g then 1 else 0) + (if r = RGroupId (unat (fst y)) then 1 else 0)"
proof (cases r)
  case (RGroupId j)
  have n: "unat (fst x) \<noteq> unat (fst y)" if "gc h = Some x" for h x
  proof -
    have "fst x \<noteq> fst y" using that assms(2) by blast
    then show ?thesis by (simp add: word_unat_eq_iff)
  qed
  have "(\<exists>h x. (gc(g \<mapsto> y)) h = Some x \<and> unat (fst x) = j) \<longleftrightarrow>
      (\<exists>h x. gc h = Some x \<and> unat (fst x) = j) \<or> j = unat (fst y)"
  proof
    assume "\<exists>h x. (gc(g \<mapsto> y)) h = Some x \<and> unat (fst x) = j"
    then show "(\<exists>h x. gc h = Some x \<and> unat (fst x) = j) \<or> j = unat (fst y)" by (auto split: if_splits)
  next
    assume "(\<exists>h x. gc h = Some x \<and> unat (fst x) = j) \<or> j = unat (fst y)"
    then show "\<exists>h x. (gc(g \<mapsto> y)) h = Some x \<and> unat (fst x) = j"
    proof
      assume "\<exists>h x. gc h = Some x \<and> unat (fst x) = j"
      then obtain h x where "gc h = Some x" "unat (fst x) = j" by blast
      then show ?thesis using assms(1) by (intro exI [of _ h] exI [of _ x]) auto
    next
      assume "j = unat (fst y)"
      then show ?thesis by (intro exI [of _ g] exI [of _ y]) simp
    qed
  qed
  moreover have "\<not> (\<exists>h x. gc h = Some x \<and> unat (fst x) = unat (fst y))" using n by blast
  ultimately show ?thesis using RGroupId by (simp add: dev_base_def)
qed (use assms in \<open>cases y, simp add: dev_base_def\<close>)+

text \<open>Identifiers of groups come from an allocator that never returns one in use.\<close>

definition ida_fresh :: "'e dev_env_scheme \<Rightarrow> bool" where
  "ida_fresh env \<longleftrightarrow> (\<forall>l. 0 \<le> ida_simple_get env l \<longrightarrow>
     1 \<le> ida_simple_get env l \<and> ida_simple_get env l < 2 ^ 31 \<and> held l (RGroupId (nat (ida_simple_get env l))) = 0)"

context dev_backend
begin

lemma unheld:
  assumes "core b ex s" "held (klog s) r = 0"
  shows "r = RMem p \<Longrightarrow> ocore s p = None \<and> gcore s p = None"
    and "r = RGroupId i \<Longrightarrow> gcore s g = Some x \<Longrightarrow> unat (fst x) \<noteq> i"
proof -
  have "0 \<le> held_total s r" by (simp add: total_def sum_nonneg cost_nonneg)
  moreover have "held (klog s) r = sbase b s r + held_total s r" "0 \<le> b r"
    using assms(1) by (simp_all add: core_inv_def map_inv_def)
  ultimately have z: "sbase b s r \<le> 0" "0 \<le> b r" using assms(2) by auto
  show "r = RMem p \<Longrightarrow> ocore s p = None \<and> gcore s p = None"
    using z by (cases "ocore s p"; cases "gcore s p") (auto simp: dev_base_def)
  show "unat (fst x) \<noteq> i" if r: "r = RGroupId i" "gcore s g = Some x"
  proof
    assume "unat (fst x) = i"
    then have "\<exists>g x. gcore s g = Some x \<and> unat (fst x) = i" using r(2) by blast
    then have "of_bool (\<exists>g x. gcore s g = Some x \<and> unat (fst x) = i) = (1 :: int)" by (simp only: of_bool_eq)
    then have "sbase b s r = b r + 1" unfolding dev_base_def r(1) resource.case by simp
    then show False using z by simp
  qed
qed

lemma new_group_good:
  assumes g: "good b s" and w: "owners s own = Some w" "own_groups w = []"
    and gp: "gp \<noteq> NULL" "held (klog s) (RMem gp) = 0" and n: "1 \<le> n" "n < 2 ^ 31" "held (klog s) (RGroupId (nat n)) = 0"
  defines "w' \<equiv> w\<lparr>own_groups := own_groups w @ [gp], own_nr_groups := own_nr_groups w + 1\<rparr>"
  defines "s' \<equiv> s\<lparr>klog := Acq (RGroupId (unat (g_group_id (new_group n)))) # Acq (RMem gp) # klog s,
      qgroups := (qgroups s)(gp \<mapsto> new_group n), owners := (owners s)(own \<mapsto> w')\<rparr>"
  shows "good b s'"
proof -
  have c: "core b (\<lambda>_. {}) s" "cnt_wf s" using g by (simp_all add: dev_inv_def)
  let ?oc = "ocore s" and ?gc = "gcore s" and ?cs = "ctrls s"
  let ?y = "(word_of_int n :: u32, replicate NVM_MAX_QUEUES_PER_GROUP \<lparr>uq_qid = 0, uq_alive = False\<rparr>, 0 :: u32)"
  have un: "unat (word_of_int n :: u32) = nat n" using n(1,2) by (simp add: unat_eq_nat_uint uint_word_of_int)
  have y0: "fst ?y \<noteq> 0" using un n(1) by auto
  have i: "inv (sbase b s) s" "grp_wf ?oc ?gc ?cs" "link_wf ?oc ?gc (glinks s) (mcore s)"
    "qid_wf ?oc ?gc ?cs (\<lambda>_. {})" "hw_wf s" "\<forall>r. 0 \<le> b r"
    using c(1) by (simp_all add: core_inv_def)
  have p: "?oc own = Some (own_ctrl w, own_owner w, [])" using w by (simp add: ocore_def)
  have fr: "?gc gp = None" using unheld(1) [OF c(1) gp(2) refl] by simp
  have ids: "\<forall>h x. ?gc h = Some x \<longrightarrow> fst x \<noteq> fst ?y" using unheld(2) [OF c(1) n(3) refl] un by auto
  have ids': "fst x \<noteq> word_of_int n" if "?gc h = Some x" for h x using ids that unfolding fst_conv by blast
  have oc': "ocore s' = ?oc(own \<mapsto> (own_ctrl w, own_owner w, [] @ [gp]))"
    using w by (auto simp: s'_def w'_def ocore_def fun_eq_iff)
  have gc': "gcore s' = ?gc(gp \<mapsto> ?y)" by (auto simp: s'_def gcore_def new_group_def fun_eq_iff)
  have fl: "ctrls s' = ?cs" "glinks s' = glinks s" "mcore s' = mcore s" "maps s' = maps s" "mlists s' = mlists s"
    "psyms s' = psyms s" "phx_register_fn s' = phx_register_fn s" "phx_deregister_fn s' = phx_deregister_fn s"
    "pdevs s' = pdevs s"
    by (simp_all add: s'_def mcore_def fun_eq_iff pdevs_def)
  have db: "sbase b s' r = sbase b s r + (if r = RMem gp then 1 else 0) + (if r = RGroupId (unat (fst ?y)) then 1 else 0)" for r
    unfolding oc' gc' fl(1) by (rule dev_base_add [OF fr ids]) (use p in auto)
  have h: "held (klog s') r = held (klog s) r + (if r = RMem gp then 1 else 0) + (if r = RGroupId (unat (fst ?y)) then 1 else 0)" for r
    by (simp add: s'_def new_group_def)
  have nn: "0 \<le> sbase b s' r" for r using i(6) by (rule dev_base_nonneg)
  have "inv (sbase b s') s'" by (rule inv_rebase [OF i(1) fl(4,5,2,9,6,7,8) _ nn]) (simp add: db h)
  moreover have "grp_wf (ocore s') (gcore s') (ctrls s')"
    unfolding oc' gc' fl(1) by (rule grp_wf_add [OF i(2) p fr gp(1) y0 [unfolded fst_conv] slots_ok_new ids'])
  moreover have "link_wf (ocore s') (gcore s') (glinks s') (mcore s')"
    unfolding oc' gc' fl(2,3) by (rule link_wf_add [OF i(3) fr]) simp
  moreover have "qid_wf (ocore s') (gcore s') (ctrls s') (\<lambda>_. {})"
    unfolding oc' gc' fl(1) by (rule qid_wf_add [OF i(4,2) p fr live_qids_new])
  moreover have "hw_wf s'" using i(5) by (simp add: hw_wf_def s'_def)
  moreover have "cnt_wf s'" using c(2) w by (auto simp: cnt_wf_def s'_def w'_def new_group_def)
  ultimately show ?thesis using i(6) by (simp add: dev_inv_def core_inv_def)
qed

lemma create_good:
  assumes g: "good b s" and e: "alloc_fresh env" "ida_fresh env"
    and w: "own = NULL \<or> owners s own = Some w \<and> own_ctrl w = c"
    and r: "nvm_create_queue_group env ops c own arg s = (rc, rep, s')"
  shows "good b s' \<and> fd_queues s' = fd_queues s"
proof (cases "own \<noteq> NULL \<and> (\<exists>req. arg = Some req \<and> qg_flags req = 0 \<and> \<not> list_ex (\<lambda>x. x \<noteq> 0) (qg_reserved req)) \<and>
    own_nr_groups w < NVM_MAX_GROUPS_PER_FD")
  case False
  then have "s' = s" using r w by (auto simp: nvm_create_queue_group_def split: option.splits if_splits)
  then show ?thesis using g by simp
next
  case True
  then obtain req where req: "arg = Some req" "qg_flags req = 0" "\<not> list_ex (\<lambda>x. x \<noteq> 0) (qg_reserved req)" by blast
  have w': "own \<noteq> NULL" "owners s own = Some w" "own_ctrl w = c" using w True by auto
  have lt: "own_nr_groups w = 0" using True by (simp add: NVM_MAX_GROUPS_PER_FD_def)
  have cw: "own_nr_groups w = of_nat (length (own_groups w))" "length (own_groups w) \<le> 1"
    using g w'(2) by (simp_all add: dev_inv_def cnt_wf_def)
  have gs: "own_groups w = []"
  proof (rule ccontr)
    assume "own_groups w \<noteq> []"
    then have "length (own_groups w) = 1" using cw(2) by (cases "own_groups w") auto
    then show False using cw(1) lt by simp
  qed
  consider "k_alloc env s = (NULL, emit (Note ''alloc failed'' 0) s)"
    | gp where "gp \<noteq> NULL" "k_alloc env s = (gp, emit (Acq (RMem gp)) s)" "gp = kmalloc env (klog s)"
    by (rule k_alloc_cases [of env s])
  then show ?thesis
  proof cases
    case 1
    then have "s' = s\<lparr>klog := Note ''alloc failed'' 0 # klog s\<rparr>"
      using r req w' lt True by (simp add: nvm_create_queue_group_def emit_def NVM_MAX_GROUPS_PER_FD_def)
    then show ?thesis using good_log [OF g] by simp
  next
    case (2 gp)
    let ?s1 = "emit (Acq (RMem gp)) s" and ?n = "ida_simple_get env (Acq (RMem gp) # klog s)"
    have h: "held (klog s) (RMem gp) = 0" using 2(1,3) e(1) by (simp add: alloc_fresh_def)
    show ?thesis
    proof (cases "?n < 0")
      case True
      then have "s' = s\<lparr>klog := Rel (RMem gp) # Note ''ida_simple_get failed'' 0 # Acq (RMem gp) # klog s\<rparr>"
        using r req w' lt 2(1,2)
        by (simp add: nvm_create_queue_group_def emit_def k_free_def NVM_MAX_GROUPS_PER_FD_def)
      then show ?thesis using good_log [OF g] by simp
    next
      case False
      then have n: "1 \<le> ?n" "?n < 2 ^ 31" "held (klog s) (RGroupId (nat ?n)) = 0"
        using e(2) [unfolded ida_fresh_def, rule_format, of "Acq (RMem gp) # klog s"] by simp_all
      let ?w = "w\<lparr>own_groups := own_groups w @ [gp], own_nr_groups := own_nr_groups w + 1\<rparr>"
      define s3 where "s3 = s\<lparr>klog := Acq (RGroupId (unat (g_group_id (new_group ?n)))) # Acq (RMem gp) # klog s,
        qgroups := (qgroups s)(gp \<mapsto> new_group ?n), owners := (owners s)(own \<mapsto> ?w)\<rparr>"
      have g3: "good b s3" unfolding s3_def by (rule new_group_good [OF g w'(2) gs 2(1) h n])
      have "s' = s3 \<or> s' = destroy_qgroup_locked env ops gp c (unlink_group own gp s3)"
        using r req w' lt 2(1,2) False
        by (auto simp: nvm_create_queue_group_def emit_def NVM_MAX_GROUPS_PER_FD_def s3_def Let_def split: if_splits)
      moreover have "good b (destroy_qgroup_locked env ops gp (own_ctrl ?w) (unlink_group own gp s3))"
        using destroy_good [OF g3, of own ?w gp env] by (simp add: s3_def)
      moreover have "gcore s gp = None" using unheld(1) [of b "\<lambda>_. {}" s "RMem gp" gp] g h by (auto simp: dev_inv_def)
      then have q3: "fd_queues s3 = fd_queues s" using w'(2) gs by (simp add: s3_def fd_queues_new)
      moreover have "fd_queues (destroy_qgroup_locked env ops gp (own_ctrl ?w) (unlink_group own gp s3)) = fd_queues s3"
      proof (rule fd_queues_drop)
        show o: "owners s3 own = Some ?w" by (simp add: s3_def)
        show "group_gone s3 own gp (?w\<lparr>own_groups := remove1 gp (own_groups ?w), own_nr_groups := own_nr_groups ?w - 1\<rparr>)
            (destroy_qgroup_locked env ops gp (own_ctrl ?w) (unlink_group own gp s3))"
          using destroy_good [OF g3 o, of gp env] by simp
        show "live (gcore s3) gp = []" by (simp add: s3_def live_def gcore_def new_group_def live_qids_new)
      qed (use gs in simp_all)
      ultimately show ?thesis using g3 w'(3) by auto
    qed
  qed
qed

end

end
