(* ===== verification/Snvm_DevSteps.thy ===== *)
theory Snvm_DevSteps
  imports Snvm_DevInv
begin

text \<open>
  Adding user queues keeps the invariant of the character devices, with every rollback: the
  identifiers of a batch move from the pool to a reserved set, from there to the slots of the
  group when every queue of the batch exists on the controller, and back to the pool on
  any error.
\<close>

section \<open>The pool of a controller\<close>

definition neutral :: "kevent \<Rightarrow> bool" where
  "neutral e \<longleftrightarrow> (\<forall>r. e \<noteq> Acq r \<and> e \<noteq> Rel r)"

lemma held_neutral: "\<forall>e \<in> set es. neutral e \<Longrightarrow> held (es @ l) r = held l r"
proof (induction es)
  case (Cons e es)
  then show ?case by (cases e) (auto simp: neutral_def)
qed simp

lemma neutral_simps [simp]: "neutral (Admin d c rc)" "neutral Undef" "neutral (Note n k)"
  by (simp_all add: neutral_def)

lemma qid_wf_ctrl:
  assumes "qid_wf oc gc cs ex" "pool_wf oc gc c d' (ex' c)" "\<And>x. x \<noteq> c \<Longrightarrow> ex' x = ex x"
  shows "qid_wf oc gc (cs(c \<mapsto> d')) ex'"
proof -
  have "pool_wf oc gc c1 d1 (ex' c1)" if "(cs(c \<mapsto> d')) c1 = Some d1" for c1 d1
    using that assms by (cases "c1 = c") (auto simp: qid_wf_def)
  moreover have "\<forall>g. distinct (live gc g)"
    "\<forall>c g h. serves oc c g \<and> serves oc c h \<and> g \<noteq> h \<longrightarrow> set (live gc g) \<inter> set (live gc h) = {}"
    using assms(1) unfolding qid_wf_def by blast+
  ultimately show ?thesis unfolding qid_wf_def by blast
qed

context dev_backend
begin

lemma core_ctrl_upd:
  assumes c: "core b ex s" and d: "ctrls s c = Some d" "c_pdev d' = c_pdev d"
    "user_qid_bitmap d' = None \<longleftrightarrow> user_qid_bitmap d = None"
    and p: "pool_wf (ocore s) (gcore s) c d' (ex' c)" and x: "\<And>x. x \<noteq> c \<Longrightarrow> ex' x = ex x"
  shows "core b ex' (s\<lparr>ctrls := (ctrls s)(c \<mapsto> d')\<rparr>)"
proof -
  let ?s = "s\<lparr>ctrls := (ctrls s)(c \<mapsto> d')\<rparr>"
  have i: "inv (sbase b s) s" "\<forall>r. 0 \<le> b r" using c by (simp_all add: core_inv_def)
  have oc: "ocore ?s = ocore s" "gcore ?s = gcore s" "mcore ?s = mcore s" by (simp_all add: ocore_def gcore_def mcore_def fun_eq_iff)
  have pd: "pdevs ?s = pdevs s" using d by (auto simp: pdevs_def)
  have "(\<exists>e. (if y = c then Some d' else ctrls s y) = Some e \<and> user_qid_bitmap e \<noteq> None) \<longleftrightarrow>
      (\<exists>e. ctrls s y = Some e \<and> user_qid_bitmap e \<noteq> None)" for y
    using d by (auto simp del: not_None_eq)
  then have db: "sbase b ?s = sbase b s"
    by (intro ext) (simp add: oc dev_base_def split: resource.splits del: not_None_eq)
  have "inv (sbase b ?s) ?s"
    unfolding db by (rule inv_rebase [OF i(1)]) (use pd i(2) in \<open>simp_all add: dev_base_nonneg\<close>)
  moreover have "grp_wf (ocore s) (gcore s) (ctrls ?s)" using c d(1) by (simp add: core_inv_def grp_wf_def)
  moreover have "qid_wf (ocore s) (gcore s) (ctrls ?s) ex'"
    using qid_wf_ctrl [of "ocore s" "gcore s" "ctrls s" ex c d' ex'] c p x by (simp add: core_inv_def)
  moreover have "hw_wf ?s" using c d(1) by (auto simp: core_inv_def hw_wf_def)
  ultimately show ?thesis using c by (simp add: core_inv_def oc)
qed

lemma core_log_base:
  assumes c: "core b ex s" and h: "\<And>r. held l r - b' r = held (klog s) r - b r" "\<And>r. 0 \<le> b' r"
  shows "core b' ex (s\<lparr>klog := l\<rparr>)"
proof -
  let ?s = "s\<lparr>klog := l\<rparr>"
  have oc: "ocore ?s = ocore s" "gcore ?s = gcore s" "mcore ?s = mcore s" by (simp_all add: ocore_def gcore_def mcore_def fun_eq_iff)
  have i: "inv (sbase b s) s" using c by (simp add: core_inv_def)
  have "inv (sbase b' ?s) ?s"
    by (rule inv_rebase [OF i]) (use h in \<open>simp_all add: oc pdevs_def dev_base_nonneg, simp add: dev_base_def algebra_simps\<close>)
  then show ?thesis using c h(2) by (simp add: core_inv_def oc hw_wf_def)
qed

lemma core_log:
  assumes "core b ex s" "\<And>r. held l r = held (klog s) r"
  shows "core b ex (s\<lparr>klog := l\<rparr>)"
  by (rule core_log_base [OF assms(1)]) (use assms in \<open>simp_all add: core_inv_def\<close>)

lemma pool_init_core:
  assumes c: "core b (\<lambda>_. {}) s" and d: "ctrls s c = Some d" and nd: "unat (ctrl_max_io_queues ndev) < 65536"
    and r: "pool_init env c ndev s = (rc, s')"
  shows "\<exists>d' es. core b (\<lambda>_. {}) s' \<and> s' = s\<lparr>klog := es @ klog s, ctrls := (ctrls s)(c \<mapsto> d')\<rparr> \<and>
    c_pdev d' = c_pdev d \<and> (rc = 0 \<longrightarrow> pool_ok d') \<and> pool_used d' = pool_used d \<and>
    set es \<subseteq> {Acq (RBitmap c), Note ''alloc failed'' 0}"
proof -
  have pw: "pool_wf (ocore s) (gcore s) c d {}" using c d by (simp add: core_inv_def qid_wf_def)
  have same: "(ctrls s)(c \<mapsto> d) = ctrls s" using d by auto
  show ?thesis
  proof (cases "user_qid_bitmap d")
    case (Some bm)
    then have "rc = 0" "s' = s" using r d same by (auto simp: pool_init_def snvm_user_qid_pool_init_locked_def ENOMEM_def)
    then show ?thesis using c pw Some same by (intro exI [of _ d] exI [of _ "[]"]) (simp add: pool_wf_def)
  next
    case None
    obtain d' where i: "snvm_user_qid_pool_init_locked (kmalloc env (klog s) \<noteq> NULL) (Some ndev) d = (rc, d')"
      using r d by (auto simp: pool_init_def split: prod.splits)
    have sp: "d' = d \<and> rc \<noteq> 0 \<or> rc = 0 \<and> pool_used d' = {} \<and> pool_ok d'"
      using pool_init_spec [OF None, of "kmalloc env (klog s) \<noteq> NULL" "Some ndev"] i nd
      by (auto simp: ENODEV_def EBUSY_def ENOMEM_def split: if_splits)
    have pd: "c_pdev d' = c_pdev d"
      using i None by (auto simp: snvm_user_qid_pool_init_locked_def Let_def split: if_splits)
    have u0: "pool_used d = {}" using None by (auto simp: pool_used_def)
    show ?thesis
    proof (cases "rc = 0")
      case False
      then have "d' = d" using sp by auto
      then have s': "s' = s \<or> s' = s\<lparr>klog := Note ''alloc failed'' 0 # klog s\<rparr>"
        using r d i None same by (auto simp: pool_init_def emit_def split: if_splits)
      then have "core b (\<lambda>_. {}) s'" using c core_log [OF c, of "Note ''alloc failed'' 0 # klog s"] by auto
      moreover have "\<exists>es. s' = s\<lparr>klog := es @ klog s, ctrls := (ctrls s)(c \<mapsto> d)\<rparr> \<and> set es \<subseteq> {Acq (RBitmap c), Note ''alloc failed'' 0}"
        using s' same by (auto intro: exI [of _ "[]"] exI [of _ "[Note ''alloc failed'' 0]"])
      ultimately show ?thesis using False \<open>d' = d\<close> by blast
    next
      case True
      then have d': "pool_used d' = {}" "pool_ok d'" using sp by auto
      then have d'': "user_qid_bitmap d' \<noteq> None" by (cases "user_qid_bitmap d'") (auto simp: pool_ok_def)
      let ?s = "s\<lparr>klog := Acq (RBitmap c) # klog s, ctrls := (ctrls s)(c \<mapsto> d')\<rparr>"
      have s': "s' = ?s" using r d i None d'' by (auto simp: pool_init_def emit_def)
      have iv: "inv (sbase b s) s" "\<forall>r. 0 \<le> b r" using c by (simp_all add: core_inv_def)
      have oc: "ocore ?s = ocore s" "gcore ?s = gcore s" "mcore ?s = mcore s" by (simp_all add: ocore_def gcore_def mcore_def fun_eq_iff)
      have pdv: "pdevs ?s = pdevs s" using d pd by (auto simp: pdevs_def)
      have bm: "(\<exists>e. (ctrls ?s) y = Some e \<and> user_qid_bitmap e \<noteq> None) \<longleftrightarrow>
          y = c \<or> (\<exists>e. ctrls s y = Some e \<and> user_qid_bitmap e \<noteq> None)" for y
        using d'' by (auto simp del: not_None_eq)
      have nb: "\<not> (\<exists>e. ctrls s c = Some e \<and> user_qid_bitmap e \<noteq> None)" using d None by simp
      have db: "sbase b ?s r = sbase b s r + (if r = RBitmap c then 1 else 0)" for r
        unfolding dev_base_def oc using nb d'' by (cases r) (auto simp: bm simp del: not_None_eq)
      have "inv (sbase b ?s) ?s"
        by (rule inv_rebase [OF iv(1)]) (use pdv iv(2) db dev_base_nonneg [OF iv(2)] in simp_all)
      moreover have "pool_wf (ocore s) (gcore s) c d' {}" using pw d' u0 by (simp add: pool_wf_def)
      then have "qid_wf (ocore s) (gcore s) (ctrls ?s) (\<lambda>_. {})"
        using qid_wf_ctrl [of "ocore s" "gcore s" "ctrls s" "\<lambda>_. {}" c d' "\<lambda>_. {}"] c by (simp add: core_inv_def)
      moreover have "grp_wf (ocore s) (gcore s) (ctrls ?s)" "hw_wf ?s" using c d by (auto simp: core_inv_def grp_wf_def hw_wf_def)
      ultimately have "core b (\<lambda>_. {}) s'" using c unfolding s' by (simp add: core_inv_def oc del: fun_upd_apply)
      then show ?thesis using s' True d' u0 pd by (intro exI [of _ d'] exI [of _ "[Acq (RBitmap c)]"]) simp
    qed
  qed
qed

lemma pool_alloc_core:
  assumes c: "core b (\<lambda>_. {}) s" and d: "ctrls s c = Some d" "pool_ok d"
    and r: "pool_alloc c nr s = (rc, qids, s')"
  shows "if rc = 0 then \<exists>d'. s' = s\<lparr>ctrls := (ctrls s)(c \<mapsto> d')\<rparr> \<and> core b ((\<lambda>_. {})(c := set qids)) s' \<and>
      c_pdev d' = c_pdev d \<and> distinct qids \<and> length qids = nr \<and> pool_ok d' \<and> set qids \<subseteq> pool_used d' \<and>
      pool_used d' - set qids = pool_used d \<and> set qids \<subseteq> pool_range d - pool_used d
    else s' = s"
proof -
  obtain d' where a: "snvm_user_qid_alloc_locked d nr = (rc, qids, d')" and s': "s' = s\<lparr>ctrls := (ctrls s)(c \<mapsto> d')\<rparr>"
    using r d(1) by (auto simp: pool_alloc_def split: prod.splits)
  show ?thesis
  proof (cases "rc = 0")
    case False
    then have "d' = d" using qid.alloc_fail [OF d(2) a] by blast
    moreover have "(ctrls s)(c \<mapsto> d) = ctrls s" using d(1) by auto
    ultimately show ?thesis using False s' by simp
  next
    case True
    then have ok: "pool_ok d'" "distinct qids" "length qids = nr" "set qids \<subseteq> pool_range d - pool_used d"
      "pool_used d' = pool_used d \<union> set qids"
      using qid.alloc_ok [OF d(2), of nr qids d'] a by auto
    have pd: "c_pdev d' = c_pdev d" "user_qid_bitmap d' = None \<longleftrightarrow> user_qid_bitmap d = None"
      using a d(2) by (auto simp: snvm_user_qid_alloc_locked_def pool_ok_def split: option.splits prod.splits)
    have pw: "pool_wf (ocore s) (gcore s) c d {}" using c d by (simp add: core_inv_def qid_wf_def)
    have "pool_wf (ocore s) (gcore s) c d' (((\<lambda>_. {})(c := set qids)) c)"
      using pw ok by (auto simp: pool_wf_def)
    then have "core b ((\<lambda>_. {})(c := set qids)) s'"
      unfolding s' by (intro core_ctrl_upd [OF c d(1) pd]) auto
    then show ?thesis using True s' ok pd(1) by auto
  qed
qed

lemma free_qids_core:
  assumes c: "core b ((\<lambda>_. {})(c := set qs)) s" and d: "ctrls s c = Some d"
  shows "core b (\<lambda>_. {}) (s\<lparr>ctrls := (ctrls s)(c \<mapsto> free_all_qids qs d)\<rparr>)"
proof -
  have "pool_wf (ocore s) (gcore s) c d (set qs)"
    using c d by (auto simp: core_inv_def qid_wf_def split: if_splits)
  then have "pool_wf (ocore s) (gcore s) c (free_all_qids qs d) {}"
    using free_all_qids_pool [of d qs] by (auto simp: pool_wf_def)
  then show ?thesis
    by (intro core_ctrl_upd [OF c d]) auto
qed

end

section \<open>Creating and deleting queues on the controller\<close>

text \<open>
  The submission and completion queues that exist on a controller, by the admin commands
  that it completed successfully.
\<close>

fun hwq :: "pdev \<Rightarrow> history \<Rightarrow> u16 set \<times> u16 set" where
  "hwq d [] = ({}, {})"
| "hwq d (Admin e c rc # l) =
     (case hwq d l of (sq, cq) \<Rightarrow>
        if e = d \<and> rc = 0 then
          (case c of Create_CQ a q n f v \<Rightarrow> (sq, insert q cq) | Create_SQ a q n f v \<Rightarrow> (insert q sq, cq)
           | Delete_SQ q \<Rightarrow> (sq - {q}, cq) | Delete_CQ q \<Rightarrow> (sq, cq - {q}))
        else (sq, cq))"
| "hwq d (e # l) = hwq d l"

text \<open>The controller carries out every deletion.\<close>

definition deletes_ok :: "'e dev_env_scheme \<Rightarrow> bool" where
  "deletes_ok env \<longleftrightarrow> (\<forall>l d q. submit_sync_cmd env l d (Delete_SQ q) = 0 \<and> submit_sync_cmd env l d (Delete_CQ q) = 0)"

definition hw_minus :: "u16 set \<times> u16 set \<Rightarrow> u16 set \<Rightarrow> u16 set \<times> u16 set" where
  "hw_minus h I = (fst h - I, snd h - I)"

definition hw_plus :: "u16 set \<times> u16 set \<Rightarrow> u16 set \<Rightarrow> u16 set \<times> u16 set" where
  "hw_plus h I = (fst h \<union> I, snd h \<union> I)"

lemma hw_minus_minus: "hw_minus (hw_minus h I) J = hw_minus h (I \<union> J)"
  by (auto simp: hw_minus_def)

lemma hw_minus_plus: "fst h \<inter> J = {} \<Longrightarrow> snd h \<inter> J = {} \<Longrightarrow> I \<subseteq> J \<Longrightarrow> hw_minus (hw_plus h I) I = h"
  by (cases h) (auto simp: hw_minus_def hw_plus_def)

lemma hw_plus_plus: "hw_plus (hw_plus h I) J = hw_plus h (I \<union> J)"
  by (auto simp: hw_plus_def)

lemma hw_empty [simp]: "hw_plus h {} = h" "hw_minus h {} = h"
  by (simp_all add: hw_plus_def hw_minus_def)

lemma hwq_other: "\<forall>e \<in> set es. \<forall>d c rc. e \<noteq> Admin d c rc \<Longrightarrow> hwq d (es @ l) = hwq d l"
proof (induction es)
  case (Cons e es)
  then show ?case by (cases e) auto
qed simp

lemma hwq_delete_pair:
  "deletes_ok env \<Longrightarrow> hwq d (klog (delete_pair env d q s)) = hw_minus (hwq d (klog s)) {q}"
  by (simp add: delete_pair_def adapter_delete_cq_def adapter_delete_sq_def adapter_delete_queue_def
      adapter_cmd_def Let_def deletes_ok_def hw_minus_def split: prod.splits)

lemma hwq_delete_pairs:
  "deletes_ok env \<Longrightarrow> hwq d (klog (fold (delete_pair env d) qs s)) = hw_minus (hwq d (klog s)) (set qs)"
  by (induction qs arbitrary: s) (simp_all add: hwq_delete_pair hw_minus_minus)

lemma hwq_create_cq:
  assumes "adapter_alloc_cq_user env d ndev m q s = (rc, s')"
  shows "hwq d (klog s') = (fst (hwq d (klog s)), snd (hwq d (klog s)) \<union> (if rc = 0 then {q} else {}))"
  using assms by (auto simp: adapter_alloc_cq_user_def adapter_cmd_def Let_def KERNEL_OOPS_def
      split: option.splits list.splits prod.splits)

lemma hwq_create_sq:
  assumes "adapter_alloc_sq_user env d ndev m q s = (rc, s')"
  shows "hwq d (klog s') = (fst (hwq d (klog s)) \<union> (if rc = 0 then {q} else {}), snd (hwq d (klog s)))"
  using assms by (auto simp: adapter_alloc_sq_user_def adapter_cmd_def Let_def KERNEL_OOPS_def
      split: option.splits list.splits prod.splits)

lemma hwq_delete_cq:
  "deletes_ok env \<Longrightarrow> hwq d (klog (snd (adapter_delete_cq env d q s))) = (fst (hwq d (klog s)), snd (hwq d (klog s)) - {q})"
  by (simp add: adapter_delete_cq_def adapter_delete_queue_def adapter_cmd_def Let_def deletes_ok_def split: prod.splits)

text \<open>Whether the batch succeeds or not, exactly the complete pairs are on the controller.\<close>

lemma hwq_create_pairs:
  assumes "create_pairs env d ndev xs n s = (rc, k, s')" "deletes_ok env"
    "\<forall>x \<in> set xs. fst x \<notin> snd (hwq d (klog s))" "distinct (map fst xs)"
  shows "hwq d (klog s') = hw_plus (hwq d (klog s)) (set (take (k - n) (map fst xs))) \<and> n \<le> k \<and> (rc = 0 \<longrightarrow> k = n + length xs)"
  using assms
proof (induction xs arbitrary: n s)
  case Nil
  then show ?case by simp
next
  case (Cons x xs)
  obtain q m1 m2 where x: "x = (q, m1, m2)" by (cases x)
  obtain r1 s1 where c1: "adapter_alloc_cq_user env d ndev m2 q s = (r1, s1)" by fastforce
  show ?case
  proof (cases "r1 = 0")
    case False
    then show ?thesis using Cons.prems(1) x c1 hwq_create_cq [OF c1] by auto
  next
    case True
    obtain r2 s2 where c2: "adapter_alloc_sq_user env d ndev m1 q s1 = (r2, s2)" by fastforce
    have h2: "hwq d (klog s2) = (fst (hwq d (klog s)) \<union> (if r2 = 0 then {q} else {}), insert q (snd (hwq d (klog s))))"
      using hwq_create_sq [OF c2] hwq_create_cq [OF c1] True by auto
    show ?thesis
    proof (cases "r2 = 0")
      case False
      then have "rc \<noteq> 0" "k = n" "s' = snd (adapter_delete_cq env d q s2)" using Cons.prems(1) x c1 c2 True by auto
      then show ?thesis using hwq_delete_cq [OF Cons.prems(2), of d q s2] h2 False Cons.prems(3) x by (simp add: prod_eq_iff)
    next
      case r2: True
      then have "create_pairs env d ndev xs (n + 1) s2 = (rc, k, s')" using Cons.prems(1) x c1 c2 True by simp
      moreover have p: "hwq d (klog s2) = hw_plus (hwq d (klog s)) {q}" using h2 r2 by (simp add: hw_plus_def)
      moreover have "\<forall>y \<in> set xs. fst y \<notin> snd (hwq d (klog s2))"
        using Cons.prems(3,4) x p by (force simp: hw_plus_def)
      ultimately have ih: "hwq d (klog s') = hw_plus (hw_plus (hwq d (klog s)) {q}) (set (take (k - (n + 1)) (map fst xs)))"
        "n + 1 \<le> k" "rc = 0 \<longrightarrow> k = n + 1 + length xs"
        using Cons.IH [of "n + 1" s2] Cons.prems(2,4) by simp_all
      then have "k - n = Suc (k - (n + 1))" by simp
      then show ?thesis using ih x by (simp add: hw_plus_plus insert_is_Un [symmetric])
    qed
  qed
qed

lemma emit_neutral: "neutral e \<Longrightarrow> \<exists>e'. neutral e' \<and> emit e t = t\<lparr>klog := e' # klog t\<rparr>"
  by (auto simp: emit_def)

lemma create_pairs_log:
  assumes "create_pairs env d ndev xs n s = (rc, k, s')"
  shows "\<exists>es. s' = s\<lparr>klog := es @ klog s\<rparr> \<and> (\<forall>e \<in> set es. neutral e) \<and> n \<le> k \<and> k \<le> n + length xs"
  using assms
proof (induction xs arbitrary: n s)
  case Nil
  then show ?case by (auto intro: exI [of _ "[]"])
next
  case (Cons x xs)
  obtain q m1 m2 where x: "x = (q, m1, m2)" by (cases x)
  have al: "\<exists>e. neutral e \<and> snd (adapter_alloc_cq_user env d ndev m q t) = t\<lparr>klog := e # klog t\<rparr>"
    "\<exists>e. neutral e \<and> snd (adapter_alloc_sq_user env d ndev m q t) = t\<lparr>klog := e # klog t\<rparr>"
    "\<exists>e. neutral e \<and> snd (adapter_delete_cq env d q t) = t\<lparr>klog := e # klog t\<rparr>" for m t
    by (auto simp: adapter_alloc_cq_user_def adapter_alloc_sq_user_def adapter_delete_cq_def adapter_delete_queue_def
        adapter_cmd_def Let_def intro!: emit_neutral split: option.splits list.splits)
  obtain r1 s1 where c1: "adapter_alloc_cq_user env d ndev m2 q s = (r1, s1)" by fastforce
  obtain e1 where e1: "neutral e1" "s1 = s\<lparr>klog := e1 # klog s\<rparr>" using al(1) [of m2 s] c1 by auto
  show ?case
  proof (cases "r1 = 0")
    case False
    then show ?thesis using Cons.prems x c1 e1 by (intro exI [of _ "[e1]"]) auto
  next
    case True
    obtain r2 s2 where c2: "adapter_alloc_sq_user env d ndev m1 q s1 = (r2, s2)" by fastforce
    obtain e2 where e2: "neutral e2" "s2 = s1\<lparr>klog := e2 # klog s1\<rparr>" using al(2) [of m1 s1] c2 by auto
    show ?thesis
    proof (cases "r2 = 0")
      case False
      obtain e3 where e3: "neutral e3" "snd (adapter_delete_cq env d q s2) = s2\<lparr>klog := e3 # klog s2\<rparr>" using al(3) by blast
      then show ?thesis using Cons.prems x c1 c2 e1 e2 True False by (intro exI [of _ "[e3, e2, e1]"]) auto
    next
      case r2: True
      then have "create_pairs env d ndev xs (n + 1) s2 = (rc, k, s')" using Cons.prems x c1 c2 True by simp
      from Cons.IH [OF this] obtain es where es: "s' = s2\<lparr>klog := es @ klog s2\<rparr>" "\<forall>e \<in> set es. neutral e"
        "n + 1 \<le> k" "k \<le> n + 1 + length xs" by blast
      then show ?thesis using e1 e2 by (intro exI [of _ "es @ [e2, e1]"]) auto
    qed
  qed
qed

lemma delete_pairs_log:
  "\<exists>es. fold (delete_pair env d) qs s = s\<lparr>klog := es @ klog s\<rparr> \<and> (\<forall>e \<in> set es. neutral e)"
proof (induction qs arbitrary: s)
  case Nil
  show ?case by (intro exI [of _ "[]"]) simp
next
  case (Cons q qs)
  obtain es where "\<forall>e \<in> set es. neutral e" "delete_pair env d q s = s\<lparr>klog := es @ klog s\<rparr>"
  proof -
    obtain r1 r2 where d: "delete_pair env d q s = s\<lparr>klog := [Admin d (Delete_CQ q) r2, Admin d (Delete_SQ q) r1] @ klog s\<rparr>"
      by (simp add: delete_pair_def adapter_delete_cq_def adapter_delete_sq_def adapter_delete_queue_def
          adapter_cmd_def Let_def emit_def)
    show thesis by (rule that [OF _ d]) simp
  qed
  moreover obtain es' where "fold (delete_pair env d) qs (delete_pair env d q s) =
      delete_pair env d q s\<lparr>klog := es' @ klog (delete_pair env d q s)\<rparr>" "\<forall>e \<in> set es'. neutral e"
    using Cons.IH by blast
  ultimately show ?case by (intro exI [of _ "es' @ es"]) auto
qed

lemma free_qids_fold:
  assumes "ctrls s c = Some d"
  shows "fold (free_qid c) qs s = s\<lparr>ctrls := (ctrls s)(c \<mapsto> free_all_qids qs d)\<rparr>"
  using assms
proof (induction qs arbitrary: s d)
  case Nil
  then have "(ctrls s)(c \<mapsto> d) = ctrls s" by auto
  then show ?case by (simp add: free_all_qids_def)
next
  case (Cons q qs)
  let ?s = "s\<lparr>ctrls := (ctrls s)(c \<mapsto> snvm_user_qid_free_locked d q)\<rparr>"
  have "free_qid c q s = ?s" using Cons.prems by (simp add: free_qid_def upd_ctrl_def)
  moreover have "fold (free_qid c) qs ?s = s\<lparr>ctrls := (ctrls s)(c \<mapsto> free_all_qids qs (snvm_user_qid_free_locked d q))\<rparr>"
    using Cons.IH [of ?s "snvm_user_qid_free_locked d q"] by simp (simp add: fun_upd_def cong: if_cong)
  ultimately show ?case by (simp only: free_all_qids_def fold_Cons o_apply)
qed

lemma revert_fold:
  assumes "ctrls s c = Some d0"
  shows "\<exists>es. fold (\<lambda>uq s. free_qid c (uq_qid uq) (delete_pair env d (uq_qid uq) s)) uqs s =
      s\<lparr>klog := es @ klog s, ctrls := (ctrls s)(c \<mapsto> free_all_qids (map uq_qid uqs) d0)\<rparr> \<and> (\<forall>e \<in> set es. neutral e)"
  using assms
proof (induction uqs arbitrary: s d0)
  case Nil
  then have "(ctrls s)(c \<mapsto> d0) = ctrls s" by auto
  then show ?case by (intro exI [of _ "[]"]) (simp add: free_all_qids_def)
next
  case (Cons u uqs)
  let ?q = "uq_qid u"
  obtain es where es: "delete_pair env d ?q s = s\<lparr>klog := es @ klog s\<rparr>" "\<forall>e \<in> set es. neutral e"
    using delete_pairs_log [of env d "[?q]" s] by auto
  let ?d = "snvm_user_qid_free_locked d0 ?q"
  let ?s = "s\<lparr>klog := es @ klog s, ctrls := (ctrls s)(c \<mapsto> ?d)\<rparr>"
  have "free_qid c ?q (delete_pair env d ?q s) = ?s" using Cons.prems es by (simp add: free_qid_def upd_ctrl_def)
  moreover have "ctrls ?s c = Some ?d" by simp
  from Cons.IH [OF this] obtain es' where "fold (\<lambda>uq s. free_qid c (uq_qid uq) (delete_pair env d (uq_qid uq) s)) uqs ?s =
      ?s\<lparr>klog := es' @ klog ?s, ctrls := (ctrls ?s)(c \<mapsto> free_all_qids (map uq_qid uqs) ?d)\<rparr>" "\<forall>e \<in> set es'. neutral e"
    by blast
  ultimately show ?case using es(2)
    by (intro exI [of _ "es' @ es"]) (auto simp: free_all_qids_def fun_upd_def cong: if_cong)
qed

lemma free_qid_klog: "ctrls s c \<noteq> None \<Longrightarrow> klog (free_qid c q s) = klog s"
  by (auto simp: free_qid_def upd_ctrl_def)

lemma hwq_revert_fold:
  assumes "deletes_ok env" "ctrls s c \<noteq> None"
  shows "hwq d (klog (fold (\<lambda>uq s. free_qid c (uq_qid uq) (delete_pair env d (uq_qid uq) s)) uqs s)) =
    hw_minus (hwq d (klog s)) (set (map uq_qid uqs))"
  using assms(2)
proof (induction uqs arbitrary: s)
  case (Cons u uqs)
  have "ctrls (delete_pair env d (uq_qid u) s) = ctrls s"
    by (simp add: delete_pair_def adapter_delete_cq_def adapter_delete_sq_def adapter_delete_queue_def
        adapter_cmd_def Let_def emit_def)
  then have k: "klog (free_qid c (uq_qid u) (delete_pair env d (uq_qid u) s)) = klog (delete_pair env d (uq_qid u) s)"
    "ctrls (free_qid c (uq_qid u) (delete_pair env d (uq_qid u) s)) c \<noteq> None"
    using Cons.prems by (auto simp: free_qid_def upd_ctrl_def)
  then show ?case using Cons.IH [OF k(2)] hwq_delete_pair [OF assms(1), of d "uq_qid u" s] by (simp add: hw_minus_minus)
qed simp

section \<open>The slots of a group\<close>

lemma set_slots_eq:
  "i + length us \<le> length qs \<Longrightarrow> set_slots i us qs = take i qs @ us @ drop (i + length us) qs"
proof (induction us arbitrary: i qs)
  case (Cons u us)
  then have "set_slots i (u # us) qs = take (i + 1) (qs[i := u]) @ us @ drop (i + 1 + length us) (qs[i := u])"
    by simp
  also have "take (i + 1) (qs[i := u]) = take i qs @ [u]"
    using Cons.prems by (simp add: take_Suc_conv_app_nth)
  finally show ?case using Cons.prems by simp
qed simp

lemma length_live: "slots_ok qs cur \<Longrightarrow> length (live_qids qs) = unat cur"
  by (simp add: live_take) (simp add: slots_ok_def)

text \<open>Committing a batch: the slots after the live ones take the new identifiers.\<close>

lemma commit_slots:
  assumes w: "slots_ok qs cur" and n: "unat cur + length ids \<le> NVM_MAX_QUEUES_PER_GROUP"
  defines "qs' \<equiv> set_slots (unat cur) (map (\<lambda>q. \<lparr>uq_qid = q, uq_alive = True\<rparr>) ids) qs"
  shows "slots_ok qs' (cur + of_nat (length ids))" "live_qids qs' = live_qids qs @ ids"
    "unat (cur + of_nat (length ids)) = unat cur + length ids"
proof -
  have l: "length qs = NVM_MAX_QUEUES_PER_GROUP" "\<And>i. i < NVM_MAX_QUEUES_PER_GROUP \<Longrightarrow> uq_alive (qs ! i) \<longleftrightarrow> i < unat cur"
    using w by (auto simp: slots_ok_def)
  show u: "unat (cur + of_nat (length ids)) = unat cur + length ids"
    using n by (simp add: unat_word_ariths unat_of_nat NVM_MAX_QUEUES_PER_GROUP_def)
  have q: "qs' = take (unat cur) qs @ map (\<lambda>q. \<lparr>uq_qid = q, uq_alive = True\<rparr>) ids @ drop (unat cur + length ids) qs"
    unfolding qs'_def using n l(1) by (subst set_slots_eq) simp_all
  have "uq_alive (qs' ! i) \<longleftrightarrow> i < unat cur + length ids" if "i < NVM_MAX_QUEUES_PER_GROUP" for i
    using that l n by (auto simp: q nth_append)
  then show so: "slots_ok qs' (cur + of_nat (length ids))"
    using n l(1) u by (auto simp: slots_ok_def q)
  show "live_qids qs' = live_qids qs @ ids"
    unfolding live_take [OF so] live_take [OF w] u using n l(1) by (simp add: q o_def)
qed

lemma revert_slots:
  assumes w: "slots_ok qs cur" and n: "n \<le> unat cur"
  defines "first \<equiv> unat (cur - of_nat n)"
  defines "uqs \<equiv> take n (drop first qs)"
  defines "qs' \<equiv> set_slots first (map (\<lambda>uq. uq\<lparr>uq_alive := False\<rparr>) uqs) qs"
  shows "slots_ok qs' (cur - of_nat n)" "live_qids qs = live_qids qs' @ map uq_qid uqs" "first = unat cur - n"
proof -
  have l: "length qs = NVM_MAX_QUEUES_PER_GROUP" "\<And>i. i < NVM_MAX_QUEUES_PER_GROUP \<Longrightarrow> uq_alive (qs ! i) \<longleftrightarrow> i < unat cur"
    "unat cur \<le> NVM_MAX_QUEUES_PER_GROUP"
    using w by (auto simp: slots_ok_def)
  have "of_nat n \<le> cur" using n l(3) by (simp add: word_le_nat_alt unat_of_nat NVM_MAX_QUEUES_PER_GROUP_def)
  moreover have "unat (of_nat n :: u32) = n"
    using n l(3) by (simp add: unat_of_nat NVM_MAX_QUEUES_PER_GROUP_def)
  ultimately show f: "first = unat cur - n" unfolding first_def by (simp add: unat_sub)
  have lu: "length uqs = n" using f n l by (simp add: uqs_def)
  have q: "qs' = take first qs @ map (\<lambda>uq. uq\<lparr>uq_alive := False\<rparr>) uqs @ drop (unat cur) qs"
    unfolding qs'_def using n l f lu by (subst set_slots_eq) simp_all
  have "uq_alive (qs' ! i) \<longleftrightarrow> i < first" if "i < NVM_MAX_QUEUES_PER_GROUP" for i
    using that l n f lu by (auto simp: q nth_append)
  then show so: "slots_ok qs' (cur - of_nat n)"
    using n l f lu first_def by (auto simp: slots_ok_def q)
  have "take (unat cur) qs = take first qs @ uqs" unfolding uqs_def f using n by (metis le_add_diff_inverse2 take_add)
  then show "live_qids qs = live_qids qs' @ map uq_qid uqs"
    unfolding live_take [OF so] live_take [OF w] using f n l first_def by (simp add: q)
qed

section \<open>Identifiers move between the reserved set and the slots\<close>

lemma grp_wf_live:
  assumes w: "grp_wf oc gc cs" and x: "gc g = Some (i, qs0, cur0)" and so: "slots_ok qs cur"
  shows "grp_wf oc (gc(g \<mapsto> (i, qs, cur))) cs"
proof -
  let ?gc = "gc(g \<mapsto> (i, qs, cur))"
  have d: "dom ?gc = dom gc" using x by auto
  have f: "\<exists>a b. gc h = Some (j, a, b)" if "?gc h = Some (j, qs', cur')" for h j qs' cur'
    using that x by (auto split: if_splits)
  have p: "g \<noteq> NULL" "i \<noteq> 0" using w x unfolding grp_wf_def by blast+
  have "h \<noteq> NULL \<and> j \<noteq> 0 \<and> slots_ok qs' cur'" if h: "?gc h = Some (j, qs', cur')" for h j qs' cur'
  proof (cases "h = g")
    case True
    then show ?thesis using h p so by simp
  next
    case False
    then have "gc h = Some (j, qs', cur')" using h by simp
    then show ?thesis using w unfolding grp_wf_def by blast
  qed
  moreover have "g1 = h" if "?gc g1 = Some (j, a, b)" "?gc h = Some (j, a', b')" for g1 h j a b a' b'
    using f [OF that(1)] f [OF that(2)] w unfolding grp_wf_def by blast
  moreover have "\<forall>p c t gs. oc p = Some (c, t, gs) \<longrightarrow> p \<noteq> NULL \<and> c \<noteq> NULL \<and> cs c \<noteq> None"
    "fam_ok (ogroups oc) (dom gc)" "\<forall>g \<in> dom gc. \<exists>p. g \<in> set (ogroups oc p)"
    using w unfolding grp_wf_def by blast+
  ultimately show ?thesis unfolding grp_wf_def d by (intro conjI allI impI; blast)
qed

lemma link_wf_live:
  assumes "link_wf oc gc gl mc" "gc g = Some (i, qs0, cur0)"
  shows "link_wf oc (gc(g \<mapsto> (i, qs, cur))) gl mc"
proof -
  note a = link_wfD [OF assms(1)]
  show ?thesis by (rule link_wfI) (use a assms(2) in \<open>auto split: if_splits\<close>)
qed

lemma dev_base_live:
  assumes "gc g = Some (i, qs0, cur0)"
  shows "dev_base b oc (gc(g \<mapsto> (i, qs, cur))) cs = dev_base b oc gc cs"
proof -
  let ?gc = "gc(g \<mapsto> (i, qs, cur))"
  have n: "(?gc h \<noteq> None) = (gc h \<noteq> None)" for h using assms by auto
  have f: "map_option fst (?gc h) = map_option fst (gc h)" for h using assms by auto
  have k: "(\<exists>x. k h = Some x \<and> unat (fst x) = j) \<longleftrightarrow> (\<exists>y. map_option fst (k h) = Some y \<and> unat y = j)"
    for k :: gcores and h j by auto
  have "(\<exists>h x. ?gc h = Some x \<and> unat (fst x) = j) \<longleftrightarrow> (\<exists>h x. gc h = Some x \<and> unat (fst x) = j)" for j
    unfolding k f ..
  then show ?thesis unfolding dev_base_def by (intro ext) (simp only: n)
qed

lemma live_set: "live (gc(g \<mapsto> (i, qs, cur))) h = (if h = g then live_qids qs else live gc h)"
  by (simp add: live_def)

lemma qid_wf_move:
  assumes q: "qid_wf oc gc cs ex" and w: "grp_wf oc gc cs" and v: "serves oc c g" and d: "cs c = Some d"
    and l: "distinct (live_qids qs)" "ex' c \<inter> set (live_qids qs) = {}"
      "ex' c \<union> set (live_qids qs) = ex c \<union> set (live gc g)"
    and x: "\<And>y. y \<noteq> c \<Longrightarrow> ex' y = ex y"
  shows "qid_wf oc (gc(g \<mapsto> (i, qs, cur))) cs ex'"
proof -
  let ?gc = "gc(g \<mapsto> (i, qs, cur))"
  have q1: "\<And>g. distinct (live gc g)"
    "\<And>c g h. serves oc c g \<Longrightarrow> serves oc c h \<Longrightarrow> g \<noteq> h \<Longrightarrow> set (live gc g) \<inter> set (live gc h) = {}"
    "\<And>c d. cs c = Some d \<Longrightarrow> pool_wf oc gc c d (ex c)" using q unfolding qid_wf_def by blast+
  have ec: "ex c \<inter> cqids oc gc c = {}" using q1(3) [OF d] by (simp add: pool_wf_def)
  have ol: "y = c" if "serves oc y g" for y using serves_unique [OF w that v] .
  have sub: "set (live gc h) \<inter> set (live_qids qs) = {}" "set (live gc h) \<inter> ex c = {}" if h: "serves oc c h" "h \<noteq> g" for h
  proof -
    show e: "set (live gc h) \<inter> ex c = {}" using ec h(1) unfolding cqids_def by blast
    have "set (live gc h) \<inter> set (live gc g) = {}" using q1(2) [OF h(1) v h(2)] .
    then show "set (live gc h) \<inter> set (live_qids qs) = {}" using e l(3) by blast
  qed
  define R where "R = {q. \<exists>h. serves oc c h \<and> h \<noteq> g \<and> q \<in> set (live gc h)}"
  have cq: "cqids oc ?gc c = R \<union> set (live_qids qs)" "cqids oc gc c = R \<union> set (live gc g)"
    using v unfolding cqids_def R_def live_set by (auto split: if_splits)
  have cy: "cqids oc ?gc y = cqids oc gc y" if "y \<noteq> c" for y
  proof -
    have "h \<noteq> g" if "serves oc y h" for h using that ol \<open>y \<noteq> c\<close> by blast
    then show ?thesis unfolding cqids_def live_set by auto
  qed
  have R: "R \<inter> ex c = {}" "R \<inter> set (live gc g) = {}"
    using sub q1(2) [OF _ v] unfolding R_def by blast+
  have "pool_wf oc ?gc y dy (ex' y)" if y: "cs y = Some dy" for y dy
  proof (cases "y = c")
    case True
    have "ex' c \<inter> (R \<union> set (live_qids qs)) = {}" using R l(2,3) by blast
    moreover have "ex' c \<union> (R \<union> set (live_qids qs)) = ex c \<union> (R \<union> set (live gc g))" using l(3) by blast
    ultimately show ?thesis using q1(3) [OF y] unfolding pool_wf_def True cq by simp
  next
    case False
    then show ?thesis using q1(3) [OF y] x [OF False] unfolding pool_wf_def cy [OF False] by simp
  qed
  moreover have "distinct (live ?gc h)" for h using q1(1) l(1) by (simp add: live_set)
  moreover have "set (live ?gc h1) \<inter> set (live ?gc h2) = {}"
    if h: "serves oc y h1" "serves oc y h2" "h1 \<noteq> h2" for y h1 h2
  proof (cases "h1 = g \<or> h2 = g")
    case True
    then have "y = c" using h ol by blast
    then show ?thesis using True h sub(1) [of h1] sub(1) [of h2] by (auto simp: live_set)
  next
    case False
    then show ?thesis using q1(2) [OF h] by (simp add: live_set)
  qed
  ultimately show ?thesis unfolding qid_wf_def by blast
qed

lemma ogroups_ocore: "owners s own = Some w \<Longrightarrow> ocore s own = Some (own_ctrl w, own_owner w, own_groups w)"
  by (simp add: ocore_def)

context dev_backend
begin

text \<open>
  The slots of a group change, and the reserved identifiers of its controller with them.
\<close>

lemma core_group_upd:
  assumes c: "core b ex s" and w: "owners s own = Some w" "g \<in> set (own_groups w)" and gr: "qgroups s g = Some gr"
    and id: "g_group_id (f gr) = g_group_id gr" and so: "slots_ok (g_queues (f gr)) (g_cur_queues (f gr))"
    and l: "distinct (live_qids (g_queues (f gr)))" "ex' (own_ctrl w) \<inter> set (live_qids (g_queues (f gr))) = {}"
      "ex' (own_ctrl w) \<union> set (live_qids (g_queues (f gr))) = ex (own_ctrl w) \<union> set (live_qids (g_queues gr))"
    and x: "\<And>y. y \<noteq> own_ctrl w \<Longrightarrow> ex' y = ex y"
  shows "core b ex' (upd_group g f s)"
proof -
  let ?s = "s\<lparr>qgroups := (qgroups s)(g \<mapsto> f gr)\<rparr>"
  have oc: "ocore ?s = ocore s" "mcore ?s = mcore s" by (simp_all add: ocore_def mcore_def fun_eq_iff)
  have gg: "gcore s g = Some (g_group_id gr, g_queues gr, g_cur_queues gr)" using gr by (simp add: gcore_def)
  have gc: "gcore ?s = (gcore s)(g \<mapsto> (g_group_id gr, g_queues (f gr), g_cur_queues (f gr)))"
    using id by (auto simp: gcore_def fun_eq_iff)
  have lg: "live (gcore s) g = live_qids (g_queues gr)" using gg by (simp add: live_def)
  have a: "inv (sbase b s) s" "grp_wf (ocore s) (gcore s) (ctrls s)" "link_wf (ocore s) (gcore s) (glinks s) (mcore s)"
    "qid_wf (ocore s) (gcore s) (ctrls s) ex" "\<forall>r. 0 \<le> b r" "hw_wf s" using c by (simp_all add: core_inv_def)
  have ow: "ocore s own = Some (own_ctrl w, own_owner w, own_groups w)" using w(1) by (rule ogroups_ocore)
  obtain d where d: "ctrls s (own_ctrl w) = Some d" using a(2) ow unfolding grp_wf_def by blast
  have v: "serves (ocore s) (own_ctrl w) g" using ow w(2) by (rule servesI)
  have "inv (sbase b s) ?s"
    by (rule inv_rebase [OF a(1)]) (use a(5) in \<open>simp_all add: dev_base_nonneg pdevs_def\<close>)
  moreover have "qid_wf (ocore s) (gcore ?s) (ctrls s) ex'"
    unfolding gc by (rule qid_wf_move [OF a(4,2) v d]) (use l x lg in simp_all)
  moreover have "grp_wf (ocore s) (gcore ?s) (ctrls s)" unfolding gc using gg by (rule grp_wf_live [OF a(2) _ so])
  moreover have "link_wf (ocore s) (gcore ?s) (glinks s) (mcore s)" unfolding gc using gg by (rule link_wf_live [OF a(3)])
  moreover have "dev_base b (ocore s) (gcore ?s) (ctrls s) = sbase b s" unfolding gc by (rule dev_base_live [of "gcore s"]) (rule gg)
  moreover have "hw_wf ?s" using a(6) by (simp add: hw_wf_def)
  ultimately have "core b ex' ?s" using a(5) by (simp add: core_inv_def oc)
  then show ?thesis using gr by (simp add: upd_group_def)
qed

lemma commit_core:
  assumes c: "core b ((\<lambda>_. {})(own_ctrl w := set ids)) s" and w: "owners s own = Some w" "g \<in> set (own_groups w)"
    and gr: "qgroups s g = Some gr" and n: "unat (g_cur_queues gr) + length ids \<le> NVM_MAX_QUEUES_PER_GROUP" "distinct ids"
  shows "core b (\<lambda>_. {}) (upd_group g (add_commit ids) s)"
proof -
  have a: "grp_wf (ocore s) (gcore s) (ctrls s)" "qid_wf (ocore s) (gcore s) (ctrls s) ((\<lambda>_. {})(own_ctrl w := set ids))"
    using c by (simp_all add: core_inv_def)
  have ow: "ocore s own = Some (own_ctrl w, own_owner w, own_groups w)" using w(1) by (rule ogroups_ocore)
  have gg: "gcore s g = Some (g_group_id gr, g_queues gr, g_cur_queues gr)" using gr by (simp add: gcore_def)
  have so: "slots_ok (g_queues gr) (g_cur_queues gr)" using a(1) gg unfolding grp_wf_def by blast
  note cs = commit_slots [OF so n(1)]
  obtain d where d: "ctrls s (own_ctrl w) = Some d" using a(1) ow unfolding grp_wf_def by blast
  have v: "serves (ocore s) (own_ctrl w) g" using ow w(2) by (rule servesI)
  have lg: "live (gcore s) g = live_qids (g_queues gr)" using gg by (simp add: live_def)
  have "pool_wf (ocore s) (gcore s) (own_ctrl w) d (set ids)" "distinct (live_qids (g_queues gr))"
    using a(2) d lg unfolding qid_wf_def by (metis fun_upd_same)+
  moreover have "set (live_qids (g_queues gr)) \<subseteq> cqids (ocore s) (gcore s) (own_ctrl w)"
    using v lg unfolding cqids_def by auto
  ultimately have dj: "distinct (live_qids (g_queues gr) @ ids)" using n(2) by (auto simp: pool_wf_def)
  show ?thesis
    by (rule core_group_upd [OF c w gr]) (use cs dj in \<open>auto simp: add_commit_def\<close>)
qed

lemma revert_core:
  assumes c: "core b (\<lambda>_. {}) s" and w: "owners s own = Some w" "g \<in> set (own_groups w)"
    and gr: "qgroups s g = Some gr" and n: "n \<le> unat (g_cur_queues gr)"
    and r: "add_revert env d (own_ctrl w) g n s = s'"
  shows "core b (\<lambda>_. {}) s' \<and> live (gcore s') = (live (gcore s))(g := take (unat (g_cur_queues gr) - n) (live (gcore s) g)) \<and>
    (\<exists>gr' es d'. s' = s\<lparr>klog := es @ klog s, ctrls := (ctrls s)(own_ctrl w \<mapsto> d'), qgroups := (qgroups s)(g \<mapsto> gr')\<rparr> \<and>
      g_max_queues gr' = g_max_queues gr) \<and>
    (deletes_ok env \<longrightarrow> hwq d (klog s') = hw_minus (hwq d (klog s)) (set (drop (unat (g_cur_queues gr) - n) (live (gcore s) g))))"
proof -
  let ?cur = "g_cur_queues gr" and ?c = "own_ctrl w"
  define first where "first = unat (?cur - of_nat n)"
  define uqs where "uqs = take n (drop first (g_queues gr))"
  let ?ids = "map uq_qid uqs"
  define f where "f = (\<lambda>gr :: snvm_qgroup. gr\<lparr>g_queues := set_slots first (map (\<lambda>uq. uq\<lparr>uq_alive := False\<rparr>) uqs) (g_queues gr),
                                g_cur_queues := g_cur_queues gr - of_nat n\<rparr>)"
  have a: "grp_wf (ocore s) (gcore s) (ctrls s)" "qid_wf (ocore s) (gcore s) (ctrls s) (\<lambda>_. {})"
    using c by (simp_all add: core_inv_def)
  have ow: "ocore s own = Some (own_ctrl w, own_owner w, own_groups w)" using w(1) by (rule ogroups_ocore)
  obtain d0 where d0: "ctrls s ?c = Some d0" using a(1) ow unfolding grp_wf_def by blast
  have gg: "gcore s g = Some (g_group_id gr, g_queues gr, ?cur)" using gr by (simp add: gcore_def)
  have so: "slots_ok (g_queues gr) ?cur" using a(1) gg unfolding grp_wf_def by blast
  note rs = revert_slots [OF so n, folded first_def uqs_def]
  have lg: "live (gcore s) g = live_qids (g_queues gr)" using gg by (simp add: live_def)
  have dl: "distinct (live_qids (g_queues gr))" using a(2) lg unfolding qid_wf_def by metis
  obtain es where es: "fold (\<lambda>uq s. free_qid ?c (uq_qid uq) (delete_pair env d (uq_qid uq) s)) uqs s =
      s\<lparr>klog := es @ klog s, ctrls := (ctrls s)(?c \<mapsto> free_all_qids ?ids d0)\<rparr>" "\<forall>e \<in> set es. neutral e"
    using revert_fold [OF d0] by metis
  let ?s1 = "upd_group g f s"
  have s1: "?s1 = s\<lparr>qgroups := (qgroups s)(g \<mapsto> f gr)\<rparr>" using gr by (simp add: upd_group_def)
  have "core b ((\<lambda>_. {})(?c := set ?ids)) ?s1"
    by (rule core_group_upd [OF c w gr]) (use rs dl in \<open>auto simp: f_def\<close>)
  then have "core b (\<lambda>_. {}) (?s1\<lparr>ctrls := (ctrls ?s1)(?c \<mapsto> free_all_qids ?ids d0)\<rparr>)"
    by (rule free_qids_core) (simp add: s1 d0)
  then have "core b (\<lambda>_. {}) (?s1\<lparr>ctrls := (ctrls ?s1)(?c \<mapsto> free_all_qids ?ids d0)\<rparr>\<lparr>klog := es @ klog s\<rparr>)"
    by (rule core_log) (simp add: s1 held_neutral [OF es(2)])
  moreover have s': "s' = s\<lparr>klog := es @ klog s, ctrls := (ctrls s)(?c \<mapsto> free_all_qids ?ids d0), qgroups := (qgroups s)(g \<mapsto> f gr)\<rparr>"
    using r gr es(1) by (simp add: add_revert_def Let_def first_def [symmetric] uqs_def [symmetric] upd_group_def f_def)
  moreover have "s' = ?s1\<lparr>ctrls := (ctrls ?s1)(?c \<mapsto> free_all_qids ?ids d0)\<rparr>\<lparr>klog := es @ klog s\<rparr>"
    unfolding s' s1 by (cases s) simp
  ultimately have "core b (\<lambda>_. {}) s'" by simp
  moreover have "live_qids (g_queues (f gr)) = take first (live_qids (g_queues gr))"
    using rs(2) length_live [OF rs(1)] by (simp add: f_def first_def)
  then have "live (gcore s') = (live (gcore s))(g := take (unat ?cur - n) (live (gcore s) g))"
    using rs(3) gr by (auto simp: s' live_def gcore_def fun_eq_iff split: option.splits)
  moreover have "g_max_queues (f gr) = g_max_queues gr" by (simp add: f_def)
  moreover have "deletes_ok env \<longrightarrow> hwq d (klog s') = hw_minus (hwq d (klog s)) (set (drop (unat ?cur - n) (live (gcore s) g)))"
  proof
    assume "deletes_ok env"
    from hwq_revert_fold [OF this, of s ?c d uqs] have "hwq d (klog s') = hw_minus (hwq d (klog s)) (set ?ids)"
      using d0 es(1) s' by simp
    moreover have "drop first (live_qids (g_queues gr)) = ?ids"
      using rs(2) length_live [OF rs(1)] by (simp add: first_def)
    ultimately show "hwq d (klog s') = hw_minus (hwq d (klog s)) (set (drop (unat ?cur - n) (live (gcore s) g)))"
      using rs(3) lg by simp
  qed
  ultimately show ?thesis using s' by blast
qed

end

text \<open>
  The outcome of adding queues: on success the group has the new identifiers after its live
  ones, and they are new on the controller; on an error every group has the live queues it had.
  If the queues that exist on the controller were the live ones and deletions succeed, they still are.
\<close>

definition in_sync :: "'a dev_st_scheme \<Rightarrow> pdev \<Rightarrow> ptr \<Rightarrow> bool" where
  "in_sync s d c \<longleftrightarrow> hwq d (klog s) = (cqids (ocore s) (gcore s) c, cqids (ocore s) (gcore s) c)"

definition added :: "ptr \<Rightarrow> int \<Rightarrow> nat \<Rightarrow> 'a dev_st_scheme \<Rightarrow> 'a dev_st_scheme \<Rightarrow> bool" where
  "added g rc n s s' \<longleftrightarrow>
     (if rc = 0 then \<exists>ids. length ids = n \<and> live (gcore s') = (live (gcore s))(g := live (gcore s) g @ ids)
      else live (gcore s') = live (gcore s))"

definition keeps_sync :: "bool \<Rightarrow> 'e dev_env_scheme \<Rightarrow> ptr \<Rightarrow> 'a dev_st_scheme \<Rightarrow> 'a dev_st_scheme \<Rightarrow> bool" where
  "keeps_sync whole env c s s' \<longleftrightarrow>
     (whole \<and> deletes_ok env \<and> in_sync s (ctrl_pdev s c) c \<longrightarrow> in_sync s' (ctrl_pdev s c) c)"

lemma in_sync_cong:
  "in_sync s d c \<Longrightarrow> owners s' = owners s \<Longrightarrow> live (gcore s') = live (gcore s) \<Longrightarrow> hwq d (klog s') = hwq d (klog s) \<Longrightarrow> in_sync s' d c"
  by (simp add: in_sync_def cqids_def serves_def ocore_def)

lemma in_sync_add:
  assumes "in_sync s d c" "owners s' = owners s" "live (gcore s') = (live (gcore s))(g := live (gcore s) g @ ids)"
    "hwq d (klog s') = hw_plus (hwq d (klog s)) (set ids)" "serves (ocore s) c g"
  shows "in_sync s' d c"
proof -
  have "serves (ocore s') = serves (ocore s)" using assms(2) by (simp add: serves_def ocore_def fun_eq_iff)
  then have "cqids (ocore s') (gcore s') c = cqids (ocore s) (gcore s) c \<union> set ids"
    using assms(5) unfolding cqids_def assms(3) by (auto split: if_splits)
  then show ?thesis using assms(1,4) by (simp add: in_sync_def hw_plus_def)
qed

lemma resolve_pairs_length: "resolve_pairs s gm prs = Some rings \<Longrightarrow> length rings = length prs"
  by (induction prs arbitrary: rings) (auto split: prod.splits if_splits option.splits)

context dev_backend
begin

lemma cnt_wf_group:
  "cnt_wf s \<Longrightarrow> owners s' = owners s \<Longrightarrow> qgroups s' = (qgroups s)(g \<mapsto> gr') \<Longrightarrow> qgroups s g = Some gr \<Longrightarrow>
   g_max_queues gr' = g_max_queues gr \<Longrightarrow> cnt_wf s'"
  by (auto simp: cnt_wf_def)

lemma rollback_good:
  assumes c: "core b ((\<lambda>_. {})(c := set ids)) s" and d: "ctrls s c = Some d0" and n: "cnt_wf s"
    and r: "add_rollback env d c ids k s = s'"
  shows "good b s' \<and> owners s' = owners s \<and> qgroups s' = qgroups s \<and>
    (deletes_ok env \<longrightarrow> hwq d (klog s') = hw_minus (hwq d (klog s)) (set (take k ids)))"
proof -
  obtain es where es: "fold (delete_pair env d) (rev (take k ids)) s = s\<lparr>klog := es @ klog s\<rparr>" "\<forall>e \<in> set es. neutral e"
    using delete_pairs_log by blast
  let ?s = "s\<lparr>klog := es @ klog s\<rparr>"
  have "core b ((\<lambda>_. {})(c := set ids)) ?s" by (rule core_log [OF c]) (rule held_neutral [OF es(2)])
  from free_qids_core [OF this] d have "core b (\<lambda>_. {}) (?s\<lparr>ctrls := (ctrls ?s)(c \<mapsto> free_all_qids ids d0)\<rparr>)" by simp
  moreover have "s' = ?s\<lparr>ctrls := (ctrls ?s)(c \<mapsto> free_all_qids ids d0)\<rparr>"
    using r es(1) free_qids_fold [of ?s c d0 ids] d by (simp add: add_rollback_def)
  moreover have "deletes_ok env \<Longrightarrow> hwq d (es @ klog s) = hw_minus (hwq d (klog s)) (set (take k ids))"
    using hwq_delete_pairs [of env d "rev (take k ids)" s] es(1) by simp
  ultimately show ?thesis using n by (simp add: dev_inv_def cnt_wf_def)
qed

lemma gcore_cong: "qgroups s' = qgroups s \<Longrightarrow> gcore s' = gcore s"
  by (simp add: gcore_def fun_eq_iff)

lemma commit_good:
  assumes c: "core b ((\<lambda>_. {})(own_ctrl w := set ids)) s" and w: "owners s own = Some w" "gp \<in> set (own_groups w)"
    and gr: "qgroups s gp = Some gr" and n: "unat (g_cur_queues gr) + length ids \<le> NVM_MAX_QUEUES_PER_GROUP" "distinct ids"
    and cn: "cnt_wf s"
  defines "s1 \<equiv> upd_group gp (add_commit ids) s"
  shows "good b s1 \<and> owners s1 = owners s \<and> live (gcore s1) = (live (gcore s))(gp := live (gcore s) gp @ ids)"
    and "good b (add_revert env d (own_ctrl w) gp (length ids) s1) \<and>
      owners (add_revert env d (own_ctrl w) gp (length ids) s1) = owners s \<and>
      live (gcore (add_revert env d (own_ctrl w) gp (length ids) s1)) = live (gcore s) \<and>
      (deletes_ok env \<longrightarrow> hwq d (klog (add_revert env d (own_ctrl w) gp (length ids) s1)) = hw_minus (hwq d (klog s)) (set ids))"
    and "klog s1 = klog s"
proof -
  have s1: "s1 = s\<lparr>qgroups := (qgroups s)(gp \<mapsto> add_commit ids gr)\<rparr>" using gr by (simp add: s1_def upd_group_def)
  have c1: "core b (\<lambda>_. {}) s1" unfolding s1_def by (rule commit_core [OF c w gr n])
  have so: "slots_ok (g_queues gr) (g_cur_queues gr)"
    using c gr by (simp add: core_inv_def grp_wf_def gcore_def) blast
  note cs = commit_slots [OF so n(1)]
  have o1: "owners s1 = owners s" "qgroups s1 gp = Some (add_commit ids gr)" by (simp_all add: s1)
  have n1: "cnt_wf s1" by (rule cnt_wf_group [OF cn o1(1) _ gr, of "add_commit ids gr"]) (simp_all add: s1 add_commit_def)
  have lv: "live (gcore s) gp = live_qids (g_queues gr)" using gr by (simp add: live_def gcore_def)
  have l1: "live (gcore s1) = (live (gcore s))(gp := live (gcore s) gp @ ids)"
    using cs(2) gr lv by (auto simp: s1 live_def gcore_def fun_eq_iff add_commit_def split: option.splits)
  show "klog s1 = klog s" by (simp add: s1)
  show "good b s1 \<and> owners s1 = owners s \<and> live (gcore s1) = (live (gcore s))(gp := live (gcore s) gp @ ids)"
    using c1 n1 o1 l1 by (simp add: dev_inv_def)
  have cur: "unat (g_cur_queues (add_commit ids gr)) = unat (g_cur_queues gr) + length ids"
    using cs(3) by (simp add: add_commit_def)
  define s2 where "s2 = add_revert env d (own_ctrl w) gp (length ids) s1"
  have w1: "owners s1 own = Some w" using w o1 by simp
  obtain gr' es d' where r: "core b (\<lambda>_. {}) s2"
    "live (gcore s2) = (live (gcore s1))(gp := take (unat (g_cur_queues gr)) (live (gcore s1) gp))"
    "s2 = s1\<lparr>klog := es @ klog s1, ctrls := (ctrls s1)(own_ctrl w \<mapsto> d'), qgroups := (qgroups s1)(gp \<mapsto> gr')\<rparr>"
    "g_max_queues gr' = g_max_queues (add_commit ids gr)"
    "deletes_ok env \<longrightarrow> hwq d (klog s2) = hw_minus (hwq d (klog s1)) (set (drop (unat (g_cur_queues gr)) (live (gcore s1) gp)))"
    using revert_core [OF c1 w1 w(2) o1(2) _ s2_def [symmetric]] cur by auto
  have "cnt_wf s2" by (rule cnt_wf_group [OF n1 _ _ o1(2) r(4)]) (simp_all add: r(3))
  moreover have "live (gcore s2) = live (gcore s)"
    unfolding r(2) l1 using length_live [OF so] lv by (simp add: fun_upd_idem)
  moreover have "drop (unat (g_cur_queues gr)) (live (gcore s1) gp) = ids" using l1 length_live [OF so] lv by simp
  ultimately show "good b (add_revert env d (own_ctrl w) gp (length ids) s1) \<and>
      owners (add_revert env d (own_ctrl w) gp (length ids) s1) = owners s \<and>
      live (gcore (add_revert env d (own_ctrl w) gp (length ids) s1)) = live (gcore s) \<and>
      (deletes_ok env \<longrightarrow> hwq d (klog (add_revert env d (own_ctrl w) gp (length ids) s1)) = hw_minus (hwq d (klog s)) (set ids))"
    using r(1,3,5) o1 unfolding s2_def [symmetric] by (simp add: dev_inv_def s1)
qed

lemma add_queues_good:
  assumes g: "good b s" and w: "owners s own = Some w" "gp \<in> set (own_groups w)" "qgroups s gp = Some gr"
    and nd: "unat (ctrl_max_io_queues ndev) < 65536"
    and n: "unat (g_cur_queues gr) + unat (nr_pairs req) \<le> NVM_MAX_QUEUES_PER_GROUP"
    and r: "add_queues env (own_ctrl w) ndev gp rings req s = (rc, rep, s')"
  shows "good b s' \<and> owners s' = owners s \<and> added gp rc (unat (nr_pairs req)) s s' \<and>
    keeps_sync (length rings = unat (nr_pairs req)) env (own_ctrl w) s s'"
proof -
  let ?c = "own_ctrl w"
  have co: "core b (\<lambda>_. {}) s" and cn: "cnt_wf s" using g by (simp_all add: dev_inv_def)
  have "grp_wf (ocore s) (gcore s) (ctrls s)" using co by (simp add: core_inv_def)
  moreover have "ocore s own = Some (own_ctrl w, own_owner w, own_groups w)" using w(1) by (rule ogroups_ocore)
  ultimately obtain d where d: "ctrls s ?c = Some d" unfolding grp_wf_def by blast
  obtain r1 s1 where i: "pool_init env ?c ndev s = (r1, s1)" by fastforce
  obtain d1 es1 where s1: "core b (\<lambda>_. {}) s1" "s1 = s\<lparr>klog := es1 @ klog s, ctrls := (ctrls s)(?c \<mapsto> d1)\<rparr>" "r1 = 0 \<longrightarrow> pool_ok d1"
    "set es1 \<subseteq> {Acq (RBitmap ?c), Note ''alloc failed'' 0}" "pool_used d1 = pool_used d"
    using pool_init_core [OF co d nd i] by blast
  let ?d = "ctrl_pdev s ?c"
  have h1: "hwq ?d (klog s1) = hwq ?d (klog s)" using s1(2,4) by (auto intro!: hwq_other)
  have sv: "serves (ocore s) ?c gp" using servesI [of "ocore s" own ?c "own_owner w" "own_groups w"] ogroups_ocore [OF w(1)] w(2) by simp
  have ud: "pool_used d = cqids (ocore s) (gcore s) ?c" using co d by (simp add: core_inv_def qid_wf_def pool_wf_def)
  have o1: "owners s1 = owners s" "qgroups s1 = qgroups s" "ctrls s1 ?c = Some d1" "cnt_wf s1"
    using s1(2) cn by (simp_all add: cnt_wf_def)
  show ?thesis
  proof (cases "r1 = 0")
    case False
    then show ?thesis using r i s1(1) o1 gcore_cong [OF o1(2)] in_sync_cong [of s ?d ?c s1] h1 by (simp add: add_queues_def dev_inv_def added_def keeps_sync_def)
  next
    case r1: True
    obtain r2 ids s2 where al: "pool_alloc ?c (unat (nr_pairs req)) s1 = (r2, ids, s2)" by (metis prod_cases3)
    note pa = pool_alloc_core [OF s1(1) o1(3) s1(3) [rule_format, OF r1] al]
    show ?thesis
    proof (cases "r2 = 0")
      case False
      then show ?thesis using r i r1 al pa s1(1) o1 gcore_cong [OF o1(2)] in_sync_cong [of s ?d ?c s1] h1
        by (simp add: add_queues_def dev_inv_def added_def keeps_sync_def)
    next
      case r2: True
      then obtain d2 where s2: "s2 = s1\<lparr>ctrls := (ctrls s1)(?c \<mapsto> d2)\<rparr>" "core b ((\<lambda>_. {})(?c := set ids)) s2"
        "distinct ids" "length ids = unat (nr_pairs req)" "set ids \<inter> pool_used d = {}" using pa s1(5) by auto
      obtain rc3 k s3 where cp: "create_pairs env (ctrl_pdev s ?c) ndev (zip ids rings) 0 s2 = (rc3, k, s3)" by (metis prod_cases3)
      obtain es3 where s3: "s3 = s2\<lparr>klog := es3 @ klog s2\<rparr>" "\<forall>e \<in> set es3. neutral e"
        using create_pairs_log [OF cp] by blast
      have c3: "core b ((\<lambda>_. {})(?c := set ids)) s3" unfolding s3(1) by (rule core_log [OF s2(2)]) (rule held_neutral [OF s3(2)])
      have o3: "owners s3 = owners s" "qgroups s3 = qgroups s" "ctrls s3 ?c = Some d2" "cnt_wf s3"
        using s3(1) s2(1) o1 by (simp_all add: cnt_wf_def)
      have l3: "live (gcore s3) = live (gcore s)" using gcore_cong [OF o3(2)] by simp
      have h3: "hwq ?d (klog s3) = hw_plus (hwq ?d (klog s)) (set (take k ids))" "rc3 = 0 \<Longrightarrow> k = length ids"
        "fst (hwq ?d (klog s)) \<inter> set ids = {}" "snd (hwq ?d (klog s)) \<inter> set ids = {}"
        if sy: "length rings = unat (nr_pairs req)" "deletes_ok env" "in_sync s ?d ?c"
      proof -
        have m: "map fst (zip ids rings) = ids" using sy(1) s2(4) by simp
        have k2: "hwq ?d (klog s2) = hwq ?d (klog s)" using h1 s2(1) by simp
        show x: "fst (hwq ?d (klog s)) \<inter> set ids = {}" "snd (hwq ?d (klog s)) \<inter> set ids = {}"
          using sy(3) s2(5) ud by (auto simp: in_sync_def)
        have "\<forall>x \<in> set (zip ids rings). fst x \<notin> snd (hwq ?d (klog s2))" using x(2) k2 by (auto dest: set_zip_leftD)
        from hwq_create_pairs [OF cp sy(2) this] m s2(3) k2 sy(1) s2(4)
        show "hwq ?d (klog s3) = hw_plus (hwq ?d (klog s)) (set (take k ids))" "rc3 = 0 \<Longrightarrow> k = length ids" by auto
      qed
      show ?thesis
      proof (cases "rc3 = 0")
        case False
        then have "rc \<noteq> 0" "add_rollback env (ctrl_pdev s ?c) ?c ids k s3 = s'"
          using r i r1 al r2 cp by (simp_all add: add_queues_def Let_def)
        moreover from this rollback_good [OF c3 o3(3,4)] have "good b s'" "owners s' = owners s" "qgroups s' = qgroups s"
          "deletes_ok env \<longrightarrow> hwq ?d (klog s') = hw_minus (hwq ?d (klog s3)) (set (take k ids))" using o3 by auto
        moreover have "hwq ?d (klog s') = hwq ?d (klog s)" if "length rings = unat (nr_pairs req)" "deletes_ok env" "in_sync s ?d ?c"
          using calculation(6) h3(1,3,4) [OF that] that(2) hw_minus_plus [of "hwq ?d (klog s)" "set ids"] by (simp add: set_take_subset)
        ultimately show ?thesis using gcore_cong [of s' s] in_sync_cong [of s ?d ?c s'] by (auto simp: added_def keeps_sync_def)
      next
        case rc3: True
        have gr3: "owners s3 own = Some w" "qgroups s3 gp = Some gr" using o3 w by simp_all
        have n3: "unat (g_cur_queues gr) + length ids \<le> NVM_MAX_QUEUES_PER_GROUP" using n s2(4) by simp
        note cg = commit_good [OF c3 gr3(1) w(2) gr3(2) n3 s2(3) o3(4)]
        have "rc = 0 \<and> s' = upd_group gp (add_commit ids) s3 \<or>
            rc = -EFAULT \<and> s' = add_revert env (ctrl_pdev s ?c) ?c gp (length ids) (upd_group gp (add_commit ids) s3)"
          using r i r1 al r2 cp rc3 by (auto simp: add_queues_def Let_def split: if_splits)
        then show ?thesis
        proof (elim disjE conjE)
          assume s': "rc = 0" "s' = upd_group gp (add_commit ids) s3"
          have "in_sync s' ?d ?c" if sy: "length rings = unat (nr_pairs req)" "deletes_ok env" "in_sync s ?d ?c"
            by (rule in_sync_add [OF sy(3) _ _ _ sv]) (use cg(1,3) h3(1,2) [OF sy] rc3 s'(2) o3(1) l3 in auto)
          then show ?thesis using cg(1) o3(1) s2(4) l3 s' by (auto simp: added_def keeps_sync_def)
        next
          assume s': "rc = -EFAULT" "s' = add_revert env ?d ?c gp (length ids) (upd_group gp (add_commit ids) s3)"
          note c2 = cg(2) [of env ?d, folded s'(2)]
          have "hwq ?d (klog s') = hwq ?d (klog s)" if sy: "length rings = unat (nr_pairs req)" "deletes_ok env" "in_sync s ?d ?c"
            using c2 h3 [OF sy] rc3 sy(2) hw_minus_plus [of "hwq ?d (klog s)" "set ids" "set ids"] by simp
          then have "in_sync s' ?d ?c" if sy: "length rings = unat (nr_pairs req)" "deletes_ok env" "in_sync s ?d ?c"
            using in_sync_cong [OF sy(3), of s'] c2 o3(1) l3 sy by simp
          then show ?thesis using c2 o3(1) l3 s'(1) by (auto simp: added_def keeps_sync_def EFAULT_def)
        qed
      qed
    qed
  qed
qed

lemma batch_fits:
  assumes g: "good b s" and gr: "qgroups s gp = Some gr" and v: "\<not> add_request_invalid req"
    and f: "\<not> g_cur_queues gr + nr_pairs req > g_max_queues gr"
  shows "unat (g_cur_queues gr) + unat (nr_pairs req) \<le> NVM_MAX_QUEUES_PER_GROUP"
proof -
  have "gcore s gp = Some (g_group_id gr, g_queues gr, g_cur_queues gr)" using gr by (simp add: gcore_def)
  then have so: "slots_ok (g_queues gr) (g_cur_queues gr)"
    using g unfolding dev_inv_def core_inv_def grp_wf_def by blast
  have "g_max_queues gr = of_nat NVM_MAX_QUEUES_PER_GROUP" using g gr by (auto simp: dev_inv_def cnt_wf_def)
  moreover have "nr_pairs req \<le> of_nat NVM_MAX_QUEUES_PER_GROUP" using v by (simp add: add_request_invalid_def not_less)
  ultimately show ?thesis
    using f so by (simp add: slots_ok_def NVM_MAX_QUEUES_PER_GROUP_def not_less word_le_nat_alt unat_word_ariths)
qed

lemma add_body_good:
  assumes g: "good b s" and w: "owners s own = Some w"
    and r: "add_user_queue_body env (own_ctrl w) own arg s = (rc, rep, s')"
  shows "good b s' \<and> owners s' = owners s \<and> (rc \<noteq> 0 \<longrightarrow> live (gcore s') = live (gcore s)) \<and>
    (rc = 0 \<longrightarrow> (\<exists>req. arg = Some req \<and> find_qgroup_locked s own (aq_group_id req) \<noteq> NULL \<and>
       added (find_qgroup_locked s own (aq_group_id req)) 0 (unat (nr_pairs req)) s s')) \<and>
    keeps_sync (\<forall>req. arg = Some req \<longrightarrow> length (aq_pairs req) = NVM_MAX_QUEUES_PER_GROUP) env (own_ctrl w) s s'"
proof -
  let ?same = "rc \<noteq> 0 \<and> s' = s"
  have same: ?thesis if ?same using that g by (simp add: keeps_sync_def)
  show ?thesis
  proof (cases arg)
    case None
    then show ?thesis using r same by (simp add: add_user_queue_body_def EFAULT_def)
  next
    case (Some req)
    let ?g = "find_qgroup_locked s own (aq_group_id req)"
    show ?thesis
    proof (cases "add_request_invalid req \<or> snvm_ctrl_get_live_ndev s (own_ctrl w) = None \<or> ?g = NULL")
      case True
      then have ?same using r Some
        by (auto simp: add_user_queue_body_def Let_def EINVAL_def ENODEV_def ENOENT_def split: option.splits if_splits)
      then show ?thesis by (rule same)
    next
      case ok: False
      then obtain ndev where nd: "snvm_ctrl_get_live_ndev s (own_ctrl w) = Some ndev" by auto
      then have "drvdata s (ctrl_pdev s (own_ctrl w)) = Some ndev"
        by (auto simp: snvm_ctrl_get_live_ndev_def split: if_splits option.splits)
      then have mx: "unat (ctrl_max_io_queues ndev) < 65536" using g by (auto simp: dev_inv_def core_inv_def hw_wf_def)
      obtain gr where gr: "?g \<in> set (own_groups w)" "qgroups s ?g = Some gr"
        using find_qgroup_spec [of s own "aq_group_id req" ?g] w ok by auto
      let ?rest = "case resolve_pairs s (glinks s (LGroup ?g)) (req_pairs req) of None \<Rightarrow> (-ENOENT, NoReply, s)
          | Some rings \<Rightarrow> add_queues env (own_ctrl w) ndev ?g rings req s"
      have rr: "(rc, rep, s') = (if g_cur_queues gr + nr_pairs req > g_max_queues gr then (-EBUSY, NoReply, s) else ?rest)"
        using r Some ok nd gr by (simp add: add_user_queue_body_def Let_def)
      show ?thesis
      proof (cases "g_cur_queues gr + nr_pairs req > g_max_queues gr \<or>
          resolve_pairs s (glinks s (LGroup ?g)) (req_pairs req) = None")
        case True
        then have ?same using rr by (auto simp: EBUSY_def ENOENT_def split: if_splits)
        then show ?thesis by (rule same)
      next
        case False
        then obtain rings where rg: "add_queues env (own_ctrl w) ndev ?g rings req s = (rc, rep, s')"
          and rs: "resolve_pairs s (glinks s (LGroup ?g)) (req_pairs req) = Some rings"
          using rr by (auto split: if_splits)
        have "\<not> add_request_invalid req" using ok by simp
        then have n: "unat (g_cur_queues gr) + unat (nr_pairs req) \<le> NVM_MAX_QUEUES_PER_GROUP"
          using batch_fits [OF g gr(2)] False by blast
        have "good b s' \<and> owners s' = owners s \<and> added ?g rc (unat (nr_pairs req)) s s' \<and>
            keeps_sync (length rings = unat (nr_pairs req)) env (own_ctrl w) s s'"
          by (rule add_queues_good [OF g w gr mx n rg])
        moreover have "length rings = unat (nr_pairs req)" if "length (aq_pairs req) = NVM_MAX_QUEUES_PER_GROUP"
          using resolve_pairs_length [OF rs] n that by (simp add: req_pairs_def)
        ultimately show ?thesis using Some ok by (auto simp: added_def keeps_sync_def)
      qed
    qed
  qed
qed

end

end
