(* ===== verification/Snvm_DevProps.thy ===== *)
theory Snvm_DevProps
  imports Snvm_DevSteps
begin

text \<open>
  The remaining operations of the character device keep the invariant; every sequence of
  opening, calling and closing does, with either backend; and what each of them promises
  to the process that calls it.
\<close>

section \<open>The environment\<close>

text \<open>
  The documented behaviour of the kernel services that the device relies on: fresh memory,
  identifiers of groups that are not in use, page pinning and DMA mapping that succeed as
  requested, and \<open>kvcalloc\<close> served by \<open>kmalloc\<close>.
\<close>

definition env_ok :: "'e dev_env_scheme \<Rightarrow> bool" where
  "env_ok env \<longleftrightarrow> alloc_fresh env \<and> ida_fresh env \<and> gup_ok env \<and> dma_ok env \<and> (\<forall>q. \<not> is_vmalloc env q)"

section \<open>The namespace of a device\<close>

lemma get_ns_log:
  assumes "get_ns env d s = (r, s')"
  shows "\<exists>e. s' = s\<lparr>klog := e # klog s\<rparr> \<and> e = (if r = None then Note ''no namespace'' d else Acq (RNs d))"
  using assms by (auto simp: get_ns_def emit_def split: option.splits)

definition ns_log :: "pdev \<Rightarrow> 'a option \<Rightarrow> history \<Rightarrow> history \<Rightarrow> bool" where
  "ns_log d r l l' \<longleftrightarrow> (\<forall>x. held l' x = held l x + (if r \<noteq> None \<and> x = RNs d then 1 else 0)) \<and> (clean l' \<longleftrightarrow> clean l)"

lemma ns_wait_log:
  "ns_wait env d w s = (r, s') \<Longrightarrow> \<exists>l. s' = s\<lparr>klog := l\<rparr> \<and> ns_log d r (klog s) l"
proof (induction env d w s arbitrary: r s' rule: ns_wait.induct)
  case (1 env d w s)
  let ?t = "emit (Note ''flush_work'' d) (emit (Note ''msleep'' 50) s)"
  show ?case
  proof (cases "w < 5000")
    case True
    obtain r1 s1 where g: "get_ns env d ?t = (r1, s1)" by fastforce
    obtain e where e: "s1 = ?t\<lparr>klog := e # klog ?t\<rparr>" "e = (if r1 = None then Note ''no namespace'' d else Acq (RNs d))"
      using get_ns_log [OF g] by blast
    show ?thesis
    proof (cases r1)
      case None
      then have "ns_wait env d (w + 50) s1 = (r, s')" using "1.prems" True g by (simp add: ns_wait.simps [of env d w s])
      then obtain l where "s' = s1\<lparr>klog := l\<rparr>" "ns_log d r (klog s1) l"
        using "1.IH" [OF True g [symmetric] None] by blast
      then show ?thesis using e None by (auto simp: ns_log_def emit_def)
    next
      case (Some ns)
      then show ?thesis using "1.prems" True g e by (auto simp: ns_wait.simps [of env d w s] ns_log_def emit_def)
    qed
  next
    case False
    then have "r = None" "s' = s" using "1.prems" by (simp_all add: ns_wait.simps [of env d w s])
    then show ?thesis by (intro exI [of _ "klog s"]) (simp add: ns_log_def)
  qed
qed

lemma wait_for_ns_log:
  assumes "wait_for_ns env d s = (r, s')"
  shows "\<exists>l. s' = s\<lparr>klog := l\<rparr> \<and> ns_log d r (klog s) l"
proof -
  obtain r1 s1 where g1: "get_ns env d s = (r1, s1)" by fastforce
  obtain e1 where e1: "s1 = s\<lparr>klog := e1 # klog s\<rparr>" "e1 = (if r1 = None then Note ''no namespace'' d else Acq (RNs d))"
    using get_ns_log [OF g1] by blast
  show ?thesis
  proof (cases r1)
    case (Some ns)
    then show ?thesis using assms g1 e1 by (auto simp: wait_for_ns_def ns_log_def)
  next
    case None
    let ?t = "emit (Note ''flush_work'' d) s1"
    obtain r2 s2 where g2: "get_ns env d ?t = (r2, s2)" by fastforce
    obtain e2 where e2: "s2 = ?t\<lparr>klog := e2 # klog ?t\<rparr>" "e2 = (if r2 = None then Note ''no namespace'' d else Acq (RNs d))"
      using get_ns_log [OF g2] by blast
    show ?thesis
    proof (cases r2)
      case (Some ns)
      then show ?thesis using assms g1 g2 e1 e2 None by (auto simp: wait_for_ns_def ns_log_def emit_def)
    next
      case r2: None
      then have "ns_wait env d 0 s2 = (r, s')" using assms g1 g2 None by (simp add: wait_for_ns_def)
      from ns_wait_log [OF this] show ?thesis using e1 e2 None r2 by (auto simp: ns_log_def emit_def)
    qed
  qed
qed

lemma get_dev_info_log:
  assumes "nvm_get_dev_info env c s = (rc, rep, s')"
  shows "\<exists>l. s' = s\<lparr>klog := l\<rparr> \<and> (\<forall>r. held l r = held (klog s) r) \<and> (clean l \<longleftrightarrow> clean (klog s))"
proof (cases "drvdata s (ctrl_pdev s c)")
  case None
  then show ?thesis using assms by (intro exI [of _ "klog s"]) (simp add: nvm_get_dev_info_def Let_def)
next
  case (Some ndev)
  obtain r s1 where w: "wait_for_ns env (ctrl_pdev s c) s = (r, s1)" by fastforce
  obtain l where l: "s1 = s\<lparr>klog := l\<rparr>" "ns_log (ctrl_pdev s c) r (klog s) l" using wait_for_ns_log [OF w] by blast
  show ?thesis
  proof (cases r)
    case None
    then show ?thesis using assms Some w l by (auto simp: nvm_get_dev_info_def Let_def ns_log_def)
  next
    case r: (Some ns)
    then have "s' = s\<lparr>klog := Rel (RNs (ctrl_pdev s c)) # l\<rparr>"
      using assms Some w l(1) by (auto simp: nvm_get_dev_info_def Let_def emit_def split: if_splits)
    then show ?thesis using l(2) r by (auto simp: ns_log_def)
  qed
qed

section \<open>The handlers keep the invariant\<close>

lemma find_by_inode_hw:
  assumes "hw_wf s"
  shows "ctrl_find_by_inode s i = Some (if i_cdev s i \<in> set (ctrl_list s) then i_cdev s i else NULL)"
proof -
  have "find (\<lambda>e. e = c) xs = (if c \<in> set xs then Some c else None)" for c :: ptr and xs
    by (induction xs) auto
  then show ?thesis
    unfolding ctrl_find_by_inode_def
    using assms seq.find_loop_spec [of "ctrl_list s" "ctrl_list s" "\<lambda>e. e = i_cdev s i"] by (auto simp: hw_wf_def)
qed

context dev_backend
begin

lemma good_hw: "good b s \<Longrightarrow> hw_wf s" "good b s \<Longrightarrow> inv (sbase b s) s" "good b s \<Longrightarrow> \<forall>r. 0 \<le> b r"
  by (simp_all add: dev_inv_def core_inv_def)

lemma mapper_map:
  assumes g: "good b s" and e: "alloc_fresh env"
    and f: "1 \<le> n \<Longrightarrow> fills fill (sbase b s) safe psz n max_num_ctrls"
  shows "mapper_ok b s (map_common env ops msk psz reg fill cur pdev va n s)"
proof -
  obtain r s' where r: "map_common env ops msk psz reg fill cur pdev va n s = (r, s')" by fastforce
  have "length (pdevs s) \<le> max_num_ctrls" using good_hw(1) [OF g] by (simp add: hw_wf_def pdevs_def)
  from map_common_ok [OF good_hw(2) [OF g] e f this r] show ?thesis
    unfolding r mapper_ok_def by (auto split: sum.splits)
qed

lemma add_good:
  assumes g: "good b s" and e: "alloc_fresh env" and w: "owners s own = Some w"
    and r: "nvm_add_user_queue env (own_ctrl w) own arg s = (rc, rep, s')"
  shows "good b s' \<and> owners s' = owners s \<and> (rc \<noteq> 0 \<longrightarrow> live (gcore s') = live (gcore s)) \<and>
    (rc = 0 \<longrightarrow> (\<exists>req. arg = Some req \<and> find_qgroup_locked s own (aq_group_id req) \<noteq> NULL \<and>
       added (find_qgroup_locked s own (aq_group_id req)) 0 (unat (nr_pairs req)) s s')) \<and>
    keeps_sync (\<forall>req. arg = Some req \<longrightarrow> length (aq_pairs req) = NVM_MAX_QUEUES_PER_GROUP) env (own_ctrl w) s s'"
proof (cases "own = NULL")
  case True
  then show ?thesis using r g by (simp add: keeps_sync_def nvm_add_user_queue_def ENODEV_def)
next
  case False
  show ?thesis
  proof (cases rule: k_alloc_cases [of env s])
    case 1
    then have "rc \<noteq> 0" "s' = s\<lparr>klog := Note ''alloc failed'' 0 # klog s\<rparr>"
      using r False by (simp_all add: nvm_add_user_queue_def ENOMEM_def emit_def)
    moreover from this(2) have "good b s'" by (simp add: good_log [OF g])
    moreover have "in_sync s' d c" if "in_sync s d c" for d c
      by (rule in_sync_cong [OF that]) (simp_all add: calculation(2) gcore_def live_def fun_eq_iff)
    ultimately show ?thesis by (simp add: live_def gcore_def fun_eq_iff keeps_sync_def)
  next
    case (2 p)
    let ?s1 = "s\<lparr>klog := Acq (RMem p) # klog s\<rparr>" and ?b = "b(RMem p := b (RMem p) + 1)"
    obtain s2 where body: "add_user_queue_body env (own_ctrl w) own arg ?s1 = (rc, rep, s2)" and s': "s' = k_free p s2"
      using r False 2 by (auto simp: nvm_add_user_queue_def emit_def split: prod.splits)
    have "core ?b (\<lambda>_. {}) ?s1"
      by (rule core_log_base [of b]) (use g good_hw(3) [OF g] in \<open>auto simp: dev_inv_def\<close>)
    then have "good ?b ?s1" using g by (simp add: dev_inv_def cnt_wf_def)
    moreover have "owners ?s1 own = Some w" using w by simp
    ultimately have b: "good ?b s2" "owners s2 = owners s" "rc \<noteq> 0 \<Longrightarrow> live (gcore s2) = live (gcore ?s1)"
      "rc = 0 \<Longrightarrow> \<exists>req. arg = Some req \<and> find_qgroup_locked ?s1 own (aq_group_id req) \<noteq> NULL \<and> added (find_qgroup_locked ?s1 own (aq_group_id req)) 0 (unat (nr_pairs req)) ?s1 s2"
      "keeps_sync (\<forall>req. arg = Some req \<longrightarrow> length (aq_pairs req) = NVM_MAX_QUEUES_PER_GROUP) env (own_ctrl w) ?s1 s2"
      using add_body_good [OF _ _ body] by auto
    have s'': "s' = s2\<lparr>klog := Rel (RMem p) # klog s2\<rparr>" using s' 2 by (simp add: k_free_def emit_def)
    have "core b (\<lambda>_. {}) s'" unfolding s''
      by (rule core_log_base [of ?b]) (use b(1) good_hw(3) [OF g] in \<open>auto simp: dev_inv_def\<close>)
    then have "good b s'" using b(1) by (simp add: dev_inv_def cnt_wf_def s'')
    moreover have "gcore s' = gcore s2" "gcore ?s1 = gcore s" by (simp_all add: s'' gcore_def fun_eq_iff)
    moreover have "has_group_id ?s1 i = has_group_id s i" for i by (simp add: has_group_id_def fun_eq_iff)
    then have "find_qgroup_locked ?s1 own i = find_qgroup_locked s own i" for i
      unfolding find_qgroup_locked_def by (cases "owners s own") simp_all
    moreover have "in_sync ?s1 d c" if "in_sync s d c" for d c
      by (rule in_sync_cong [OF that]) (simp_all add: gcore_def live_def fun_eq_iff)
    moreover have "in_sync s' d c" if "in_sync s2 d c" for d c
      by (rule in_sync_cong [OF that]) (simp_all add: s'' gcore_def live_def fun_eq_iff)
    moreover have "ctrl_pdev ?s1 c = ctrl_pdev s c" for c by (simp add: ctrl_pdev_def)
    ultimately show ?thesis using b by (auto simp: added_def keeps_sync_def s'')
  qed
qed

lemma listed_map:
  assumes "inv base s" "find P (mlists s r) = Some p"
  shows "\<exists>m. maps s p = Some m \<and> p \<noteq> NULL"
proof -
  have "p \<in> set (mlists s r)" using assms(2) by (metis find_Some_iff nth_mem)
  then have "p \<in> dom (maps s)" using assms(1) unfolding map_inv_def lists_ok_def fam_ok_def by blast
  then obtain m where "maps s p = Some m" by auto
  then show ?thesis using assms(1) unfolding map_inv_def by blast
qed

lemma unmap_good_op:
  assumes g: "good b s"
  shows "\<exists>rc rep s'. nvm_unmap_memory ops r cur own arg s = Some (rc, rep, s') \<and> good b s'"
    and "\<exists>rc rep s'. nvm_unmap_device_queue_memory ops cur arg s = Some (rc, rep, s') \<and> good b s'"
proof -
  have f: "\<exists>p. map_find r cur va s = Some p \<and> (p = NULL \<or> (\<exists>m. maps s p = Some m))" for r va
    using map_find_ok [OF good_hw(2) [OF g], of r cur va] listed_map [OF good_hw(2) [OF g]]
    by (cases "find (map_matches cur va s) (mlists s r)") auto
  have u: "good b (unmap_and_release ops p (count_unmap own m s))" "good b (unmap_and_release ops p s)"
    if "maps s p = Some m" for p m
  proof -
    show "good b (unmap_and_release ops p (count_unmap own m s))"
      by (rule good_unmap [OF count_good(2) [OF g]]) (simp add: count_good(4) [OF g] that)
    show "good b (unmap_and_release ops p s)" by (rule good_unmap [OF g that])
  qed
  show "\<exists>rc rep s'. nvm_unmap_memory ops r cur own arg s = Some (rc, rep, s') \<and> good b s'"
    using f [of r "the arg"] g u by (auto simp: nvm_unmap_memory_def split: option.splits)
  show "\<exists>rc rep s'. nvm_unmap_device_queue_memory ops cur arg s = Some (rc, rep, s') \<and> good b s'"
    using f [of DevQueue "the arg"] g u by (auto simp: nvm_unmap_device_queue_memory_def split: option.splits)
qed

lemma set_cap_good:
  assumes g: "good b s" and c: "ctrls s c = Some d" and r: "nvm_set_kernel_ioq_cap c arg s = (rc, rep, s')"
  shows "good b s'"
proof (cases arg)
  case None
  then show ?thesis using r g by (simp add: nvm_set_kernel_ioq_cap_def)
next
  case (Some cap)
  let ?d = "d\<lparr>c_setup := c_setup d\<lparr>setup_cap_kernel_ioq := cap, setup_valid := 1\<rparr>\<rparr>"
  have s': "s' = s\<lparr>ctrls := (ctrls s)(c \<mapsto> ?d)\<rparr>" using r c Some by (auto simp: nvm_set_kernel_ioq_cap_def upd_ctrl_def)
  have "pool_ok ?d \<longleftrightarrow> pool_ok d" "pool_used ?d = pool_used d"
    by (simp_all add: pool_ok_def pool_used_def pool_range_def user_qid_pool_size_def cong: option.case_cong)
  moreover have "pool_wf (ocore s) (gcore s) c d {}" using g c by (simp add: dev_inv_def core_inv_def qid_wf_def)
  ultimately have "pool_wf (ocore s) (gcore s) c ?d {}" by (simp add: pool_wf_def)
  then have "core b (\<lambda>_. {}) s'" unfolding s'
    by (intro core_ctrl_upd [of b "\<lambda>_. {}"]) (use g c in \<open>simp_all add: dev_inv_def\<close>)
  then show ?thesis using g by (simp add: dev_inv_def s' cnt_wf_def)
qed

lemma new_owner_good:
  assumes g: "good b s" and p: "ocore s p = None" "p \<noteq> NULL" and c: "c \<noteq> NULL" "ctrls s c \<noteq> None"
  shows "good b (s\<lparr>klog := Acq (RMem p) # klog s, owners := (owners s)(p \<mapsto>
    \<lparr>own_ctrl = c, own_owner = cur, own_groups = [], own_nr_groups = 0, own_nr_data_maps = 0\<rparr>)\<rparr>)" (is "good b ?s")
proof -
  have a: "inv (sbase b s) s" "grp_wf (ocore s) (gcore s) (ctrls s)" "link_wf (ocore s) (gcore s) (glinks s) (mcore s)"
    "qid_wf (ocore s) (gcore s) (ctrls s) (\<lambda>_. {})" "\<forall>r. 0 \<le> b r" "hw_wf s" "cnt_wf s"
    using g by (simp_all add: dev_inv_def core_inv_def)
  let ?oc = "(ocore s)(p \<mapsto> (c, cur, []))"
  have oc: "ocore ?s = ?oc" "gcore ?s = gcore s" "mcore ?s = mcore s" by (auto simp: ocore_def gcore_def mcore_def fun_eq_iff)
  have og: "ogroups ?oc = ogroups (ocore s)" using p(1) by (auto simp: ogroups_def fun_eq_iff)
  have sv: "serves ?oc = serves (ocore s)"
  proof (intro ext iffI)
    fix d h
    show "serves (ocore s) d h" if "serves ?oc d h" using that by (auto simp: serves_def split: if_splits)
    show "serves ?oc d h" if "serves (ocore s) d h"
    proof -
      obtain q t gs where "ocore s q = Some (d, t, gs)" "h \<in> set gs" using \<open>serves (ocore s) d h\<close> unfolding serves_def by blast
      then show ?thesis using p(1) by (intro servesI [of _ q d t gs]) auto
    qed
  qed
  have "grp_wf ?oc (gcore s) (ctrls s)" using a(2) p(2) c unfolding grp_wf_def og by auto
  moreover have "qid_wf ?oc (gcore s) (ctrls s) (\<lambda>_. {})" using a(4) unfolding qid_wf_def pool_wf_def cqids_def sv .
  moreover have "link_wf ?oc (gcore s) (glinks s) (mcore s)"
    by (rule link_wfI) (use link_wfD [OF a(3)] in \<open>auto split: if_splits\<close>)
  moreover have db: "dev_base b ?oc (gcore s) (ctrls s) r = sbase b s r + (if r = RMem p then 1 else 0)" for r
    using p(1) by (auto simp: dev_base_def split: resource.splits)
  have "inv (dev_base b ?oc (gcore s) (ctrls s)) ?s"
    by (rule inv_rebase [OF a(1)]) (use a(5) in \<open>simp_all add: pdevs_def dev_base_nonneg, simp add: db\<close>)
  moreover have "hw_wf ?s" "cnt_wf ?s" using a(6,7) by (auto simp: hw_wf_def cnt_wf_def)
  ultimately show ?thesis using a(5) by (simp add: dev_inv_def core_inv_def oc)
qed

lemma open_good:
  assumes g: "good b s" and e: "alloc_fresh env"
  shows "\<exists>rc own s'. snvm_dev_open env cur inode s = Some (rc, own, s') \<and> good b s' \<and>
    (rc = 0 \<longrightarrow> own \<noteq> NULL \<and> owners s own = None \<and>
      owners s' = (owners s)(own \<mapsto> \<lparr>own_ctrl = i_cdev s inode, own_owner = cur, own_groups = [], own_nr_groups = 0,
        own_nr_data_maps = 0\<rparr>)) \<and> (rc \<noteq> 0 \<longrightarrow> own = NULL \<and> owners s' = owners s)"
proof (cases "i_cdev s inode \<in> set (ctrl_list s)")
  case False
  then show ?thesis using find_by_inode_hw [OF good_hw(1) [OF g], of inode] g
    by (simp add: snvm_dev_open_def ENODEV_def)
next
  case True
  let ?c = "i_cdev s inode"
  have c: "?c \<noteq> NULL" using True good_hw(1) [OF g] unfolding hw_wf_def by metis
  have c': "ctrl_find_by_inode s inode = Some ?c" "ctrls s ?c \<noteq> None"
    using True find_by_inode_hw [OF good_hw(1) [OF g], of inode] good_hw(1) [OF g] by (auto simp: hw_wf_def)
  show ?thesis
  proof (cases rule: k_alloc_cases [of env s])
    case 1
    then show ?thesis using c c' good_log [OF g, of "Note ''alloc failed'' 0 # klog s"]
      by (simp add: snvm_dev_open_def ENOMEM_def emit_def)
  next
    case (2 p)
    let ?w = "\<lparr>own_ctrl = ?c, own_owner = cur, own_groups = [], own_nr_groups = 0, own_nr_data_maps = 0\<rparr>"
    let ?s = "s\<lparr>klog := Acq (RMem p) # klog s, owners := (owners s)(p \<mapsto> ?w)\<rparr>"
    have n: "held (klog s) (RMem p) = 0" using e 2 by (auto simp: alloc_fresh_def)
    then have u: "ocore s p = None" "gcore s p = None"
      using unheld(1) [of b "\<lambda>_. {}" s "RMem p" p] g by (auto simp: dev_inv_def)
    have "good b ?s" using new_owner_good [OF g u(1) _ c c'(2)] 2(1) by simp
    moreover have "owners s p = None" using u(1) by (simp add: ocore_def)
    ultimately show ?thesis using 2 c c' by (simp add: snvm_dev_open_def emit_def)
  qed
qed

end

text \<open>The state after closing a file, up to the mappings of a set that are gone.\<close>

definition gone :: "'a dev_st_scheme \<Rightarrow> ptr list \<Rightarrow> ptr set \<Rightarrow> 'a dev_st_scheme \<Rightarrow> bool" where
  "gone s gs D s' \<longleftrightarrow> qgroups s' = qgroups s |` (- set gs) \<and> maps s' = maps s |` (- D) \<and>
     (\<forall>r. mlists s' r = filter (\<lambda>p. p \<notin> D) (mlists s r)) \<and> (\<forall>h. glinks s' h = filter (\<lambda>p. p \<notin> D) (glinks s h)) \<and>
     ctrl_list s' = ctrl_list s \<and> drvdata s' = drvdata s \<and> pdev_driver s' = pdev_driver s \<and> i_cdev s' = i_cdev s \<and>
     (\<forall>c. map_option c_pdev (ctrls s' c) = map_option c_pdev (ctrls s c)) \<and> (clean (klog s) \<longrightarrow> clean (klog s'))"

text \<open>The mappings that go with a file: those of its groups, its data mappings, and every
  mapping of its task that belongs to no group.\<close>

definition closing :: "'a dev_st_scheme \<Rightarrow> ptr \<Rightarrow> snvm_dev_owner \<Rightarrow> ptr set" where
  "closing s own w = (\<Union>g \<in> set (own_groups w). set (glinks s (LGroup g))) \<union> set (glinks s (LData own)) \<union>
     {p. \<exists>r. p \<in> set (mlists s r) \<and> own_owner w \<noteq> NULL \<and> purgeable (own_owner w) s p}"

lemma gone_refl: "gone s [] {} s"
  by (simp add: gone_def restrict_map_def)

lemma gone_trans:
  assumes "gone s gs D s1" "gone s1 hs E s2"
  shows "gone s (gs @ hs) (D \<union> E) s2"
proof -
  have "qgroups s |` (- set gs) |` (- set hs) = qgroups s |` (- set (gs @ hs))" "maps s |` (- D) |` (- E) = maps s |` (- (D \<union> E))"
    by (simp_all add: Int_commute)
  then show ?thesis using assms by (simp add: gone_def)
qed

lemma group_gone_gone: "group_gone s own g w s' \<Longrightarrow> gone s [g] (set (glinks s (LGroup g))) s'"
  by (auto simp: group_gone_def gone_def Let_def restrict_map_def fun_eq_iff)

context dev_backend
begin

lemma shrinks_gone: "shrinks s D s' \<Longrightarrow> gone s [] D s'"
proof -
  assume h: "shrinks s D s'"
  then have f: "map_frame s s'" by (simp add: shrinks_def)
  then have "i_cdev s' = i_cdev s" by (simp add: map_frame_def)
  then show ?thesis using h frame_views(2-6) [OF f] by (simp add: shrinks_def gone_def restrict_map_def)
qed

lemma release_groups_core:
  fixes env :: "'e dev_env_scheme"
  assumes "core b (\<lambda>_. {}) s" "owners s own = Some w" "own_groups w = gs" "distinct gs"
  defines "s' \<equiv> release_groups env ops own (own_ctrl w) gs s"
  shows "core b (\<lambda>_. {}) s' \<and> gone s gs (\<Union>g \<in> set gs. set (glinks s (LGroup g))) s' \<and>
    owners s' = (owners s)(own \<mapsto> w\<lparr>own_groups := []\<rparr>)"
  unfolding s'_def using assms(1-4)
proof (induction gs arbitrary: s w)
  case Nil
  then have "w\<lparr>own_groups := []\<rparr> = w" by simp
  then show ?case using Nil gone_refl by (simp add: release_groups_def fun_upd_idem)
next
  case (Cons g gs)
  let ?f = "\<lambda>o'. o'\<lparr>own_groups := remove1 g (own_groups o')\<rparr>"
  let ?s1 = "destroy_qgroup_locked env ops g (own_ctrl w) (upd_owner own ?f s)"
  have d: "core b (\<lambda>_. {}) ?s1" "group_gone s own g (?f w) ?s1"
    using destroy_core [OF Cons.prems(1,2), of g ?f env] Cons.prems(3) by auto
  have o1: "owners ?s1 = (owners s)(own \<mapsto> ?f w)" "glinks ?s1 h = filter (\<lambda>p. p \<notin> set (glinks s (LGroup g))) (glinks s h)" for h
    using d(2) by (simp_all add: group_gone_def Let_def)
  have ih: "core b (\<lambda>_. {}) (release_groups env ops own (own_ctrl (?f w)) gs ?s1) \<and>
      gone ?s1 gs (\<Union>g \<in> set gs. set (glinks ?s1 (LGroup g))) (release_groups env ops own (own_ctrl (?f w)) gs ?s1) \<and>
      owners (release_groups env ops own (own_ctrl (?f w)) gs ?s1) = (owners ?s1)(own \<mapsto> (?f w)\<lparr>own_groups := []\<rparr>)"
    by (rule Cons.IH [OF d(1)]) (use o1(1) Cons.prems in simp_all)
  have rl: "release_groups env ops own (own_ctrl w) (g # gs) s = release_groups env ops own (own_ctrl (?f w)) gs ?s1"
    by (simp add: release_groups_def)
  have D: "set (glinks s (LGroup g)) \<union> (\<Union>g' \<in> set gs. set (glinks ?s1 (LGroup g'))) = (\<Union>g' \<in> set (g # gs). set (glinks s (LGroup g')))"
    unfolding o1(2) by auto
  have "gone s (g # gs) (\<Union>g' \<in> set (g # gs). set (glinks s (LGroup g'))) (release_groups env ops own (own_ctrl w) (g # gs) s)"
    using gone_trans [OF group_gone_gone [OF d(2)] conjunct1 [OF conjunct2 [OF ih]]] unfolding rl D by simp
  then show ?case using ih o1(1) unfolding rl by simp
qed

lemma purge_core:
  assumes c: "core b ex s"
  shows "\<exists>s' n. map_purge_by_owner ops r t s = Some (s', n) \<and> core b ex s' \<and> owners s' = owners s \<and>
    gone s [] {p \<in> set (mlists s r). t \<noteq> NULL \<and> purgeable t s p} s'"
proof (cases "t = NULL")
  case True
  then show ?thesis using c gone_refl by (simp add: map_purge_by_owner_def)
next
  case False
  have i: "inv (sbase b s) s" using c by (simp add: core_inv_def)
  obtain s' where s': "map_purge_by_owner ops r t s = Some (s', length (filter (purgeable t s) (mlists s r)))"
    "inv (sbase b s) s'" "shrinks s (set (filter (purgeable t s) (mlists s r))) s'"
    using purge_ok [OF i False] by blast
  have "owners s' = owners s" using s'(3) frame_views(1) by (auto simp: shrinks_def)
  moreover have "set (filter (purgeable t s) (mlists s r)) = {p \<in> set (mlists s r). t \<noteq> NULL \<and> purgeable t s p}"
    using False by auto
  ultimately show ?thesis using s' core_shrink [OF c s'(2,3)] shrinks_gone [OF s'(3)] by auto
qed

lemma drop_owner_core:
  assumes c: "core b (\<lambda>_. {}) s" and p: "owners s p = Some w" "own_groups w = []" "glinks s (LData p) = []"
  shows "core b (\<lambda>_. {}) (s\<lparr>klog := Rel (RMem p) # klog s, owners := (owners s)(p := None)\<rparr>)" (is "core b _ ?s")
proof -
  have a: "inv (sbase b s) s" "grp_wf (ocore s) (gcore s) (ctrls s)" "link_wf (ocore s) (gcore s) (glinks s) (mcore s)"
    "qid_wf (ocore s) (gcore s) (ctrls s) (\<lambda>_. {})" "\<forall>r. 0 \<le> b r" "hw_wf s"
    using c by (simp_all add: core_inv_def)
  let ?oc = "(ocore s)(p := None)"
  have op: "ocore s p = Some (own_ctrl w, own_owner w, [])" using ogroups_ocore [OF p(1)] p(2) by simp
  have oc: "ocore ?s = ?oc" "gcore ?s = gcore s" "mcore ?s = mcore s" by (auto simp: ocore_def gcore_def mcore_def fun_eq_iff)
  have og: "ogroups ?oc = ogroups (ocore s)" using op by (auto simp: ogroups_def fun_eq_iff)
  have sv: "serves ?oc = serves (ocore s)"
  proof (intro ext iffI)
    fix d h
    show "serves (ocore s) d h" if "serves ?oc d h" using that by (auto simp: serves_def split: if_splits)
    show "serves ?oc d h" if h: "serves (ocore s) d h"
    proof -
      obtain q t gs where q: "ocore s q = Some (d, t, gs)" "h \<in> set gs" using h unfolding serves_def by blast
      then have "q \<noteq> p" using op by auto
      then show ?thesis using q by (intro servesI [of _ q d t gs]) auto
    qed
  qed
  have "grp_wf ?oc (gcore s) (ctrls s)" using a(2) unfolding grp_wf_def og by auto
  moreover have "qid_wf ?oc (gcore s) (ctrls s) (\<lambda>_. {})" using a(4) unfolding qid_wf_def pool_wf_def cqids_def sv .
  moreover have "link_wf ?oc (gcore s) (glinks s) (mcore s)"
    by (rule link_wfI) (use link_wfD [OF a(3)] p(3) in \<open>auto split: if_splits\<close>)
  moreover have db: "dev_base b ?oc (gcore s) (ctrls s) r = sbase b s r - (if r = RMem p then 1 else 0)" for r
    using op by (auto simp: dev_base_def split: resource.splits)
  have "inv (dev_base b ?oc (gcore s) (ctrls s)) ?s"
    by (rule inv_rebase [OF a(1)]) (use a(5) in \<open>simp_all add: pdevs_def dev_base_nonneg, simp add: db\<close>)
  moreover have "hw_wf ?s" using a(6) by (auto simp: hw_wf_def)
  ultimately show ?thesis using a(5) by (simp add: core_inv_def oc)
qed

lemma gone_purgeable: "gone s gs D s' \<Longrightarrow> purgeable t s' p \<longleftrightarrow> p \<notin> D \<and> purgeable t s p"
  by (auto simp: gone_def purgeable_def restrict_map_def)

lemma release_maps_core:
  assumes c: "core b (\<lambda>_. {}) s" and t: "t = own_owner w"
  shows "\<exists>s1 s2 s3 n1 n2 n3. map_purge_by_owner ops Host t s = Some (s1, n1) \<and>
    map_purge_by_owner ops Device t s1 = Some (s2, n2) \<and> map_purge_by_owner ops DevQueue t s2 = Some (s3, n3) \<and>
    core b (\<lambda>_. {}) s3 \<and> owners s3 = owners s \<and>
    gone s [] {p. \<exists>r. p \<in> set (mlists s r) \<and> t \<noteq> NULL \<and> purgeable t s p} s3"
proof -
  let ?P = "\<lambda>s r. {p \<in> set (mlists s r). t \<noteq> NULL \<and> purgeable t s p}"
  obtain s1 n1 where 1: "map_purge_by_owner ops Host t s = Some (s1, n1)" "core b (\<lambda>_. {}) s1" "owners s1 = owners s"
    "gone s [] (?P s Host) s1" using purge_core [OF c, of Host t] by blast
  obtain s2 n2 where 2: "map_purge_by_owner ops Device t s1 = Some (s2, n2)" "core b (\<lambda>_. {}) s2" "owners s2 = owners s1"
    "gone s1 [] (?P s1 Device) s2" using purge_core [OF 1(2), of Device t] by blast
  obtain s3 n3 where 3: "map_purge_by_owner ops DevQueue t s2 = Some (s3, n3)" "core b (\<lambda>_. {}) s3" "owners s3 = owners s2"
    "gone s2 [] (?P s2 DevQueue) s3" using purge_core [OF 2(2), of DevQueue t] by blast
  have g2: "gone s [] (?P s Host \<union> ?P s1 Device) s2" using gone_trans [OF 1(4) 2(4)] by simp
  have e: "?P s1 Device = ?P s Device - ?P s Host" "?P s2 DevQueue = ?P s DevQueue - (?P s Host \<union> ?P s1 Device)"
    using 1(4) g2 gone_purgeable [OF 1(4)] gone_purgeable [OF g2] by (auto simp: gone_def)
  have "gone s [] (?P s Host \<union> ?P s1 Device \<union> ?P s2 DevQueue) s3" using gone_trans [OF g2 3(4)] by simp
  moreover have "?P s Host \<union> ?P s1 Device \<union> ?P s2 DevQueue = {p. \<exists>r. p \<in> set (mlists s r) \<and> t \<noteq> NULL \<and> purgeable t s p}"
  proof -
    have "(\<exists>r. Q r) \<longleftrightarrow> Q Host \<or> Q Device \<or> Q DevQueue" for Q by (metis map_reg.exhaust)
    then show ?thesis unfolding e by auto
  qed
  ultimately show ?thesis using 1 2 3 by auto
qed

lemma core_owner:
  assumes c: "core b ex s" and w: "owners s own = Some w"
    and f: "own_ctrl (f w) = own_ctrl w" "own_owner (f w) = own_owner w" "own_groups (f w) = own_groups w"
  shows "core b ex (upd_owner own f s) \<and> gone s [] {} (upd_owner own f s) \<and> owners (upd_owner own f s) = (owners s)(own \<mapsto> f w)"
proof -
  let ?s = "s\<lparr>owners := (owners s)(own \<mapsto> f w)\<rparr>"
  have "ocore ?s = ocore s" using w f by (auto simp: ocore_def fun_eq_iff)
  moreover have "gcore ?s = gcore s" by (simp add: gcore_def fun_eq_iff)
  ultimately have "core b ex ?s" by (intro core_cong [OF c]) simp_all
  then show ?thesis using w by (simp add: upd_owner_def gone_def restrict_map_def)
qed

lemma release_data_core:
  assumes c: "core b (\<lambda>_. {}) s"
  shows "core b (\<lambda>_. {}) (fold (unmap_and_release ops) (glinks s h) s) \<and>
    gone s [] (set (glinks s h)) (fold (unmap_and_release ops) (glinks s h) s) \<and>
    owners (fold (unmap_and_release ops) (glinks s h) s) = owners s"
proof -
  have i: "inv (sbase b s) s" using c by (simp add: core_inv_def)
  then have "fam_ok (glinks s) (dom (maps s))" by (simp add: map_inv_def lists_ok_def)
  then have "set (glinks s h) \<subseteq> dom (maps s)" "distinct (glinks s h)" unfolding fam_ok_def by blast+
  from fold_unmap [OF i this] have f: "inv (sbase b s) (fold (unmap_and_release ops) (glinks s h) s)"
    "shrinks s (set (glinks s h)) (fold (unmap_and_release ops) (glinks s h) s)" by auto
  then have "map_frame s (fold (unmap_and_release ops) (glinks s h) s)" by (simp add: shrinks_def)
  then show ?thesis using core_shrink [OF c f] shrinks_gone [OF f(2)] frame_views(1) by blast
qed

lemma release_good:
  fixes env :: "'e dev_env_scheme"
  assumes g: "good b s" and w: "owners s own = Some w"
  shows "\<exists>s'. snvm_dev_release env ops own s = Some (0, s') \<and> good b s' \<and>
    owners s' = (owners s)(own := None) \<and> gone s (own_groups w) (closing s own w) s'"
proof -
  have co: "core b (\<lambda>_. {}) s" and cn: "cnt_wf s" using g by (simp_all add: dev_inv_def)
  have "grp_wf (ocore s) (gcore s) (ctrls s)" using co by (simp add: core_inv_def)
  then have nn: "own \<noteq> NULL" and "fam_ok (ogroups (ocore s)) (dom (gcore s))"
    using ogroups_ocore [OF w] unfolding grp_wf_def by blast+
  then have "distinct (ogroups (ocore s) own)" unfolding fam_ok_def by blast
  then have ds: "distinct (own_groups w)" using ogroups_ocore [OF w] by (simp add: ogroups_def)
  let ?t = "own_owner w" and ?D1 = "\<Union>g \<in> set (own_groups w). set (glinks s (LGroup g))"
  define s1 where "s1 = release_groups env ops own (own_ctrl w) (own_groups w) s"
  have 1: "core b (\<lambda>_. {}) s1" "gone s (own_groups w) ?D1 s1" "owners s1 = (owners s)(own \<mapsto> w\<lparr>own_groups := []\<rparr>)"
    using release_groups_core [OF co w refl ds, of env] unfolding s1_def by auto
  define s2 where "s2 = upd_owner own (\<lambda>o'. o'\<lparr>own_nr_groups := 0\<rparr>) s1"
  have 2: "core b (\<lambda>_. {}) s2" "gone s1 [] {} s2" "owners s2 = (owners s)(own \<mapsto> w\<lparr>own_groups := [], own_nr_groups := 0\<rparr>)"
    using core_owner [OF 1(1), of own "w\<lparr>own_groups := []\<rparr>" "\<lambda>o'. o'\<lparr>own_nr_groups := 0\<rparr>"] 1(3) unfolding s2_def by auto
  define s3 where "s3 = fold (unmap_and_release ops) (glinks s2 (LData own)) s2"
  have 3: "core b (\<lambda>_. {}) s3" "gone s2 [] (set (glinks s2 (LData own))) s3" "owners s3 = owners s2"
    using release_data_core [OF 2(1), of "LData own"] unfolding s3_def by auto
  define s4 where "s4 = upd_owner own (\<lambda>o'. o'\<lparr>own_nr_data_maps := 0\<rparr>) s3"
  let ?w4 = "w\<lparr>own_groups := [], own_nr_groups := 0, own_nr_data_maps := 0\<rparr>"
  have 4: "core b (\<lambda>_. {}) s4" "gone s3 [] {} s4" "owners s4 = (owners s)(own \<mapsto> ?w4)"
    using core_owner [OF 3(1), of own "w\<lparr>own_groups := [], own_nr_groups := 0\<rparr>" "\<lambda>o'. o'\<lparr>own_nr_data_maps := 0\<rparr>"] 3(3) 2(3)
    unfolding s4_def by auto
  let ?D2 = "?D1 \<union> set (glinks s2 (LData own))"
  have g4: "gone s (own_groups w) ?D2 s4"
    using gone_trans [OF gone_trans [OF gone_trans [OF 1(2) 2(2)] 3(2)] 4(2)] by simp
  let ?P = "\<lambda>s. {p. \<exists>r. p \<in> set (mlists s r) \<and> ?t \<noteq> NULL \<and> purgeable ?t s p}"
  obtain s5 s6 s7 n5 n6 n7 where p: "map_purge_by_owner ops Host ?t s4 = Some (s5, n5)"
    "map_purge_by_owner ops Device ?t s5 = Some (s6, n6)" "map_purge_by_owner ops DevQueue ?t s6 = Some (s7, n7)"
    "core b (\<lambda>_. {}) s7" "owners s7 = owners s4" "gone s4 [] (?P s4) s7"
    using release_maps_core [OF 4(1), of ?t w] by auto
  have l2: "set (glinks s2 (LData own)) = set (glinks s (LData own)) - ?D1"
    using 1(2) 2(2) by (auto simp: gone_def)
  have m4: "?P s4 = ?P s - ?D2" using g4 gone_purgeable [OF g4] by (auto simp: gone_def)
  have D: "?D2 \<union> ?P s4 = closing s own w" unfolding closing_def m4 l2 by auto
  have g7: "gone s (own_groups w) (closing s own w) s7" using gone_trans [OF g4 p(6)] unfolding D by simp
  have "glinks s7 (LData own) = []" using g7 by (auto simp: gone_def closing_def)
  from drop_owner_core [OF p(4) _ _ this, of ?w4]
  have c8: "core b (\<lambda>_. {}) (s7\<lparr>klog := Rel (RMem own) # klog s7, owners := (owners s7)(own := None)\<rparr>)" (is "core b _ ?s8")
    using p(5) 4(3) by simp
  have o8: "owners ?s8 = (owners s)(own := None)" using p(5) 4(3) by auto
  have g8: "gone s (own_groups w) (closing s own w) ?s8" using g7 by (simp add: gone_def)
  have "cnt_wf ?s8" using cn o8 g8 by (auto simp: cnt_wf_def gone_def restrict_map_def split: if_splits)
  moreover have "snvm_dev_release env ops own s = Some (0, ?s8)"
    using nn w p(1-3) by (simp add: snvm_dev_release_def Let_def s1_def s2_def s3_def s4_def k_free_def emit_def)
  ultimately show ?thesis using c8 o8 g8 by (auto simp: dev_inv_def)
qed

lemma map_handlers_good:
  assumes g: "good b s" and e: "env_ok env" and o: "owners s own = Some w"
  shows "nvm_map_host_memory env ops cur c own arg s = (rc, rep, s') \<Longrightarrow> good b s' \<and> same_views s s'"
    and "nvm_map_device_memory env ops cur c own arg s = (rc, rep, s') \<Longrightarrow> good b s' \<and> same_views s s'"
proof -
  have ev: "alloc_fresh env" "gup_ok env" "dma_ok env" "\<forall>q. \<not> is_vmalloc env q" using e by (simp_all add: env_ok_def)
  have o': "own = NULL \<or> owners s own \<noteq> None" using o by simp
  show "good b s' \<and> same_views s s'" if "nvm_map_host_memory env ops cur c own arg s = (rc, rep, s')"
  proof (rule nvm_map_good [OF g o' _ that [unfolded nvm_map_host_memory_def]])
    show "mapper_ok b s (map_userspace env ops cur (ctrl_pdev s c) va n s)" for va n
      unfolding map_common_instances by (rule mapper_map [OF g ev(1) fills_user [OF ev(2-4)]])
  qed
  show "good b s' \<and> same_views s s'" if "nvm_map_device_memory env ops cur c own arg s = (rc, rep, s')"
  proof (rule nvm_map_good [OF g o' _ that [unfolded nvm_map_device_memory_def]])
    show "mapper_ok b s (map_device_memory env ops cur (ctrl_pdev s c) va n s)" for va n
      unfolding map_common_instances by (rule mapper_map [OF g ev(1) fills_gpu])
  qed
qed

lemma destroy_handler_good:
  assumes g: "good b s" and w: "owners s own = Some w"
    and r: "nvm_destroy_queue_group env ops (own_ctrl w) own arg s = (rc, rep, s')"
  shows "good b s'"
proof (cases "\<exists>i. arg = Some i \<and> find_qgroup_locked s own i \<noteq> NULL \<and> s' \<noteq> s")
  case False
  then have "s' = s" using r by (auto simp: nvm_destroy_queue_group_def Let_def split: option.splits if_splits)
  then show ?thesis using g by simp
next
  case True
  then obtain i where i: "arg = Some i" "find_qgroup_locked s own i \<noteq> NULL" "s' \<noteq> s" by blast
  let ?g = "find_qgroup_locked s own i"
  have "?g \<in> set (own_groups w)" using find_qgroup_spec [of s own i ?g] i(2) w by auto
  then have "good b (destroy_qgroup_locked env ops ?g (own_ctrl w) (unlink_group own ?g s))"
    using destroy_good [OF g w] by blast
  moreover have "s' = destroy_qgroup_locked env ops ?g (own_ctrl w) (unlink_group own ?g s)"
    using r i by (auto simp: nvm_destroy_queue_group_def Let_def split: if_splits)
  ultimately show ?thesis by simp
qed

lemma ioctl_good:
  assumes g: "good b s" and e: "env_ok env" and w: "owners s own = Some w"
    and i: "i_cdev s inode = own_ctrl w \<or> i_cdev s inode = NULL"
  shows "\<exists>rc rep s'. snvm_dev_map_ioctl env ops cur inode own cmd s = Some (rc, rep, s') \<and> good b s'"
proof (cases "i_cdev s inode \<in> set (ctrl_list s)")
  case False
  then show ?thesis using g find_by_inode_hw [OF good_hw(1) [OF g], of inode] by (simp add: snvm_dev_map_ioctl_def)
next
  case in_list: True
  let ?c = "own_ctrl w"
  have eq: "i_cdev s inode = ?c" using i in_list good_hw(1) [OF g] unfolding hw_wf_def by metis
  then have True: "?c \<in> set (ctrl_list s)" using in_list by simp
  have hw: "hw_wf s" by (rule good_hw [OF g])
  have c0: "?c \<noteq> NULL" using True hw unfolding hw_wf_def by metis
  obtain d where d: "ctrls s ?c = Some d" using True hw by (auto simp: hw_wf_def)
  have f: "ctrl_find_by_inode s inode = Some ?c" using find_by_inode_hw [OF hw, of inode] eq True by simp
  have ev: "alloc_fresh env" "ida_fresh env" using e by (simp_all add: env_ok_def)
  have ow: "own = NULL \<or> owners s own = Some w \<and> own_ctrl w = ?c" using w by simp
  have tot: "\<exists>rc rep s'. x = (rc, rep, s') \<and> good b s'" if "\<And>rc rep s'. x = (rc, rep, s') \<Longrightarrow> good b s'" for x :: "'c dev_st_scheme outcome"
    using that by (cases x) blast
  have di: "good b s'" if di: "nvm_get_dev_info env ?c s = (rc, rep, s')" for rc rep s'
  proof -
    obtain l where "s' = s\<lparr>klog := l\<rparr>" "\<forall>r. held l r = held (klog s) r" using get_dev_info_log [OF di] by blast
    then show ?thesis using good_log [OF g] by simp
  qed
  show ?thesis
  proof (cases cmd)
    case (NVM_UNMAP_HOST_MEMORY a)
    then show ?thesis using f c0 unmap_good_op(1) [OF g, of Host cur own a] by (simp add: snvm_dev_map_ioctl_def)
  next
    case (NVM_UNMAP_DEVICE_MEMORY a)
    then show ?thesis using f c0 unmap_good_op(1) [OF g, of Device cur own a] by (simp add: snvm_dev_map_ioctl_def)
  next
    case (NVM_UNMAP_DEVICE_QUEUE_MEMORY a)
    then show ?thesis using f c0 unmap_good_op(2) [OF g, of cur a] by (simp add: snvm_dev_map_ioctl_def)
  next
    case (NVME_IOCTL_ADMIN k wr)
    then show ?thesis using f c0 g good_log [OF g, of "Note ''snvme_admin_ioctl'' k # klog s"]
      by (cases "snvm_ctrl_get_live_ndev s ?c") (simp_all add: snvm_dev_map_ioctl_def emit_def)
  next
    case (UNKNOWN_IOCTL k)
    then show ?thesis using f c0 g by (simp add: snvm_dev_map_ioctl_def)
  next
    case (NVM_MAP_HOST_MEMORY a)
    then show ?thesis using f c0 tot [OF conjunct1 [OF map_handlers_good(1) [OF g e w, of cur ?c a]]] by (simp add: snvm_dev_map_ioctl_def)
  next
    case (NVM_MAP_DEVICE_MEMORY a)
    then show ?thesis using f c0 tot [OF conjunct1 [OF map_handlers_good(2) [OF g e w, of cur ?c a]]] by (simp add: snvm_dev_map_ioctl_def)
  next
    case NVM_GET_DEV_INFO
    then show ?thesis using f c0 tot [OF di] by (simp add: snvm_dev_map_ioctl_def)
  next
    case (NVM_CREATE_QUEUE_GROUP a)
    then show ?thesis using f c0 tot [OF conjunct1 [OF create_good [OF g ev ow]]] by (simp add: snvm_dev_map_ioctl_def)
  next
    case (NVM_DESTROY_QUEUE_GROUP a)
    then show ?thesis using f c0 tot [OF destroy_handler_good [OF g w]] by (simp add: snvm_dev_map_ioctl_def)
  next
    case (NVM_ADD_USER_QUEUE a)
    then show ?thesis using f c0 tot [OF conjunct1 [OF add_good [OF g ev(1) w]]] by (simp add: snvm_dev_map_ioctl_def)
  next
    case (NVM_SET_KERNEL_IOQ_CAP a)
    then show ?thesis using f c0 tot [OF set_cap_good [OF g d]] by (simp add: snvm_dev_map_ioctl_def)
  qed
qed

end

section \<open>The backends\<close>

interpretation nvidia_dev: dev_backend "nvidia_ops env" "nv_usable env" nv_pt_res nv_dm_res for env
  by (rule dev_backend.intro) (rule nvidia_maps.map_backend_axioms)

interpretation metax_dev: dev_backend "metax_ops env" mx_ready mx_pt_res mx_dm_res for env
  by (rule dev_backend.intro) (rule metax_maps.map_backend_axioms)

section \<open>Sequences of operations\<close>

text \<open>
  One operation of one process: opening a device, an ioctl on an open file (its inode still
  leads to the controller it was opened on, or to none after the device is gone), mapping
  the registers, and closing a file.
\<close>

inductive dev_step ::
  "'e dev_env_scheme \<Rightarrow> 'a dev_st_scheme peer_memory_ops \<Rightarrow> 'a dev_st_scheme \<Rightarrow> 'a dev_st_scheme \<Rightarrow> bool"
  for env ops where
  step_open: "snvm_dev_open env cur inode s = Some (rc, own, s') \<Longrightarrow> dev_step env ops s s'"
| step_ioctl: "owners s own = Some w \<Longrightarrow> i_cdev s inode = own_ctrl w \<or> i_cdev s inode = NULL \<Longrightarrow>
    snvm_dev_map_ioctl env ops cur inode own cmd s = Some (rc, rep, s') \<Longrightarrow> dev_step env ops s s'"
| step_mmap: "svm_mmap_registers env inode vm_start vm_end s = Some (rc, s') \<Longrightarrow> dev_step env ops s s'"
| step_close: "owners s own = Some w \<Longrightarrow> snvm_dev_release env ops own s = Some (rc, s') \<Longrightarrow> dev_step env ops s s'"

inductive dev_run ::
  "'e dev_env_scheme \<Rightarrow> 'a dev_st_scheme peer_memory_ops \<Rightarrow> 'a dev_st_scheme \<Rightarrow> 'a dev_st_scheme \<Rightarrow> bool"
  for env ops where
  run_refl: "dev_run env ops s s"
| run_step: "dev_run env ops s s' \<Longrightarrow> dev_step env ops s' s'' \<Longrightarrow> dev_run env ops s s''"

context dev_backend
begin

lemma mmap_log:
  assumes "svm_mmap_registers env inode vs ve s = Some (rc, s')"
  shows "s' = s \<or> (\<exists>n. s' = s\<lparr>klog := Note ''vm_iomap_memory'' n # klog s\<rparr>)"
  using assms by (auto simp: svm_mmap_registers_def emit_def split: option.splits if_splits)

lemma step_good:
  assumes "dev_step env ops s s'" "good b s" "env_ok env"
  shows "good b s'"
  using assms(1)
proof cases
  case (step_open cur inode rc own)
  then show ?thesis using open_good [OF assms(2), of env cur inode] assms(3) by (auto simp: env_ok_def)
next
  case (step_ioctl own w inode cur cmd rc rep)
  then show ?thesis using ioctl_good [OF assms(2,3) step_ioctl(1,2), of cur cmd] by auto
next
  case (step_mmap inode vs ve rc)
  then show ?thesis using mmap_log [OF step_mmap] assms(2) good_log [OF assms(2)] by auto
next
  case (step_close own w rc)
  then show ?thesis using release_good [OF assms(2) step_close(1), of env] by auto
qed

lemma run_good:
  "dev_run env ops s s' \<Longrightarrow> good b s \<Longrightarrow> env_ok env \<Longrightarrow> good b s'"
  by (induction rule: dev_run.induct) (auto intro: step_good)

end

end
