(* ===== verification/Snvm_DevSpec.thy ===== *)
theory Snvm_DevSpec
  imports Snvm_DevProps
begin

text \<open>
  What the character devices promise about user queues, as a specification on its own: an
  open file has a list of queue identifiers on one controller; the identifiers of a batch are
  new on that controller; a file changes only its own list. Every operation of the device
  refines a step of the specification.
\<close>

section \<open>The specification\<close>

type_synonym fds = "ptr \<Rightarrow> (ptr \<times> u16 list) option"

inductive spec_step :: "fds \<Rightarrow> fds \<Rightarrow> bool" where
  spec_skip: "spec_step A A"
| spec_open: "A p = None \<Longrightarrow> spec_step A (A(p \<mapsto> (c, [])))"
| spec_add: "A p = Some (c, qs) \<Longrightarrow> distinct ids \<Longrightarrow>
    (\<forall>p' qs'. A p' = Some (c, qs') \<longrightarrow> set ids \<inter> set qs' = {}) \<Longrightarrow> spec_step A (A(p \<mapsto> (c, qs @ ids)))"
| spec_drop: "A p = Some (c, qs) \<Longrightarrow> spec_step A (A(p \<mapsto> (c, [])))"
| spec_close: "A p = Some x \<Longrightarrow> spec_step A (A(p := None))"

definition exclusive :: "fds \<Rightarrow> bool" where
  "exclusive A \<longleftrightarrow> (\<forall>p c qs. A p = Some (c, qs) \<longrightarrow> distinct qs) \<and>
     (\<forall>p p' c qs qs'. A p = Some (c, qs) \<and> A p' = Some (c, qs') \<and> p \<noteq> p' \<longrightarrow> set qs \<inter> set qs' = {})"

lemma spec_step_exclusive: "spec_step A A' \<Longrightarrow> exclusive A \<Longrightarrow> exclusive A'"
proof (induction rule: spec_step.induct)
  case (spec_add A p c qs ids)
  let ?A = "A(p \<mapsto> (c, qs @ ids))"
  have d: "distinct qs" "set ids \<inter> set qs = {}" using spec_add unfolding exclusive_def by blast+
  have x: "set qs \<inter> set qs' = {}" "set ids \<inter> set qs' = {}" if "A q = Some (c, qs')" "q \<noteq> p" for q qs'
    using that spec_add unfolding exclusive_def by blast+
  have o: "distinct qs1" if "A q = Some (c1, qs1)" for q c1 qs1 using spec_add.prems that unfolding exclusive_def by blast
  have y: "set qs1 \<inter> set qs2 = {}" if "A q1 = Some (c1, qs1)" "A q2 = Some (c1, qs2)" "q1 \<noteq> q2" for q1 q2 c1 qs1 qs2
    using spec_add.prems that unfolding exclusive_def by blast
  have "distinct qs1" if "?A q = Some (c1, qs1)" for q c1 qs1
    using that o d spec_add.hyps(2) by (auto split: if_splits)
  moreover have "set qs1 \<inter> set qs2 = {}" if h: "?A q1 = Some (c1, qs1)" "?A q2 = Some (c1, qs2)" "q1 \<noteq> q2" for q1 q2 c1 qs1 qs2
  proof (cases "q1 = p \<or> q2 = p")
    case True
    then show ?thesis using h x [of q1 qs1] x [of q2 qs2] by (auto split: if_splits)
  next
    case False
    then show ?thesis using h y [of q1 c1 qs1 q2 qs2] by simp
  qed
  ultimately show ?case unfolding exclusive_def by blast
qed (auto simp: exclusive_def split: if_splits; blast)+

section \<open>The invariant gives the specification's\<close>

lemma fd_queues_cases:
  assumes "fd_queues s p = Some (c, qs)"
  obtains t gs where "ocore s p = Some (c, t, gs)" "qs = concat (map (live (gcore s)) gs)"
  using assms by (auto simp: fd_queues_def)

context dev_backend
begin

lemma one_group:
  assumes "good b s" "ocore s p = Some (c, t, gs)"
  shows "gs = [] \<or> (\<exists>g. gs = [g])"
proof -
  obtain w where w: "owners s p = Some w" "own_groups w = gs" using assms(2) by (auto simp: ocore_def)
  then have "length gs \<le> 1" using assms(1) by (auto simp: dev_inv_def cnt_wf_def)
  then show ?thesis by (cases gs) auto
qed

lemma good_exclusive:
  assumes g: "good b s"
  shows "exclusive (fd_queues s)"
proof -
  have w: "grp_wf (ocore s) (gcore s) (ctrls s)" and q: "\<And>g. distinct (live (gcore s) g)"
    "\<And>c g h. serves (ocore s) c g \<Longrightarrow> serves (ocore s) c h \<Longrightarrow> g \<noteq> h \<Longrightarrow> set (live (gcore s) g) \<inter> set (live (gcore s) h) = {}"
    using g unfolding dev_inv_def core_inv_def qid_wf_def by blast+
  have fam: "fam_ok (ogroups (ocore s)) (dom (gcore s))" using w by (simp add: grp_wf_def)
  have e: "qs = [] \<or> (\<exists>g. qs = live (gcore s) g \<and> serves (ocore s) c g \<and> g \<in> set (ogroups (ocore s) p))"
    if h: "fd_queues s p = Some (c, qs)" for p c qs
  proof -
    obtain t gs where o: "ocore s p = Some (c, t, gs)" "qs = concat (map (live (gcore s)) gs)"
      using h by (rule fd_queues_cases)
    then show ?thesis using one_group [OF g o(1)] servesI [of "ocore s" p c t gs] by (auto simp: ogroups_def)
  qed
  have "distinct qs" if "fd_queues s p = Some (c, qs)" for p c qs using e [OF that] q(1) by auto
  moreover have "set qs \<inter> set qs' = {}"
    if h: "fd_queues s p = Some (c, qs)" "fd_queues s p' = Some (c, qs')" "p \<noteq> p'" for p p' c qs qs'
  proof (cases "qs = [] \<or> qs' = []")
    case False
    then obtain g g' where gg: "qs = live (gcore s) g" "serves (ocore s) c g" "g \<in> set (ogroups (ocore s) p)"
      "qs' = live (gcore s) g'" "serves (ocore s) c g'" "g' \<in> set (ogroups (ocore s) p')"
      using e [OF h(1)] e [OF h(2)] by blast
    then have "g \<noteq> g'" using fam h(3) unfolding fam_ok_def by blast
    then show ?thesis using q(2) gg by blast
  qed auto
  ultimately show ?thesis unfolding exclusive_def by blast
qed

lemma fd_queues_other:
  assumes g: "good b s" and w: "owners s own = Some w" "gp \<in> set (own_groups w)"
    and o: "\<And>p. p \<noteq> own \<Longrightarrow> ocore s' p = ocore s p" and l: "\<And>h. h \<noteq> gp \<Longrightarrow> live (gcore s') h = live (gcore s) h"
    and p: "p \<noteq> own"
  shows "fd_queues s' p = fd_queues s p"
proof -
  have fam: "fam_ok (ogroups (ocore s)) (dom (gcore s))" using g by (simp add: dev_inv_def core_inv_def grp_wf_def)
  have "gp \<in> set (ogroups (ocore s) own)" using w by (simp add: ogroups_def ocore_def)
  then have "gp \<notin> set (ogroups (ocore s) p)" using fam p unfolding fam_ok_def by blast
  then have m: "concat (map (live (gcore s')) gs) = concat (map (live (gcore s)) gs)" if "ocore s p = Some (c, t, gs)" for c t gs
    using that by (intro arg_cong [where f = concat]) (auto simp: ogroups_def intro!: l)
  show ?thesis using o [OF p] m by (cases "ocore s p") (auto simp: fd_queues_def)
qed

section \<open>Every operation refines a step\<close>

lemma views_skip: "same_views s s' \<Longrightarrow> spec_step (fd_queues s) (fd_queues s')"
  using fd_queues_cong [of s' s] by (simp add: same_views_def spec_skip)

lemma unmap_op_views:
  assumes g: "good b s"
  shows "nvm_unmap_memory ops r cur own arg s = Some (rc, rep, s') \<Longrightarrow> same_views s s'"
    and "nvm_unmap_device_queue_memory ops cur arg s = Some (rc, rep, s') \<Longrightarrow> same_views s s'"
proof -
  have f: "p = NULL \<or> (\<exists>m. maps s p = Some m)" if "map_find r cur va s = Some p" for r va p
    using map_find_ok [OF good_hw(2) [OF g], of r cur va] listed_map [OF good_hw(2) [OF g]] that
    by (cases "find (map_matches cur va s) (mlists s r)") auto
  have u: "same_views s (unmap_and_release ops p (count_unmap own m s))" "same_views s (unmap_and_release ops p s)"
    if "maps s p = Some m" for p m
  proof -
    have "same_views (count_unmap own m s) (unmap_and_release ops p (count_unmap own m s))"
      by (rule unmap_views [OF count_good(2) [OF g]]) (simp add: count_good(4) [OF g] that)
    then show "same_views s (unmap_and_release ops p (count_unmap own m s))" by (rule same_views_trans [OF count_views(2)])
    show "same_views s (unmap_and_release ops p s)" by (rule unmap_views [OF g that])
  qed
  show "same_views s s'" if "nvm_unmap_memory ops r cur own arg s = Some (rc, rep, s')"
    using that f u by (fastforce simp: nvm_unmap_memory_def split: option.splits if_splits)
  show "same_views s s'" if "nvm_unmap_device_queue_memory ops cur arg s = Some (rc, rep, s')"
    using that f u(2) by (fastforce simp: nvm_unmap_device_queue_memory_def split: option.splits if_splits)
qed

lemma destroy_refines:
  assumes g: "good b s" and w: "owners s own = Some w"
    and r: "nvm_destroy_queue_group env ops (own_ctrl w) own arg s = (rc, rep, s')"
  shows "spec_step (fd_queues s) (fd_queues s')"
proof (cases "rc = 0")
  case False
  then have "s' = s" using r by (auto simp: nvm_destroy_queue_group_def Let_def split: option.splits if_splits)
  then show ?thesis by (simp add: spec_skip)
next
  case True
  then obtain i where i: "arg = Some i" "find_qgroup_locked s own i \<noteq> NULL"
    "s' = destroy_qgroup_locked env ops (find_qgroup_locked s own i) (own_ctrl w) (unlink_group own (find_qgroup_locked s own i) s)"
    using r by (auto simp: nvm_destroy_queue_group_def Let_def ENODEV_def EFAULT_def EINVAL_def ENOENT_def split: option.splits if_splits)
  let ?g = "find_qgroup_locked s own i"
  let ?w = "w\<lparr>own_groups := remove1 ?g (own_groups w), own_nr_groups := own_nr_groups w - 1\<rparr>"
  have gi: "?g \<in> set (own_groups w)" using find_qgroup_spec [of s own i ?g] i(2) w by auto
  have gg: "group_gone s own ?g ?w s'" using destroy_good [OF g w gi, of env] i(3) by simp
  have ow: "owners s' = (owners s)(own \<mapsto> ?w)" "qgroups s' = (qgroups s)(?g := None)"
    using gg by (simp_all add: group_gone_def Let_def)
  have "own_groups w = [?g]" using one_group [OF g ogroups_ocore [OF w]] gi by auto
  then have "fd_queues s' own = Some (own_ctrl w, [])" using ow by (simp add: fd_queues_def ocore_def)
  moreover have "fd_queues s' p = fd_queues s p" if "p \<noteq> own" for p
    by (rule fd_queues_other [OF g w gi]) (use ow that in \<open>auto simp: ocore_def live_def gcore_def\<close>)
  ultimately have "fd_queues s' = (fd_queues s)(own \<mapsto> (own_ctrl w, []))" by auto
  moreover obtain qs where "fd_queues s own = Some (own_ctrl w, qs)" using w by (simp add: fd_queues_def ocore_def)
  ultimately show ?thesis using spec_drop by metis
qed

lemma add_refines:
  assumes g: "good b s" and e: "alloc_fresh env" and w: "owners s own = Some w"
    and r: "nvm_add_user_queue env (own_ctrl w) own arg s = (rc, rep, s')"
  shows "spec_step (fd_queues s) (fd_queues s')"
proof -
  note a = add_good [OF g e w r]
  have oc: "ocore s' = ocore s" using a by (simp add: ocore_def fun_eq_iff)
  show ?thesis
  proof (cases "rc = 0")
    case False
    then have "fd_queues s' = fd_queues s" using a oc by (intro fd_queues_cong) auto
    then show ?thesis by (simp add: spec_skip)
  next
    case True
    then obtain req :: nvm_ioctl_add_user_queue where gn: "find_qgroup_locked s own (aq_group_id req) \<noteq> NULL"
      and ad: "added (find_qgroup_locked s own (aq_group_id req)) 0 (unat (nr_pairs req)) s s'" using a by blast
    let ?g = "find_qgroup_locked s own (aq_group_id req)"
    obtain ids where ids: "live (gcore s') = (live (gcore s))(?g := live (gcore s) ?g @ ids)"
      using ad unfolding added_def if_P [OF refl] by (elim exE conjE)
    have gi: "?g \<in> set (own_groups w)" using find_qgroup_spec [of s own "aq_group_id req" ?g] w gn by auto
    have og: "own_groups w = [?g]" using one_group [OF g ogroups_ocore [OF w]] gi by auto
    have f: "fd_queues s own = Some (own_ctrl w, live (gcore s) ?g)" "fd_queues s' own = Some (own_ctrl w, live (gcore s) ?g @ ids)"
      using w og oc ids by (simp_all add: fd_queues_def ocore_def)
    have o: "fd_queues s' p = fd_queues s p" if "p \<noteq> own" for p
      by (rule fd_queues_other [OF g w gi]) (use oc ids that in auto)
    have eq: "fd_queues s' = (fd_queues s)(own \<mapsto> (own_ctrl w, live (gcore s) ?g @ ids))" using f o by auto
    have x: "exclusive (fd_queues s')" using a good_exclusive by blast
    have "distinct (live (gcore s) ?g @ ids)" using x f(2) unfolding exclusive_def by blast
    moreover have "set ids \<inter> set qs' = {}" if h: "fd_queues s p' = Some (own_ctrl w, qs')" "p' \<noteq> own" for p' qs'
    proof -
      have "fd_queues s' p' = Some (own_ctrl w, qs')" using o [OF h(2)] h(1) by simp
      then have "set (live (gcore s) ?g @ ids) \<inter> set qs' = {}" using x f(2) h(2) unfolding exclusive_def by blast
      then show ?thesis by auto
    qed
    ultimately show ?thesis unfolding eq using f(1)
      by (intro spec_add) (auto, metis Pair_inject disjoint_iff option.inject)
  qed
qed

lemma ioctl_refines:
  assumes g: "good b s" and e: "env_ok env" and w: "owners s own = Some w"
    and i: "i_cdev s inode = own_ctrl w \<or> i_cdev s inode = NULL"
    and r: "snvm_dev_map_ioctl env ops cur inode own cmd s = Some (rc, rep, s')"
  shows "spec_step (fd_queues s) (fd_queues s')"
proof (cases "i_cdev s inode \<in> set (ctrl_list s)")
  case False
  then have "s' = s" using r find_by_inode_hw [OF good_hw(1) [OF g], of inode] by (simp add: snvm_dev_map_ioctl_def)
  then show ?thesis by (simp add: spec_skip)
next
  case in_list: True
  let ?c = "own_ctrl w"
  have eq: "i_cdev s inode = ?c" using i in_list good_hw(1) [OF g] unfolding hw_wf_def by metis
  have hw: "hw_wf s" by (rule good_hw(1) [OF g])
  have c0: "?c \<noteq> NULL" using in_list eq hw unfolding hw_wf_def by metis
  obtain d where d: "ctrls s ?c = Some d" using in_list eq hw by (auto simp: hw_wf_def)
  have f: "ctrl_find_by_inode s inode = Some ?c" using find_by_inode_hw [OF hw, of inode] eq in_list by simp
  have ev: "alloc_fresh env" "ida_fresh env" using e by (simp_all add: env_ok_def)
  have ow: "own = NULL \<or> owners s own = Some w \<and> own_ctrl w = ?c" using w by simp
  show ?thesis
  proof (cases cmd)
    case (NVM_UNMAP_HOST_MEMORY a)
    then show ?thesis using r f c0 unmap_op_views(1) [OF g, of _ cur own a rc rep s'] views_skip [of s s'] by (simp add: snvm_dev_map_ioctl_def)
  next
    case (NVM_UNMAP_DEVICE_MEMORY a)
    then show ?thesis using r f c0 unmap_op_views(1) [OF g, of _ cur own a rc rep s'] views_skip [of s s'] by (simp add: snvm_dev_map_ioctl_def)
  next
    case (NVM_UNMAP_DEVICE_QUEUE_MEMORY a)
    then show ?thesis using r f c0 unmap_op_views(2) [OF g, of cur a rc rep s'] views_skip [of s s'] by (simp add: snvm_dev_map_ioctl_def)
  next
    case (NVME_IOCTL_ADMIN k wr)
    then have "s' = s \<or> (\<exists>l. s' = s\<lparr>klog := l\<rparr>)"
      using r f c0 by (cases "snvm_ctrl_get_live_ndev s ?c") (auto simp: snvm_dev_map_ioctl_def emit_def)
    then show ?thesis by (auto simp: spec_skip)
  next
    case (UNKNOWN_IOCTL k)
    then show ?thesis using r f c0 by (simp add: snvm_dev_map_ioctl_def spec_skip)
  next
    case (NVM_MAP_HOST_MEMORY a)
    then show ?thesis using r f c0 map_handlers_good(1) [OF g e w, of cur ?c a rc rep s'] views_skip [of s s'] by (simp add: snvm_dev_map_ioctl_def)
  next
    case (NVM_MAP_DEVICE_MEMORY a)
    then show ?thesis using r f c0 map_handlers_good(2) [OF g e w, of cur ?c a rc rep s'] views_skip [of s s'] by (simp add: snvm_dev_map_ioctl_def)
  next
    case NVM_GET_DEV_INFO
    then obtain l where "s' = s\<lparr>klog := l\<rparr>" using r f c0 get_dev_info_log [of env ?c s rc rep s'] by (auto simp: snvm_dev_map_ioctl_def)
    then show ?thesis by (simp add: spec_skip)
  next
    case (NVM_CREATE_QUEUE_GROUP a)
    then show ?thesis using r f c0 create_good [OF g ev ow] by (auto simp: snvm_dev_map_ioctl_def spec_skip)
  next
    case (NVM_DESTROY_QUEUE_GROUP a)
    then show ?thesis using r f c0 destroy_refines [OF g w] by (simp add: snvm_dev_map_ioctl_def)
  next
    case (NVM_ADD_USER_QUEUE a)
    then show ?thesis using r f c0 add_refines [OF g ev(1) w] by (simp add: snvm_dev_map_ioctl_def)
  next
    case (NVM_SET_KERNEL_IOQ_CAP a)
    then have "same_views s s'" using r f c0
      by (auto simp: snvm_dev_map_ioctl_def nvm_set_kernel_ioq_cap_def upd_ctrl_def emit_def same_views_def ocore_def gcore_def
          fun_eq_iff split: option.splits)
    then show ?thesis by (rule views_skip)
  qed
qed

lemma open_refines:
  assumes g: "good b s" and e: "alloc_fresh env" and r: "snvm_dev_open env cur inode s = Some (rc, own, s')"
  shows "spec_step (fd_queues s) (fd_queues s')"
proof -
  have gc: "gcore s' = gcore s"
    using r by (auto simp: snvm_dev_open_def k_alloc_def Let_def emit_def gcore_def fun_eq_iff split: option.splits if_splits)
  have o: "if rc = 0 then owners s own = None \<and> owners s' = (owners s)(own \<mapsto> \<lparr>own_ctrl = i_cdev s inode, own_owner = cur,
      own_groups = [], own_nr_groups = 0, own_nr_data_maps = 0\<rparr>) else owners s' = owners s"
    using open_good [OF g e, of cur inode] r by auto
  show ?thesis
  proof (cases "rc = 0")
    case False
    then have "fd_queues s' = fd_queues s" using o gc by (intro ext) (simp add: fd_queues_def ocore_def)
    then show ?thesis by (simp add: spec_skip)
  next
    case True
    then have "fd_queues s' = (fd_queues s)(own \<mapsto> (i_cdev s inode, []))" "fd_queues s own = None"
      using o gc by (auto simp: fd_queues_def ocore_def)
    then show ?thesis by (simp add: spec_open)
  qed
qed

lemma close_views:
  assumes g: "good b s" and w: "owners s own = Some w" and r: "snvm_dev_release env ops own s = Some (rc, s')"
  shows "fd_queues s' = (fd_queues s)(own := None)"
proof -
  have rg: "owners s' = (owners s)(own := None)" "qgroups s' = qgroups s |` (- set (own_groups w))"
    using release_good [OF g w, of env] r by (auto simp: gone_def)
  have "own_groups w = [] \<or> (\<exists>g. own_groups w = [g])" using one_group [OF g ogroups_ocore [OF w]] .
  then have "fd_queues s' p = fd_queues s p" if p: "p \<noteq> own" for p
  proof
    assume "own_groups w = []"
    then have "gcore s' = gcore s" using rg by (intro gcore_cong) (simp add: restrict_map_def)
    then show ?thesis using rg p by (simp add: fd_queues_def ocore_def)
  next
    assume "\<exists>g. own_groups w = [g]"
    then obtain gp where gp: "own_groups w = [gp]" by blast
    show ?thesis
      by (rule fd_queues_other [OF g w, of gp]) (use gp rg p in \<open>auto simp: ocore_def gcore_def live_def restrict_map_def\<close>)
  qed
  moreover have "fd_queues s' own = None" using rg by (simp add: fd_queues_def ocore_def)
  ultimately show ?thesis by auto
qed

lemma close_refines:
  assumes "good b s" and w: "owners s own = Some w" and "snvm_dev_release env ops own s = Some (rc, s')"
  shows "spec_step (fd_queues s) (fd_queues s')"
proof -
  obtain x where "fd_queues s own = Some x" using w by (simp add: fd_queues_def ocore_def)
  then show ?thesis using spec_close close_views [OF assms] by metis
qed

lemma step_refines:
  assumes "dev_step env ops s s'" "good b s" "env_ok env"
  shows "spec_step (fd_queues s) (fd_queues s')"
  using assms(1)
proof cases
  case (step_open cur inode rc own)
  then show ?thesis using open_refines [OF assms(2)] assms(3) by (auto simp: env_ok_def)
next
  case (step_ioctl own w inode cur cmd rc rep)
  then show ?thesis using ioctl_refines [OF assms(2,3)] by blast
next
  case (step_mmap inode vs ve rc)
  then show ?thesis using mmap_log [OF step_mmap] by (auto simp: spec_skip)
next
  case (step_close own w rc)
  then show ?thesis using close_refines [OF assms(2)] by blast
qed

end

end
