(* ===== verification/Snvm_DevDemo.thy ===== *)
theory Snvm_DevDemo
  imports Snvm_DevSpec
begin

text \<open>
  The hypothesis under which the guarantees of the character device are stated, and a run of
  the driver that meets it: one controller, an open file with a queue group and its two rings.
\<close>

section \<open>The driver in operation\<close>

definition dev_ok ::
  "'e dev_env_scheme \<Rightarrow> 'a dev_st_scheme peer_memory_ops \<Rightarrow> (resource \<Rightarrow> int) \<Rightarrow> 'a dev_st_scheme \<Rightarrow> bool" where
  "dev_ok env ops b s \<longleftrightarrow>
     dev_inv (nv_usable env) nv_pt_res nv_dm_res b s \<and> ops = nvidia_ops env \<or>
     dev_inv mx_ready mx_pt_res mx_dm_res b s \<and> ops = metax_ops env"

lemma dev_ok_cases:
  assumes "dev_ok env ops b s"
  obtains "ops = nvidia_ops env" "dev_inv (nv_usable env) nv_pt_res nv_dm_res b s"
  | "ops = metax_ops env" "dev_inv mx_ready mx_pt_res mx_dm_res b s"
  using assms by (auto simp: dev_ok_def)

text \<open>A driver with one controller bound to it and nothing open.\<close>

definition demo_dndev :: nvme_dev where
  "demo_dndev = \<lparr>online_queues = 3, online_user_queues = 0, user_start_qid = 0, max_qid = 8, io_queues_default = 2,
     io_queues_read = 0, io_queues_poll = 0, num_vecs = 3, q_depth = 1024, db_stride = 1, nr_allocated_queues = 3,
     nr_write_queues = 0, nr_poll_queues = 0, ctrl_max_io_queues = 8, cap_kernel_ioq = 2, admin_q = True,
     max_hw_sectors = 1024, sgls = 0, quirks = 0\<rparr>"

definition demo_denv :: dev_env where
  "demo_denv = map_env.extend demo_menv
     \<lparr>submit_sync_cmd = (\<lambda>_ _ _. 0), ida_simple_get = (\<lambda>l. if held l (RGroupId 1) = 0 then 1 else -28),
      copy_to_user = (\<lambda>_. True), find_get_ns = (\<lambda>_ _. Some \<lparr>ns_disk_name = ''nvme0n1'', ns_lba_shift = 9\<rparr>),
      pci_resource_start = (\<lambda>_. 0xF0000000), pci_resource_len = (\<lambda>_. 0x4000), vm_iomap_memory = (\<lambda>_ _ _. 0),
      admin_ioctl = (\<lambda>_ _ _ _. 0)\<rparr>"

definition demo_dctrl :: ctrl where
  "demo_dctrl = \<lparr>c_pdev = 3, c_name = ''ssnvme0'', c_number = 0, c_rdev = (240, 0), c_chrdev = True,
     c_setup = \<lparr>setup_valid = 0, setup_cap_kernel_ioq = 0, setup_nr_write = 0, setup_nr_poll = 0\<rparr>,
     user_qid_bitmap = None, user_qid_first = 0, user_qid_last = 0\<rparr>"

definition demo_dst :: dev_st where
  "demo_dst = map_st.extend (demo_mst\<lparr>ctrl_list := [1], ctrls := [1 \<mapsto> demo_dctrl], i_cdev := (\<lambda>i. if i = 7 then 1 else 0)\<rparr>)
     \<lparr>owners = Map.empty, qgroups = Map.empty, pdev_driver = [3 \<mapsto> ''snvme''], drvdata = [3 \<mapsto> demo_dndev]\<rparr>"

lemmas demo_dev_defs = demo_map_defs demo_denv_def demo_dst_def demo_dctrl_def map_env.extend_def map_st.extend_def

lemma demo_denv_ok: "env_ok demo_denv"
  by (simp add: env_ok_def alloc_fresh_def ida_fresh_def gup_ok_def dma_ok_def demo_dev_defs held_above_fresh)

lemma demo_dev_ok: "dev_ok demo_denv (nvidia_ops demo_denv) (\<lambda>_. 0) demo_dst"
proof -
  have v: "ocore demo_dst = Map.empty" "gcore demo_dst = Map.empty" "mcore demo_dst = Map.empty"
    by (simp_all add: ocore_def gcore_def mcore_def demo_dev_defs fun_eq_iff)
  have b: "dev_base (\<lambda>_. 0) Map.empty Map.empty (ctrls demo_dst) = (\<lambda>_. 0)"
    by (auto simp: dev_base_def demo_dev_defs fun_eq_iff split: resource.splits)
  have "map_inv (nv_usable demo_denv) nv_pt_res nv_dm_res (\<lambda>_. 0) demo_dst"
    by (simp add: map_inv_def nv_usable_def nv_nonnull_def nv_ready_def nv_names_def total_def lists_ok_def
        fam_ok_def demo_dev_defs)
  moreover have "pool_wf Map.empty Map.empty 1 demo_dctrl {}"
    by (simp add: pool_wf_def cqids_def serves_def pool_used_def demo_dctrl_def)
  then have "qid_wf Map.empty Map.empty (ctrls demo_dst) (\<lambda>_. {})"
    by (simp add: qid_wf_def live_def demo_dst_def map_st.extend_def serves_def demo_mst_def ctrl_st.extend_def)
  moreover have "grp_wf Map.empty Map.empty (ctrls demo_dst)" "link_wf Map.empty Map.empty (glinks demo_dst) Map.empty"
    by (auto simp: grp_wf_def link_wf_def fam_ok_def ogroups_def demo_dev_defs)
  moreover have "hw_wf demo_dst" "cnt_wf demo_dst"
    by (auto simp: hw_wf_def cnt_wf_def demo_dev_defs demo_dndev_def max_num_ctrls_def split: if_splits)
  ultimately show ?thesis by (simp add: dev_ok_def dev_inv_def core_inv_def v b)
qed

section \<open>A run\<close>

definition demo_group :: nvm_ioctl_queue_group where
  "demo_group = \<lparr>qg_group_id = 0, qg_flags = 0, qg_max_queues = 0, qg_reserved = [0]\<rparr>"

definition demo_ring :: "u64 \<Rightarrow> u8 \<Rightarrow> nvm_ioctl_map" where
  "demo_ring va k = \<lparr>vaddr_start = va, n_pages = 1, ioaddrs = 0, map_group_id = 1, map_kind = k, map_reserved0 = [0, 0, 0]\<rparr>"

definition demo_add :: nvm_ioctl_add_user_queue where
  "demo_add = \<lparr>aq_group_id = 1, nr_pairs = 1, aq_flags = 0, aq_reserved = [0],
     aq_pairs = \<lparr>sq_vaddr = 4096, cq_vaddr = 8192\<rparr> # replicate 31 \<lparr>sq_vaddr = 0, cq_vaddr = 0\<rparr>, out_pairs = []\<rparr>"

definition demo_s1 :: dev_st where
  "demo_s1 = demo_dst\<lparr>klog := [Acq (RMem 1)],
     owners := [1 \<mapsto> \<lparr>own_ctrl = 1, own_owner = 9, own_groups = [], own_nr_groups = 0, own_nr_data_maps = 0\<rparr>]\<rparr>"

definition demo_s2 :: dev_st where
  "demo_s2 = demo_s1\<lparr>klog := [Acq (RGroupId 1), Acq (RMem 2), Acq (RMem 1)], qgroups := [2 \<mapsto> new_group 1],
     owners := [1 \<mapsto> \<lparr>own_ctrl = 1, own_owner = 9, own_groups = [2], own_nr_groups = 1, own_nr_data_maps = 0\<rparr>]\<rparr>"

definition demo_map :: "u64 \<Rightarrow> u8 \<Rightarrow> ptr \<Rightarrow> map_desc" where
  "demo_map va k p = \<lparr>m_owner = 9, m_vaddr = va, m_pdev = 3, m_page_size = 4096, m_data = DPages p [1000], m_release = RelUser,
     m_group_id = 1, m_kind = k, m_n_addrs = 1, m_addrs = [4096000]\<rparr>"

definition demo_s3 :: dev_st where
  "demo_s3 = demo_s2\<lparr>klog := [Acq (RDma 3 4096000), Acq (RPage 1000), Acq (RMem 8), Acq (RMem 4)] @ klog demo_s2,
     maps := [4 \<mapsto> demo_map 4096 1 8], mlists := (mlists demo_s2)(Host := [4]), glinks := (glinks demo_s2)(LGroup 2 := [4]),
     qgroups := [2 \<mapsto> (new_group 1)\<lparr>g_nr_maps := 1\<rparr>]\<rparr>"

definition demo_s4 :: dev_st where
  "demo_s4 = demo_s3\<lparr>klog := [Acq (RDma 3 4096000), Acq (RPage 1000), Acq (RMem 32), Acq (RMem 16)] @ klog demo_s3,
     maps := [4 \<mapsto> demo_map 4096 1 8, 16 \<mapsto> demo_map 8192 2 32], mlists := (mlists demo_s2)(Host := [4, 16]),
     glinks := (glinks demo_s2)(LGroup 2 := [4, 16]), qgroups := [2 \<mapsto> (new_group 1)\<lparr>g_nr_maps := 2\<rparr>]\<rparr>"

lemmas demo_states = demo_s1_def demo_s2_def demo_s3_def demo_s4_def demo_dev_defs

lemma demo_hw: "hw_wf demo_dst" "hw_wf demo_s1" "hw_wf demo_s2" "hw_wf demo_s3" "hw_wf demo_s4"
  by (auto simp: hw_wf_def demo_states demo_dndev_def max_num_ctrls_def split: if_splits)

lemma demo_inode:
  "ctrl_find_by_inode demo_dst 7 = Some 1" "ctrl_find_by_inode demo_s1 7 = Some 1" "ctrl_find_by_inode demo_s2 7 = Some 1"
  "ctrl_find_by_inode demo_s3 7 = Some 1" "ctrl_find_by_inode demo_s4 7 = Some 1"
  by (simp_all add: find_by_inode_hw demo_hw) (simp_all add: demo_states)

lemma demo_run1: "snvm_dev_open demo_denv 9 7 demo_dst = Some (0, 1, demo_s1)"
  by (simp add: snvm_dev_open_def demo_inode k_alloc_def Let_def) (simp add: demo_states emit_def)

lemma demo_run2: "\<exists>rep. snvm_dev_map_ioctl demo_denv (nvidia_ops demo_denv) 9 7 1 (NVM_CREATE_QUEUE_GROUP (Some demo_group)) demo_s1 = Some (0, rep, demo_s2)"
  by (simp add: snvm_dev_map_ioctl_def demo_inode nvm_create_queue_group_def k_alloc_def Let_def demo_group_def)
   (simp add: demo_states emit_def NVM_MAX_GROUPS_PER_FD_def new_group_def k_alloc_def Let_def numeral_2_eq_2)

lemmas demo_map_eval = demo_states emit_def emit_all_def map_userspace_def create_descriptor_def map_user_pages_def k_alloc_def
  upd_map_def Let_def ctrl_pdev_def attach_map_def kind_defs find_qgroup_locked_def has_group_id_def link_map_def upd_group_def
  copy_addrs_def list_insert_map_def new_group_def demo_map_def PAGE_SIZE_def PAGE_MASK_def fun_eq_iff

lemma demo_run3: "\<exists>rep. snvm_dev_map_ioctl demo_denv (nvidia_ops demo_denv) 9 7 1 (NVM_MAP_HOST_MEMORY (Some (demo_ring 4096 1))) demo_s2 = Some (0, rep, demo_s3)"
  by (simp add: snvm_dev_map_ioctl_def demo_inode nvm_map_host_memory_def nvm_map_memory_def demo_ring_def map_request_invalid_def kind_defs)
   (simp add: demo_map_eval)

lemma demo_run4: "\<exists>rep. snvm_dev_map_ioctl demo_denv (nvidia_ops demo_denv) 9 7 1 (NVM_MAP_HOST_MEMORY (Some (demo_ring 8192 2))) demo_s3 = Some (0, rep, demo_s4)"
  by (simp add: snvm_dev_map_ioctl_def demo_inode nvm_map_host_memory_def nvm_map_memory_def demo_ring_def map_request_invalid_def kind_defs)
   (simp add: demo_map_eval)

definition demo_pool :: ctrl where
  "demo_pool = demo_dctrl\<lparr>user_qid_bitmap := Some (replicate 64 False), user_qid_first := 3, user_qid_last := 8\<rparr>"

lemma demo_pool_init: "snvm_user_qid_pool_init_locked True (Some demo_dndev) demo_dctrl = (0, demo_pool)"
  by (simp add: snvm_user_qid_pool_init_locked_def demo_dctrl_def demo_dndev_def demo_pool_def Let_def BITS_TO_LONGS_def)

lemma demo_pool_alloc: "snvm_user_qid_alloc_locked demo_pool 1 =
    (0, [3], demo_pool\<lparr>user_qid_bitmap := Some ((replicate 64 False)[0 := True])\<rparr>)"
  by (simp add: snvm_user_qid_alloc_locked_def demo_pool_def demo_dctrl_def user_qid_pool_size_def find_first_zero_bit_def Let_def)

lemma demo_resolve: "resolve_pairs (s :: dev_st) [4, 16] (req_pairs demo_add) = Some [(4, 16)]"
  if "maps s = maps demo_s4"
  using that by (simp add: demo_map_eval req_pairs_def demo_add_def ring_mask_def)

lemma demo_run5: "\<exists>rep s'. nvm_add_user_queue demo_denv 1 1 (Some demo_add) demo_s4 = (0, rep, s')"
proof -
  have v: "\<not> add_request_invalid demo_add"
    by (simp add: add_request_invalid_def req_pairs_def demo_add_def NVM_MAX_QUEUES_PER_GROUP_def)
  have a: "k_alloc demo_denv demo_s4 = (64, emit (Acq (RMem 64)) demo_s4)" by (simp add: k_alloc_def demo_states Let_def)
  let ?s = "emit (Acq (RMem 64)) demo_s4"
  have l: "snvm_ctrl_get_live_ndev ?s 1 = Some demo_dndev"
    by (simp add: snvm_ctrl_get_live_ndev_def ctrl_pdev_def emit_def demo_states PCI_DRIVER_NAME_def) (simp add: demo_dndev_def)
  have g: "find_qgroup_locked ?s 1 (aq_group_id demo_add) = 2"
    by (simp add: find_qgroup_locked_def has_group_id_def emit_def demo_states demo_add_def new_group_def)
  have q: "qgroups ?s 2 = Some ((new_group 1)\<lparr>g_nr_maps := 2\<rparr>)" "glinks ?s (LGroup 2) = [4, 16]" "ctrls ?s 1 = Some demo_dctrl"
    by (simp_all add: emit_def demo_states)
  let ?s1 = "(emit (Acq (RBitmap 1)) ?s)\<lparr>ctrls := (ctrls ?s)(1 \<mapsto> demo_pool)\<rparr>"
  let ?p2 = "demo_pool\<lparr>user_qid_bitmap := Some ((replicate 64 False)[0 := True])\<rparr>"
  have km: "kmalloc demo_denv (klog ?s) \<noteq> NULL" by (simp add: demo_denv_def map_env.extend_def demo_map_defs fresh_ptr_pos)
  have p: "pool_init demo_denv 1 demo_dndev ?s = (0, ?s1)"
    using km by (simp only: pool_init_def q(3) option.case demo_pool_init not_False_eq_True simp_thms prod.case)
      (simp add: demo_pool_def demo_dctrl_def)
  have al: "pool_alloc 1 1 ?s1 = (0, [3], ?s1\<lparr>ctrls := (ctrls ?s1)(1 \<mapsto> ?p2)\<rparr>)"
    using demo_pool_alloc by (simp add: pool_alloc_def)
  let ?s2 = "?s1\<lparr>ctrls := (ctrls ?s1)(1 \<mapsto> ?p2)\<rparr>"
  have mp: "maps ?s2 4 = Some (demo_map 4096 1 8)" "maps ?s2 16 = Some (demo_map 8192 2 32)"
    by (simp_all add: emit_def demo_states)
  obtain s3 where cp: "create_pairs demo_denv (ctrl_pdev ?s 1) demo_dndev (zip [3] [(4, 16)]) 0 ?s2 = (0, 1, s3)"
    using mp by (simp add: adapter_alloc_cq_user_def adapter_alloc_sq_user_def adapter_cmd_def demo_map_def Let_def emit_def demo_denv_def
        map_env.extend_def)
  have "\<exists>rep s'. add_queues demo_denv 1 demo_dndev 2 [(4, 16)] demo_add ?s = (0, rep, s')"
    unfolding add_queues_def p prod.case using al cp
    by (simp add: demo_add_def Let_def) (simp add: demo_denv_def map_env.extend_def)
  then show ?thesis using v a l g q demo_resolve [of ?s]
    by (auto simp: nvm_add_user_queue_def add_user_queue_body_def Let_def emit_def demo_add_def new_group_def NVM_MAX_QUEUES_PER_GROUP_def)
qed

lemma dev_ok_run:
  assumes "dev_ok env ops b s" "env_ok env" "dev_run env ops s s'"
  shows "dev_ok env ops b s' \<and> exclusive (fd_queues s')"
  using assms(1)
proof (cases rule: dev_ok_cases)
  case 1
  with nvidia_dev.run_good [of env env s s' b] nvidia_dev.good_exclusive assms(2,3) show ?thesis by (auto simp: dev_ok_def)
next
  case 2
  with metax_dev.run_good [of env env s s' b] metax_dev.good_exclusive assms(2,3) show ?thesis by (auto simp: dev_ok_def)
qed

lemma demo_step:
  "dev_step demo_denv (nvidia_ops demo_denv) demo_s1 demo_s2" "dev_step demo_denv (nvidia_ops demo_denv) demo_s2 demo_s3"
  "dev_step demo_denv (nvidia_ops demo_denv) demo_s3 demo_s4"
proof -
  have o: "\<exists>w. owners s 1 = Some w \<and> (i_cdev s 7 = own_ctrl w \<or> i_cdev s 7 = NULL)" if "s \<in> {demo_s1, demo_s2, demo_s3}" for s
    using that by (auto simp: demo_states)
  show "dev_step demo_denv (nvidia_ops demo_denv) demo_s1 demo_s2" "dev_step demo_denv (nvidia_ops demo_denv) demo_s2 demo_s3"
    "dev_step demo_denv (nvidia_ops demo_denv) demo_s3 demo_s4"
    using o [of demo_s1] o [of demo_s2] o [of demo_s3] demo_run2 demo_run3 demo_run4 by (blast intro: step_ioctl)+
qed

lemma demo_runs: "dev_run demo_denv (nvidia_ops demo_denv) demo_dst demo_s4" "dev_run demo_denv (nvidia_ops demo_denv) demo_dst demo_s2"
  using run_step [OF run_step [OF run_step [OF run_step [OF run_refl step_open [OF demo_run1]] demo_step(1)] demo_step(2)] demo_step(3)]
    run_step [OF run_step [OF run_refl step_open [OF demo_run1]] demo_step(1)] by auto

lemma demo_ok: "dev_ok demo_denv (nvidia_ops demo_denv) (\<lambda>_. 0) demo_s4" "dev_ok demo_denv (nvidia_ops demo_denv) (\<lambda>_. 0) demo_s2"
  using dev_ok_run [OF demo_dev_ok demo_denv_ok demo_runs(1)] dev_ok_run [OF demo_dev_ok demo_denv_ok demo_runs(2)] by auto

end
