(* ===== verification/Snvm_DevClaims.thy ===== *)
theory Snvm_DevClaims
  imports Snvm_DevDemo
begin

text \<open>
  What the character device of a controller guarantees to the processes that use it, over the
  model of \<open>snvm_dev_ioctl.c\<close> and \<open>snvm_qgroup.c\<close> with either peer memory backend.
\<close>

section \<open>Releasing memory sends no command to a controller\<close>

locale quiet_backend =
  fixes ops :: "'a map_st_scheme peer_memory_ops"
  assumes put_quiet: "hwq d (klog (snd (op_put_pages ops va pt s))) = hwq d (klog s)"
    and unmap_quiet: "hwq d (klog (snd (op_dma_unmap_pages ops e pt m s))) = hwq d (klog s)"
begin

lemma k_free_quiet: "hwq d (klog (k_free p t)) = hwq d (klog t)" "hwq d (klog (emit Undef t)) = hwq d (klog t)"
    "hwq d (klog (upd_map p f t')) = hwq d (klog t')"
  by (simp_all add: k_free_def upd_map_def split: option.splits)

lemma loop_quiet: "hwq d (klog (gpu_unmap_loop ops ds pt ms j s)) = hwq d (klog s)"
  by (induction ds arbitrary: j s) (simp_all add: unmap_quiet split: option.splits)

lemma rel_quiet: "hwq d (rev (map (\<lambda>i. Rel (f i)) xs) @ l) = hwq d l"
  by (rule hwq_other) auto

lemma release_quiet: "hwq d (klog (run_release ops r p s)) = hwq d (klog s)"
  by (simp add: run_release_def release_user_pages_def release_gpu_memory_def release_gpu_ioqueue_memory_def ioq_unmap_def
      Let_def k_free_quiet loop_quiet rel_quiet put_quiet unmap_quiet split: release_fn.splits option.splits map_data.splits list.splits)

lemma unmap_release_quiet: "hwq d (klog (unmap_and_release ops p s)) = hwq d (klog s)"
  by (simp add: unmap_and_release_def unlink_map_def Let_def k_free_quiet release_quiet split: option.splits)

lemma fold_quiet: "hwq d (klog (fold (unmap_and_release ops) ps s)) = hwq d (klog s)"
  by (induction ps arbitrary: s) (simp_all add: unmap_release_quiet)

end

interpretation nvidia_quiet: quiet_backend "nvidia_ops env" for env
  by unfold_locales (auto simp: nvidia_ops_def nvidia_peer_put_pages_def nvidia_peer_dma_unmap_pages_def emit_def split: option.splits)

interpretation metax_quiet: quiet_backend "metax_ops env" for env
  by unfold_locales (auto simp: metax_ops_def metax_peer_put_pages_def metax_peer_dma_unmap_pages_def emit_def Let_def k_free_def split: option.splits)

lemma drain_hwq:
  assumes "deletes_ok env" "c \<noteq> NULL \<longrightarrow> ctrls s c \<noteq> None"
  shows "hwq d (klog (drain_queues env d True c uqs s)) = hw_minus (hwq d (klog s)) (set (live_qids uqs))"
  using assms(2)
proof (induction uqs arbitrary: s)
  case Nil
  show ?case by (simp add: live_qids_def)
next
  case (Cons u uqs)
  let ?q = "uq_qid u"
  let ?s1 = "delete_pair env d ?q s"
  let ?s2 = "if c \<noteq> NULL then upd_ctrl c (\<lambda>d. snvm_user_qid_free_locked d ?q) ?s1 else ?s1"
  have k: "ctrls ?s1 = ctrls s"
    by (simp add: delete_pair_def adapter_delete_cq_def adapter_delete_sq_def adapter_delete_queue_def adapter_cmd_def Let_def emit_def)
  have "klog ?s2 = klog ?s1" "c \<noteq> NULL \<longrightarrow> ctrls ?s2 c \<noteq> None"
    using Cons.prems k by (auto simp: upd_ctrl_def)
  moreover have "uq_alive u \<Longrightarrow> drain_queues env d True c (u # uqs) s = drain_queues env d True c uqs ?s2"
    by (simp add: Let_def delete_pair_def)
  ultimately show ?case
    using Cons.IH [of s] Cons.IH [of ?s2] Cons.prems hwq_delete_pair [OF assms(1), of d ?q s]
    by (cases "uq_alive u") (simp_all add: live_qids_def hw_minus_minus)
qed

section \<open>The lookup of rings\<close>

definition ring_at :: "'a map_st_scheme \<Rightarrow> u8 \<Rightarrow> u64 \<Rightarrow> ptr \<Rightarrow> bool" where
  "ring_at s k va x \<longleftrightarrow> (\<exists>m. maps s x = Some m \<and> (m_kind m = 0 \<or> m_kind m = k) \<and> m_kind m \<noteq> NVM_MAP_KIND_DATA \<and>
     m_vaddr m = and va (ring_mask m))"

lemma resolve_pair_spec:
  assumes "NULL \<notin> set xs" "resolve_pair s pr xs a b = (x, y)"
  shows "(x = a \<or> x \<in> set xs \<and> ring_at s NVM_MAP_KIND_RING_SQ (sq_vaddr pr) x) \<and>
    (y = b \<or> y \<in> set xs \<and> ring_at s NVM_MAP_KIND_RING_CQ (cq_vaddr pr) y) \<and>
    (x \<noteq> NULL \<and> y \<noteq> NULL \<or>
     (x = NULL \<longleftrightarrow> a = NULL \<and> (\<forall>z \<in> set xs. \<not> ring_at s NVM_MAP_KIND_RING_SQ (sq_vaddr pr) z)) \<and>
     (y = NULL \<longleftrightarrow> b = NULL \<and> (\<forall>z \<in> set xs. \<not> ring_at s NVM_MAP_KIND_RING_CQ (cq_vaddr pr) z)))"
  using assms
proof (induction xs arbitrary: a b)
  case (Cons z xs)
  let ?S = "ring_at s NVM_MAP_KIND_RING_SQ (sq_vaddr pr)" and ?C = "ring_at s NVM_MAP_KIND_RING_CQ (cq_vaddr pr)"
  let ?a = "if ?S z then z else a" and ?b = "if ?C z then z else b"
  have z: "z \<noteq> NULL" "NULL \<notin> set xs" using Cons.prems(1) by auto
  have "resolve_pair s pr (z # xs) a b = (if (?S z \<or> ?C z) \<and> ?a \<noteq> NULL \<and> ?b \<noteq> NULL then (?a, ?b) else resolve_pair s pr xs ?a ?b)
    \<or> resolve_pair s pr (z # xs) a b = (if ?a \<noteq> NULL \<and> ?b \<noteq> NULL then (?a, ?b) else resolve_pair s pr xs ?a ?b)"
    by (cases "maps s z") (auto simp: ring_at_def Let_def kind_defs)
  then have "(x, y) = (?a, ?b) \<and> ?a \<noteq> NULL \<and> ?b \<noteq> NULL \<or> resolve_pair s pr xs ?a ?b = (x, y)"
    using Cons.prems(2) by (auto split: if_splits)
  then show ?case
  proof
    assume "(x, y) = (?a, ?b) \<and> ?a \<noteq> NULL \<and> ?b \<noteq> NULL"
    then show ?thesis by auto
  next
    assume r: "resolve_pair s pr xs ?a ?b = (x, y)"
    show ?thesis using Cons.IH [OF z(2) r] z(1) by (auto split: if_splits)
  qed
qed auto

lemma resolve_pairs_spec:
  assumes "NULL \<notin> set xs"
  shows "case resolve_pairs s xs prs of
      None \<Rightarrow> \<exists>pr \<in> set prs. (\<forall>x \<in> set xs. \<not> ring_at s NVM_MAP_KIND_RING_SQ (sq_vaddr pr) x) \<or>
        (\<forall>x \<in> set xs. \<not> ring_at s NVM_MAP_KIND_RING_CQ (cq_vaddr pr) x)
    | Some rs \<Rightarrow> list_all2 (\<lambda>pr (x, y). x \<in> set xs \<and> y \<in> set xs \<and> ring_at s NVM_MAP_KIND_RING_SQ (sq_vaddr pr) x \<and>
        ring_at s NVM_MAP_KIND_RING_CQ (cq_vaddr pr) y) prs rs"
proof (induction prs)
  case (Cons pr prs)
  obtain x y where r: "resolve_pair s pr xs NULL NULL = (x, y)" by fastforce
  show ?case using Cons.IH resolve_pair_spec [OF assms r] by (auto simp: r split: option.splits)
qed simp

section \<open>Destroying a group keeps the controller and the pool in step\<close>

locale sync_backend = dev_backend ops ready pt_res dm_res + quiet_backend ops
  for ops :: "'c dev_st_scheme peer_memory_ops" and ready pt_res dm_res
begin

lemma destroy_hwq:
  assumes "deletes_ok env" "g \<noteq> NULL" "qgroups s g = Some gr" "snvm_ctrl_get_live_ndev s c \<noteq> None" "ctrls s c \<noteq> None"
  defines "d \<equiv> ctrl_pdev s c"
  shows "hwq d (klog (destroy_qgroup_locked env ops g c s)) = hw_minus (hwq d (klog s)) (set (live_qids (g_queues gr)))"
proof -
  have "set (live_qids (rev qs)) = set (live_qids qs)" for qs by (simp add: live_qids_def)
  moreover have "hwq d (klog (upd_group g f t)) = hwq d (klog t)" for f and t :: "'c dev_st_scheme"
    by (simp add: upd_group_def split: option.splits)
  ultimately show ?thesis
    using assms(2-5) drain_hwq [OF assms(1), of c s d "rev (g_queues gr)"]
    by (simp add: destroy_qgroup_locked_def Let_def k_free_quiet fold_quiet d_def)
qed

lemma destroy_sync:
  assumes g: "good b s" and w: "owners s own = Some w" and dk: "deletes_ok env"
    and lv: "snvm_ctrl_get_live_ndev s (own_ctrl w) \<noteq> None" and sy: "in_sync s (ctrl_pdev s (own_ctrl w)) (own_ctrl w)"
    and r: "nvm_destroy_queue_group env ops (own_ctrl w) own (Some i) s = (0, rep, s')"
  defines "gp \<equiv> find_qgroup_locked s own i"
  shows "group_gone s own gp (w\<lparr>own_groups := remove1 gp (own_groups w), own_nr_groups := own_nr_groups w - 1\<rparr>) s' \<and>
    in_sync s' (ctrl_pdev s (own_ctrl w)) (own_ctrl w)"
proof -
  let ?c = "own_ctrl w" and ?t = "unlink_group own gp s"
  let ?w = "w\<lparr>own_groups := remove1 gp (own_groups w), own_nr_groups := own_nr_groups w - 1\<rparr>"
  have gp: "gp \<noteq> NULL" "s' = destroy_qgroup_locked env ops gp ?c ?t"
    using r by (auto simp: nvm_destroy_queue_group_def gp_def Let_def ENODEV_def EINVAL_def ENOENT_def split: if_splits)
  obtain gr where gr: "gp \<in> set (own_groups w)" "qgroups s gp = Some gr"
    using find_qgroup_spec [of s own i gp] gp(1) w by (auto simp: gp_def)
  have gg: "group_gone s own gp ?w s'" using destroy_good [OF g w gr(1), of env] gp(2) by simp
  have wf: "grp_wf (ocore s) (gcore s) (ctrls s)" and q: "qid_wf (ocore s) (gcore s) (ctrls s) (\<lambda>_. {})"
    using g by (simp_all add: dev_inv_def core_inv_def)
  note oc = ogroups_ocore [OF w]
  have c: "ctrls s ?c \<noteq> None" using wf oc unfolding grp_wf_def by blast
  have t: "klog ?t = klog s" "qgroups ?t = qgroups s" "ctrls ?t = ctrls s" "ctrl_pdev ?t = ctrl_pdev s"
    "snvm_ctrl_get_live_ndev ?t = snvm_ctrl_get_live_ndev s"
    by (simp_all add: unlink_group_def upd_owner_def w ctrl_pdev_def snvm_ctrl_get_live_ndev_def fun_eq_iff)
  have h: "hwq (ctrl_pdev s ?c) (klog s') = hw_minus (hwq (ctrl_pdev s ?c) (klog s)) (set (live (gcore s) gp))"
    using destroy_hwq [OF dk gp(1), of ?t gr ?c] gr(2) t c lv gp(2) by (simp add: live_def gcore_def)
  have o': "ocore s' = (ocore s)(own \<mapsto> (?c, own_owner w, remove1 gp (own_groups w)))" "live (gcore s') = (live (gcore s))(gp := [])"
    using gg by (auto simp: group_gone_def Let_def ocore_def live_def gcore_def)
  have "serves (ocore s) ?c gp" using oc gr(1) by (rule servesI)
  then have "cqids (ocore s') (gcore s') ?c = cqids (ocore s) (gcore s) ?c - set (live (gcore s) gp)"
    using q serves_remove [of "ocore s" "gcore s" "ctrls s" own ?c "own_owner w" "own_groups w" gp, OF wf oc gr(1)] unfolding cqids_def o' qid_wf_def by (auto split: if_splits; blast)
  then show ?thesis using gg h sy by (simp add: in_sync_def hw_minus_def)
qed

end

interpretation nvidia_sync: sync_backend "nvidia_ops env" "nv_usable env" nv_pt_res nv_dm_res for env
  by (intro sync_backend.intro nvidia_dev.dev_backend_axioms nvidia_quiet.quiet_backend_axioms)

interpretation metax_sync: sync_backend "metax_ops env" mx_ready mx_pt_res mx_dm_res for env
  by (intro sync_backend.intro metax_dev.dev_backend_axioms metax_quiet.quiet_backend_axioms)

section \<open>The lemmas of either backend on the driver in operation\<close>

lemma live_files: "cqids (ocore s) (gcore s) c = {q. \<exists>p qs. fd_queues s p = Some (c, qs) \<and> q \<in> set qs}"
  unfolding cqids_def serves_def fd_queues_def by (auto; fastforce)

lemma dev_ok_pool:
  assumes "dev_ok env ops b s" "ctrls s c = Some d"
  shows "pool_used d = {q. \<exists>p qs. fd_queues s p = Some (c, qs) \<and> q \<in> set qs}"
proof -
  have "qid_wf (ocore s) (gcore s) (ctrls s) (\<lambda>_. {})" using assms(1) by (auto simp: dev_ok_def dev_inv_def core_inv_def)
  then show ?thesis using assms(2) by (simp add: qid_wf_def pool_wf_def live_files)
qed

lemma dev_ok_release:
  assumes "dev_ok env ops b s" "owners s own = Some w"
  shows "\<exists>s'. snvm_dev_release env ops own s = Some (0, s') \<and> dev_ok env ops b s' \<and> owners s' = (owners s)(own := None) \<and>
    gone s (own_groups w) (closing s own w) s' \<and> fd_queues s' = (fd_queues s)(own := None)"
  using assms(1)
proof (cases rule: dev_ok_cases)
  case 1
  then show ?thesis using nvidia_dev.release_good [of env b s own w env] nvidia_dev.close_views [of env b s own w env] assms(2)
    by (fastforce simp: dev_ok_def)
next
  case 2
  then show ?thesis using metax_dev.release_good [of b s own w env env] metax_dev.close_views [of b s own w env env] assms(2)
    by (fastforce simp: dev_ok_def)
qed

lemma dev_ok_add:
  assumes "dev_ok env ops b s" "env_ok env" "owners s own = Some w"
    "nvm_add_user_queue env (own_ctrl w) own arg s = (rc, rep, s')"
  shows "dev_ok env ops b s' \<and> owners s' = owners s \<and> (rc \<noteq> 0 \<longrightarrow> live (gcore s') = live (gcore s)) \<and>
    (rc = 0 \<longrightarrow> (\<exists>req. arg = Some req \<and> find_qgroup_locked s own (aq_group_id req) \<noteq> NULL \<and>
       added (find_qgroup_locked s own (aq_group_id req)) 0 (unat (nr_pairs req)) s s')) \<and>
    keeps_sync (\<forall>req. arg = Some req \<longrightarrow> length (aq_pairs req) = NVM_MAX_QUEUES_PER_GROUP) env (own_ctrl w) s s'"
proof -
  have e: "alloc_fresh env" using assms(2) by (simp add: env_ok_def)
  show ?thesis using assms(1)
  proof (cases rule: dev_ok_cases)
    case 1
    then show ?thesis using nvidia_dev.add_good [OF 1(2) e assms(3,4)] by (simp add: dev_ok_def)
  next
    case 2
    then show ?thesis using metax_dev.add_good [OF 2(2) e assms(3,4)] by (simp add: dev_ok_def)
  qed
qed

lemma dev_ok_held:
  assumes "dev_ok env ops b s" "owners s = Map.empty" "maps s = Map.empty"
  shows "held (klog s) r = b r + (case r of RBitmap c \<Rightarrow> of_bool (\<exists>d. ctrls s c = Some d \<and> user_qid_bitmap d \<noteq> None) | _ \<Rightarrow> 0)"
proof -
  have "ocore s = Map.empty" using assms(2) by (simp add: ocore_def fun_eq_iff)
  moreover have "grp_wf (ocore s) (gcore s) (ctrls s)" using assms(1) by (auto simp: dev_ok_def dev_inv_def core_inv_def)
  ultimately have "gcore s = Map.empty" by (auto simp: grp_wf_def ogroups_def)
  moreover have "held (klog s) r = dev_base b (ocore s) (gcore s) (ctrls s) r"
    using assms(1,3) by (auto simp: dev_ok_def dev_inv_def core_inv_def map_inv_def total_def)
  ultimately show ?thesis using \<open>ocore s = Map.empty\<close> by (simp add: dev_base_def split: resource.splits)
qed

section \<open>Properties of every sequence of operations\<close>











section \<open>Adding user queues\<close>

text \<open>(C4) Adding queues is all or nothing: when the call fails, for whatever reason, each file
  has the queues it had, and each pool the identifiers it had in use; when it succeeds, the
  group named in the request, and no other, has as many new queues as were asked for.\<close>

theorem add_all_or_nothing:
  assumes "dev_ok env ops b s" "env_ok env" "owners s own = Some w"
    and "nvm_add_user_queue env (own_ctrl w) own arg s = (rc, rep, s')"
  shows "owners s' = owners s \<and>
    (if rc \<noteq> 0
     then fd_queues s' = fd_queues s \<and>
       (\<forall>c d d'. ctrls s c = Some d \<and> ctrls s' c = Some d' \<longrightarrow> pool_used d' = pool_used d)
     else \<exists>req ids. arg = Some req \<and> length ids = unat (nr_pairs req) \<and>
       live (gcore s') = (live (gcore s))(find_qgroup_locked s own (aq_group_id req) :=
         live (gcore s) (find_qgroup_locked s own (aq_group_id req)) @ ids))"
proof -
  note a = dev_ok_add [OF assms]
  have f: "rc \<noteq> 0 \<Longrightarrow> fd_queues s' = fd_queues s"
    using a by (intro fd_queues_cong) (simp_all add: ocore_def fun_eq_iff)
  moreover have "pool_used d' = pool_used d" if "rc \<noteq> 0" "ctrls s c = Some d" "ctrls s' c = Some d'" for c d d'
    using dev_ok_pool [OF assms(1) that(2)] dev_ok_pool [OF conjunct1 [OF a] that(3)] f [OF that(1)] by simp
  moreover have "rc = 0 \<Longrightarrow> \<exists>req ids. arg = Some req \<and> length ids = unat (nr_pairs req) \<and>
      live (gcore s') = (live (gcore s))(find_qgroup_locked s own (aq_group_id req) :=
        live (gcore s) (find_qgroup_locked s own (aq_group_id req)) @ ids)"
    using a unfolding added_def by (simp; blast)
  ultimately show ?thesis using a by (cases "rc = 0") (simp, metis)
qed

theorem add_all_or_nothing_witness:
  "\<exists>rep s'. nvm_add_user_queue demo_denv 1 1 (Some demo_add) demo_s4 = (0, rep, s') \<and> length (live (gcore s') 2) = 1"
proof -
  let ?w = "\<lparr>own_ctrl = 1, own_owner = 9, own_groups = [2], own_nr_groups = 1, own_nr_data_maps = 0\<rparr>"
  obtain rep s' where r: "nvm_add_user_queue demo_denv 1 1 (Some demo_add) demo_s4 = (0, rep, s')" using demo_run5 by blast
  have w: "owners demo_s4 1 = Some ?w" by (simp add: demo_states)
  have "find_qgroup_locked demo_s4 1 (aq_group_id demo_add) = 2" "live (gcore demo_s4) 2 = []" "unat (nr_pairs demo_add) = 1"
    by (simp_all add: find_qgroup_locked_def has_group_id_def demo_states demo_add_def new_group_def live_def gcore_def live_qids_def)
  then show ?thesis using add_all_or_nothing [OF demo_ok(1) demo_denv_ok w, of "Some demo_add" 0 rep s'] r by auto
qed



text \<open>(C21) The rings a request names are looked up in the group's own mappings: the lookup
  gives a submission ring and a completion ring of the group for every pair when each pair has
  both, fails otherwise, and never takes a data mapping for a ring.\<close>

theorem resolve_pairs_sound_complete:
  assumes "dev_ok env ops b s"
  shows "case resolve_pairs s (glinks s (LGroup g)) prs of
      None \<Rightarrow> \<exists>pr \<in> set prs. (\<forall>x \<in> set (glinks s (LGroup g)). \<not> ring_at s NVM_MAP_KIND_RING_SQ (sq_vaddr pr) x) \<or>
        (\<forall>x \<in> set (glinks s (LGroup g)). \<not> ring_at s NVM_MAP_KIND_RING_CQ (cq_vaddr pr) x)
    | Some rs \<Rightarrow> list_all2 (\<lambda>pr (x, y). x \<in> set (glinks s (LGroup g)) \<and> y \<in> set (glinks s (LGroup g)) \<and>
        ring_at s NVM_MAP_KIND_RING_SQ (sq_vaddr pr) x \<and> ring_at s NVM_MAP_KIND_RING_CQ (cq_vaddr pr) y) prs rs"
proof -
  have "lists_ok s" "\<forall>p m. maps s p = Some m \<longrightarrow> p \<noteq> NULL"
    using assms by (auto simp: dev_ok_def dev_inv_def core_inv_def map_inv_def)
  then have "NULL \<notin> set (glinks s (LGroup g))" unfolding lists_ok_def fam_ok_def by blast
  then show ?thesis by (rule resolve_pairs_spec)
qed

theorem resolve_pairs_sound_complete_witness:
  "resolve_pairs demo_s4 (glinks demo_s4 (LGroup 2)) (req_pairs demo_add) = Some [(4, 16)] \<and>
   ring_at demo_s4 NVM_MAP_KIND_RING_SQ 4096 4 \<and> ring_at demo_s4 NVM_MAP_KIND_RING_CQ 8192 16"
proof -
  have r: "resolve_pairs demo_s4 (glinks demo_s4 (LGroup 2)) (req_pairs demo_add) = Some [(4, 16)]"
    by (simp add: demo_resolve demo_states)
  then show ?thesis using resolve_pairs_sound_complete [OF demo_ok(1), where g = 2 and prs = "req_pairs demo_add"]
    by (simp add: req_pairs_def demo_add_def)
qed

text \<open>(C22) The doorbell offsets told to user space are those of the NVMe register map, without
  overflow of their 32 bits when the doorbells fit the mapped registers; the doorbells of a
  pair are two different words, both in the mapped range, and two pairs share none.\<close>

theorem doorbells_exact:
  assumes "0 < stride" "len < 2 ^ 32"
    and "0x1000 + (2 * unat q + 2) * unat stride * 4 \<le> len" "0x1000 + (2 * unat q' + 2) * unat stride * 4 \<le> len"
  shows "unat (sq_doorbell_offset (doorbells stride q)) = 0x1000 + 2 * unat q * (4 * unat stride) \<and>
    unat (cq_doorbell_offset (doorbells stride q)) = 0x1000 + (2 * unat q + 1) * (4 * unat stride) \<and>
    unat (cq_doorbell_offset (doorbells stride q)) + 4 \<le> len \<and>
    (q \<noteq> q' \<longrightarrow> {sq_doorbell_offset (doorbells stride q), cq_doorbell_offset (doorbells stride q)} \<inter>
      {sq_doorbell_offset (doorbells stride q'), cq_doorbell_offset (doorbells stride q')} = {})"
proof -
  let ?n = "unat stride"
  have st: "0 < ?n" using assms(1) by (simp add: word_gt_0 unat_gt_0)
  have o: "unat (of_nat m :: u32) = m" if "m < 2 ^ 32" for m using that by (simp add: unat_of_nat)
  have w: "sq_doorbell_offset (doorbells stride x) = of_nat (0x1000 + 2 * unat x * (4 * ?n))"
    "cq_doorbell_offset (doorbells stride x) = of_nat (0x1000 + (2 * unat x + 1) * (4 * ?n))" for x
    by (simp_all add: doorbells_def NVME_REG_DBS_def algebra_simps)
  have u: "unat (sq_doorbell_offset (doorbells stride x)) = 0x1000 + 2 * unat x * (4 * ?n)"
    "unat (cq_doorbell_offset (doorbells stride x)) = 0x1000 + (2 * unat x + 1) * (4 * ?n)"
    if "0x1000 + (2 * unat x + 2) * ?n * 4 \<le> len" for x
  proof -
    define m where "m = unat x * ?n"
    have e: "(2 * unat x + 2) * ?n * 4 = 8 * m + 8 * ?n" "2 * unat x * (4 * ?n) = 8 * m" "(2 * unat x + 1) * (4 * ?n) = 8 * m + 4 * ?n"
      by (simp_all add: m_def algebra_simps)
    have "0x1000 + 2 * unat x * (4 * ?n) < 2 ^ 32" "0x1000 + (2 * unat x + 1) * (4 * ?n) < 2 ^ 32"
      using that assms(2) unfolding e by simp_all
    then show "unat (sq_doorbell_offset (doorbells stride x)) = 0x1000 + 2 * unat x * (4 * ?n)"
      "unat (cq_doorbell_offset (doorbells stride x)) = 0x1000 + (2 * unat x + 1) * (4 * ?n)"
      unfolding w by (simp_all only: o)
  qed
  have ne: "x \<noteq> y" if "unat x \<noteq> unat y" for x y :: u32 using that by auto
  have d: "0x1000 + a * (4 * ?n) \<noteq> 0x1000 + b * (4 * ?n)" if "a \<noteq> b" for a b using st that by auto
  have "{sq_doorbell_offset (doorbells stride q), cq_doorbell_offset (doorbells stride q)} \<inter>
      {sq_doorbell_offset (doorbells stride q'), cq_doorbell_offset (doorbells stride q')} = {}" if "q \<noteq> q'"
  proof -
    have "unat q \<noteq> unat q'" using that by (simp add: word_unat_eq_iff)
    then have "2 * unat q \<noteq> 2 * unat q'" "2 * unat q \<noteq> 2 * unat q' + 1" "2 * unat q + 1 \<noteq> 2 * unat q'"
      "2 * unat q + 1 \<noteq> 2 * unat q' + 1" by presburger+
    note n = this [THEN d, folded u [OF assms(3)] u [OF assms(4)], THEN ne]
    show ?thesis using n by blast
  qed
  moreover have "unat (cq_doorbell_offset (doorbells stride q)) + 4 \<le> len"
    using u(2) [OF assms(3)] assms(3) st by (simp add: algebra_simps)
  ultimately show ?thesis using u [OF assms(3)] by blast
qed

theorem doorbells_exact_witness:
  "unat (sq_doorbell_offset (doorbells 1 3)) = 0x1018 \<and> unat (cq_doorbell_offset (doorbells 1 3)) = 0x101C"
  using doorbells_exact [where stride = 1 and len = 16384 and q = 3 and q' = 4] by simp

section \<open>Destroying a group and asking for the device\<close>



definition sleeps :: "history \<Rightarrow> nat" where
  "sleeps l = length (filter (\<lambda>e. e = Note ''msleep'' 50) l)"

lemma get_ns_sleeps: "get_ns env d s = (r, s') \<Longrightarrow> sleeps (klog s') = sleeps (klog s)"
  by (auto simp: get_ns_def sleeps_def split: option.splits)

lemma ns_wait_sleeps:
  "ns_wait env d w s = (r, s') \<Longrightarrow> sleeps (klog s') \<le> sleeps (klog s) + (5049 - w) div 50"
proof (induction env d w s arbitrary: r s' rule: ns_wait.induct)
  case (1 env d w s)
  let ?t = "emit (Note ''flush_work'' d) (emit (Note ''msleep'' 50) s)"
  show ?case
  proof (cases "w < 5000")
    case True
    obtain r1 s1 where g: "get_ns env d ?t = (r1, s1)" by fastforce
    have s1: "sleeps (klog s1) = Suc (sleeps (klog s))" using get_ns_sleeps [OF g] by (simp add: sleeps_def)
    have d: "(5049 - w) div 50 = Suc ((5049 - (w + 50)) div 50)" using True by simp
    show ?thesis
    proof (cases r1)
      case None
      then have "ns_wait env d (w + 50) s1 = (r, s')" using "1.prems" True g by (simp add: ns_wait.simps [of env d w s])
      then show ?thesis using "1.IH" [OF True g [symmetric] None] s1 d by fastforce
    next
      case (Some ns)
      then show ?thesis using "1.prems" True g s1 d by (auto simp: ns_wait.simps [of env d w s])
    qed
  next
    case False
    then show ?thesis using "1.prems" by (simp add: ns_wait.simps [of env d w s])
  qed
qed

text \<open>(C23) Asking for the device returns: the handler sleeps at most a hundred times for the
  namespace to appear, and on every branch gives back the reference it took on it. It changes
  nothing but the history.\<close>

theorem get_dev_info_bounded:
  assumes "nvm_get_dev_info env c s = (rc, rep, s')"
  shows "sleeps (klog s') \<le> sleeps (klog s) + 100 \<and> (\<forall>r. held (klog s') r = held (klog s) r) \<and>
    (\<exists>l. s' = s\<lparr>klog := l\<rparr>) \<and> (rc = 0 \<or> rc = -EFAULT)"
proof (cases "drvdata s (ctrl_pdev s c)")
  case None
  then show ?thesis using assms by (auto simp: nvm_get_dev_info_def intro: exI [of _ "klog s"])
next
  case (Some ndev)
  let ?d = "ctrl_pdev s c"
  obtain ns s1 where n: "wait_for_ns env ?d s = (ns, s1)" by fastforce
  have "sleeps (klog s1) \<le> sleeps (klog s) + 100"
  proof -
    obtain r1 t1 where 1: "get_ns env ?d s = (r1, t1)" by fastforce
    obtain r2 t2 where 2: "get_ns env ?d (emit (Note ''flush_work'' ?d) t1) = (r2, t2)" by fastforce
    have e: "sleeps (klog t1) = sleeps (klog s)" "sleeps (klog t2) = sleeps (klog s)"
      using get_ns_sleeps [OF 1] get_ns_sleeps [OF 2] by (simp_all add: sleeps_def)
    show ?thesis using n e ns_wait_sleeps [of env ?d 0 t2] by (fastforce simp: wait_for_ns_def 1 2 split: option.splits)
  qed
  moreover have "sleeps (e # l) = sleeps l" if "e \<noteq> Note ''msleep'' 50" for e l using that by (simp add: sleeps_def)
  ultimately have "sleeps (klog s') \<le> sleeps (klog s) + 100 \<and> (rc = 0 \<or> rc = -EFAULT)" using assms Some n
    by (auto simp: nvm_get_dev_info_def Let_def split: option.splits if_splits)
  then show ?thesis using get_dev_info_log [OF assms] by auto
qed

theorem get_dev_info_bounded_witness:
  "\<exists>rep s'. nvm_get_dev_info demo_denv 1 demo_s4 = (0, rep, s') \<and> sleeps (klog s') \<le> sleeps (klog demo_s4) + 100"
proof -
  have "\<exists>rep s'. nvm_get_dev_info demo_denv 1 demo_s4 = (0, rep, s')"
    by (simp add: nvm_get_dev_info_def wait_for_ns_def get_ns_def ctrl_pdev_def demo_states Let_def)
  then show ?thesis using get_dev_info_bounded by blast
qed

end
