(* ===== verification/Snvm_Control.thy ===== *)
theory Snvm_Control
  imports Snvm_MapProps Snvm_Qgroup
begin

text \<open>
  The control plane of the module (\<open>snvme/snvm_control.c\<close>): creation and removal of the
  character device of a controller by its PCI address, binding a PCI device to this driver and
  unbinding it, the ioctl entry point of the control device, module load and module unload.
\<close>

section \<open>State and environment\<close>

record pci_device_addr =
  domain :: int
  bus :: int
  slot :: int
  func :: int

text \<open>
  \<open>bus_driver\<close> is whether the PCI bus knows a driver of this name, \<open>snvm_registered\<close> the flag
  of the module, and \<open>dev_major\<close> the major number of \<open>dev_first\<close>.
\<close>

record ctl_st = dev_st +
  bus_driver :: bool
  snvm_registered :: bool
  dev_major :: int

text \<open>
  The services: the lookup of a PCI device, its class and whether it is enabled, minor
  numbers, registration of the driver, and who is bound to a device, with what device
  structure, after it has been released or after the drivers of the bus have been offered it.
  The host may bind a device it sees unbound at any of these moments.
\<close>

record ctl_env = dev_env +
  pci_get_slot :: "history \<Rightarrow> pci_device_addr \<Rightarrow> pdev"
  pci_class :: "pdev \<Rightarrow> u32"
  pci_is_enabled :: "history \<Rightarrow> pdev \<Rightarrow> bool"
  minor_get :: "history \<Rightarrow> int"
  pci_register_driver :: "history \<Rightarrow> int"
  attach_ret :: "history \<Rightarrow> int"
  bound_driver :: "history \<Rightarrow> pdev \<Rightarrow> string option"
  bound_data :: "history \<Rightarrow> pdev \<Rightarrow> nvme_dev option"
  class_create :: "history \<Rightarrow> int"
  alloc_chrdev_region :: "history \<Rightarrow> int + int"
  copy_residue :: "history \<Rightarrow> nat"

definition max_num_ctrls_param :: int where "max_num_ctrls_param = 64"

definition PCI_CLASS_STORAGE_EXPRESS :: u32 where "PCI_CLASS_STORAGE_EXPRESS = 0x010802"

section \<open>Creation of a character device\<close>

definition snvm_chrdev_create ::
  "'e ctl_env_scheme \<Rightarrow> pdev \<Rightarrow> u32 \<Rightarrow> 'a ctl_st_scheme \<Rightarrow> int \<times> 'a ctl_st_scheme" where
  "snvm_chrdev_create env pdev class s =
     (if pci_class env pdev \<noteq> class then (-1, s)
      else
        let minor = minor_get env (klog s)
        in if minor < 0 then (minor, emit (Note ''ida_simple_get failed'' 0) s)
           else case ctrl_get env pdev minor (emit (Acq (RMinor minor)) s) of
             (Inl err, s2) \<Rightarrow> (err, emit (Rel (RMinor minor)) s2)
           | (Inr ctrl, s2) \<Rightarrow>
               (case ctrl_chrdev_create env ctrl (dev_major s) s2 of (err, s3) \<Rightarrow>
                  if err \<noteq> 0 then (err, emit (Rel (RMinor minor)) s3) else (0, s3)))"

definition clear_ctrl_list :: "'a ctrl_st_scheme \<Rightarrow> ('a ctrl_st_scheme \<times> nat) option" where
  "clear_ctrl_list s = drain_loop (\<lambda>s. hd0 (ctrl_list s)) (\<lambda>s c. ctrl_put c s) s 0"

definition clear_map_list ::
  "'a map_st_scheme peer_memory_ops \<Rightarrow> map_reg \<Rightarrow> 'a map_st_scheme \<Rightarrow> ('a map_st_scheme \<times> nat) option" where
  "clear_map_list ops r s = drain_loop (\<lambda>s. hd0 (mlists s r)) (\<lambda>s p. unmap_and_release ops p s) s 0"

section \<open>The driver on the PCI bus\<close>

text \<open>What the bus does when the driver is offered the devices that have none.\<close>

definition offer_devices :: "'e ctl_env_scheme \<Rightarrow> 'a ctl_st_scheme \<Rightarrow> 'a ctl_st_scheme" where
  "offer_devices env s =
     s\<lparr>pdev_driver := (\<lambda>d. if pdev_driver s d = None then bound_driver env (klog s) d else pdev_driver s d),
       drvdata := (\<lambda>d. if pdev_driver s d = None then bound_data env (klog s) d else drvdata s d)\<rparr>"

definition snvm_register_driver :: "'e ctl_env_scheme \<Rightarrow> 'a ctl_st_scheme \<Rightarrow> int \<times> 'a ctl_st_scheme" where
  "snvm_register_driver env s =
     (let ret = pci_register_driver env (klog s)
      in if ret \<noteq> 0 then (ret, emit (Note ''pci_register_driver failed'' 0) s)
         else (0, offer_devices env ((emit (Acq RPciDriver) s)\<lparr>bus_driver := True\<rparr>)))"

definition snvm_unregister_driver :: "'a ctl_st_scheme \<Rightarrow> 'a ctl_st_scheme" where
  "snvm_unregister_driver s =
     emit (Note ''flush_workqueue'' 0)
       ((emit (Rel RPciDriver) s)
         \<lparr>bus_driver := False,
          pdev_driver := (\<lambda>d. if pdev_driver s d = Some PCI_DRIVER_NAME then None else pdev_driver s d),
          drvdata := (\<lambda>d. if pdev_driver s d = Some PCI_DRIVER_NAME then None else drvdata s d)\<rparr>)"

definition register_driver :: "'e ctl_env_scheme \<Rightarrow> 'a ctl_st_scheme \<Rightarrow> int \<times> 'a ctl_st_scheme" where
  "register_driver env s =
     (if \<not> bus_driver s \<and> \<not> snvm_registered s then
        (case snvm_register_driver env s of (ret, s1) \<Rightarrow>
           if ret \<noteq> 0 then (ret, s1) else (ret, s1\<lparr>snvm_registered := True\<rparr>))
      else (0, s))"

definition clean_driver :: "'a ctl_st_scheme peer_memory_ops \<Rightarrow> 'a ctl_st_scheme \<Rightarrow> 'a ctl_st_scheme option" where
  "clean_driver ops s =
     (case clear_map_list ops Device s of None \<Rightarrow> None
      | Some (s1, _) \<Rightarrow>
        (case clear_map_list ops DevQueue s1 of None \<Rightarrow> None
         | Some (s2, _) \<Rightarrow>
           (case clear_map_list ops Host s2 of None \<Rightarrow> None
            | Some (s3, _) \<Rightarrow> Some (if bus_driver s3 then snvm_unregister_driver s3 else s3))))"

section \<open>Bind and unbind\<close>

definition pci_disable_if_enabled :: "'e ctl_env_scheme \<Rightarrow> pdev \<Rightarrow> 'a ctl_st_scheme \<Rightarrow> 'a ctl_st_scheme" where
  "pci_disable_if_enabled env d s =
     (if pci_is_enabled env (klog s) d then emit (Note ''pci_disable_device'' d) s else s)"

definition device_release_driver :: "'e ctl_env_scheme \<Rightarrow> pdev \<Rightarrow> 'a ctl_st_scheme \<Rightarrow> 'a ctl_st_scheme" where
  "device_release_driver env d s =
     (let s1 = emit (Note ''device_release_driver'' d) s
      in s1\<lparr>pdev_driver := (pdev_driver s1)(d := bound_driver env (klog s1) d),
            drvdata := (drvdata s1)(d := bound_data env (klog s1) d)\<rparr>)"

definition driver_attach :: "'e ctl_env_scheme \<Rightarrow> 'a ctl_st_scheme \<Rightarrow> int \<times> 'a ctl_st_scheme" where
  "driver_attach env s =
     (let s1 = emit (Note ''driver_attach'' 0) s
      in (attach_ret env (klog s1), offer_devices env s1))"

text \<open>The attempts, counted down from three.\<close>

fun bind_loop :: "'e ctl_env_scheme \<Rightarrow> pdev \<Rightarrow> nat \<Rightarrow> 'a ctl_st_scheme \<Rightarrow> 'a ctl_st_scheme" where
  "bind_loop env d 0 s = s"
| "bind_loop env d (Suc n) s =
     (if pdev_driver s d = Some PCI_DRIVER_NAME then s
      else
        let s1 = (if pdev_driver s d \<noteq> None
                  then device_release_driver env d (pci_disable_if_enabled env d s) else s)
        in case driver_attach env s1 of (ret, s2) \<Rightarrow>
             if ret \<noteq> 0 then s2 else bind_loop env d n s2)"

definition snvm_rebind_driver ::
  "'e ctl_env_scheme \<Rightarrow> pci_device_addr \<Rightarrow> 'a ctl_st_scheme \<Rightarrow> int \<times> 'a ctl_st_scheme" where
  "snvm_rebind_driver env addr s =
     (let d = pci_get_slot env (klog s) addr
      in if d = NULL then (-ENODEV, s)
         else
           let s1 = emit (Acq (RPdev d)) s;
               s2 = (if pdev_driver s1 d \<noteq> None
                     then device_release_driver env d (pci_disable_if_enabled env d s1) else s1)
           in case register_driver env s2 of (ret, s3) \<Rightarrow>
                if ret \<noteq> 0 then (-EFAULT, emit (Rel (RPdev d)) s3)
                else
                  let s4 = bind_loop env d 3 s3
                  in (if pdev_driver s4 d = Some PCI_DRIVER_NAME then 0 else -EBUSY, emit (Rel (RPdev d)) s4))"

definition snvm_unbind_driver ::
  "'e ctl_env_scheme \<Rightarrow> pci_device_addr \<Rightarrow> 'a ctl_st_scheme \<Rightarrow> int \<times> 'a ctl_st_scheme" where
  "snvm_unbind_driver env addr s =
     (let d = pci_get_slot env (klog s) addr
      in if d = NULL then (-EFAULT, s)
         else
           let s1 = emit (Acq (RPdev d)) s
           in if pdev_driver s1 d = None then (-EFAULT, s1)
              else if pdev_driver s1 d \<noteq> Some PCI_DRIVER_NAME then (-EFAULT, s1)
              else (0, emit (Rel (RPdev d)) (device_release_driver env d (pci_disable_if_enabled env d s1))))"

section \<open>The control device\<close>

definition minor_addr :: "ctrl \<Rightarrow> pci_device_addr" where
  "minor_addr c = \<lparr>domain = c_number c, bus = 0, slot = 0, func = 0\<rparr>"

definition snvm_chrdev_helper ::
  "'e ctl_env_scheme \<Rightarrow> pci_device_addr \<Rightarrow> bool \<Rightarrow> 'a ctl_st_scheme \<Rightarrow>
   (int \<times> pci_device_addr \<times> 'a ctl_st_scheme) option" where
  "snvm_chrdev_helper env addr create s =
     (let d = pci_get_slot env (klog s) addr
      in if d = NULL then Some (-EFAULT, addr, s)
         else
           let s1 = emit (Acq (RPdev d)) s; put = emit (Rel (RPdev d))
           in case ctrl_find_by_pci_dev s1 d of None \<Rightarrow> None
           | Some c \<Rightarrow>
             if create \<and> c = NULL then
               (case snvm_chrdev_create env d PCI_CLASS_STORAGE_EXPRESS s1 of (ret, s2) \<Rightarrow>
                  if ret \<noteq> 0 then Some (ret, addr, put s2)
                  else case ctrl_find_by_pci_dev s2 d of None \<Rightarrow> None
                  | Some c \<Rightarrow>
                    (case ctrls s2 c of None \<Rightarrow> Some (KERNEL_OOPS, addr, emit Undef s2)
                     | Some x \<Rightarrow> Some (0, minor_addr x, put s2)))
             else if c \<noteq> NULL then
               (case ctrls s1 c of None \<Rightarrow> Some (KERNEL_OOPS, addr, emit Undef s1)
                | Some x \<Rightarrow>
                  if create then Some (0, minor_addr x, put s1)
                  else Some (0, addr, put (emit (Rel (RMinor (c_number x))) (ctrl_put c s1))))
             else Some (0, addr, put s1))"

datatype control_cmd = SNVM_DEVICE_BIND | SNVM_DEVICE_UNBIND | SNVM_CHRDEV_CREATE | SNVM_CHRDEV_REMOVE | CONTROL_UNKNOWN nat

definition snvm_ioctl ::
  "'e ctl_env_scheme \<Rightarrow> control_cmd \<Rightarrow> pci_device_addr option \<Rightarrow> 'a ctl_st_scheme \<Rightarrow>
   (int \<times> pci_device_addr option \<times> 'a ctl_st_scheme) option" where
  "snvm_ioctl env cmd arg s =
     (case arg of None \<Rightarrow> Some (-EFAULT, None, s)
      | Some addr \<Rightarrow>
        (case cmd of
           SNVM_DEVICE_BIND \<Rightarrow> (case snvm_rebind_driver env addr s of (ret, s1) \<Rightarrow> Some (ret, None, s1))
         | SNVM_DEVICE_UNBIND \<Rightarrow> (case snvm_unbind_driver env addr s of (ret, s1) \<Rightarrow> Some (ret, None, s1))
         | SNVM_CHRDEV_CREATE \<Rightarrow>
             (case snvm_chrdev_helper env addr True s of None \<Rightarrow> None
              | Some (ret, addr', s1) \<Rightarrow>
                if ret \<noteq> 0 then Some (ret, None, s1)
                else if copy_residue env (klog s1) = 0 then Some (0, Some addr', s1)
                else Some (int (copy_residue env (klog s1)), None, s1))
         | SNVM_CHRDEV_REMOVE \<Rightarrow>
             (case snvm_chrdev_helper env addr False s of None \<Rightarrow> None
              | Some (ret, _, s1) \<Rightarrow> Some (ret, None, s1))
         | CONTROL_UNKNOWN _ \<Rightarrow> Some (-ENOTTY, None, s)))"

section \<open>Load and unload\<close>

definition snvm_devno :: "int \<Rightarrow> int \<times> int" where
  "snvm_devno major = (major, max_num_ctrls_param)"

definition snvm_cdev_init :: "'e ctl_env_scheme \<Rightarrow> 'a ctl_st_scheme \<Rightarrow> int \<times> 'a ctl_st_scheme" where
  "snvm_cdev_init env s =
     (let ret = class_create env (klog s)
      in if ret < 0 then (ret, emit (Note ''class_create failed'' 0) s)
         else
           let s1 = emit (Acq RClass) s
           in case alloc_chrdev_region env (klog s1) of
                Inl ret \<Rightarrow> (ret, emit (Rel RClass) s1)
              | Inr major \<Rightarrow>
                let s2 = (emit (Acq RChrdevRegion) s1)\<lparr>dev_major := major\<rparr>;
                    ret = cdev_add env (klog s2) (snvm_devno major)
                in if ret < 0 then (ret, emit (Rel RClass) (emit (Rel RChrdevRegion) s2))
                   else
                     let s3 = emit (Acq RMisc) s2;
                         ret = device_create env (klog s3) (snvm_devno major)
                     in if ret \<noteq> 0 then (ret, emit (Rel RClass) (emit (Rel RChrdevRegion) (emit (Rel RMisc) s3)))
                        else (0, emit (Acq (RNode (snvm_devno major))) s3))"

definition snvm_cdev_release :: "'a ctl_st_scheme \<Rightarrow> 'a ctl_st_scheme" where
  "snvm_cdev_release s =
     emit (Note ''ida_destroy'' 0)
       (emit (Rel RClass) (emit (Rel RChrdevRegion) (emit (Rel RMisc) (emit (Rel (RNode (snvm_devno (dev_major s)))) s))))"

definition snvm_global_init ::
  "'e ctl_env_scheme \<Rightarrow> 'a ctl_st_scheme peer_memory_ops \<Rightarrow> 'a ctl_st_scheme \<Rightarrow> int \<times> 'a ctl_st_scheme" where
  "snvm_global_init env ops s =
     (case op_init ops (s\<lparr>snvm_registered := False\<rparr>) of (rc, s1) \<Rightarrow>
        if rc \<noteq> 0 then (-EOPNOTSUPP, s1)
        else snvm_cdev_init env ((map_p2p_service_probe env s1)\<lparr>ctrl_list := [], mlists := (\<lambda>_. [])\<rparr>))"

definition snvm_global_exit :: "'a ctl_st_scheme peer_memory_ops \<Rightarrow> 'a ctl_st_scheme \<Rightarrow> 'a ctl_st_scheme option" where
  "snvm_global_exit ops s =
     (case clean_driver ops s of None \<Rightarrow> None
      | Some s1 \<Rightarrow>
        (case clear_ctrl_list (map_p2p_service_release s1) of None \<Rightarrow> None
         | Some (s2, _) \<Rightarrow> Some (op_exit ops (snvm_cdev_release s2))))"

end
