(* ===== verification/Snvm_ControlProps.thy ===== *)
theory Snvm_ControlProps
  imports Snvm_Control
begin

text \<open>
  What the control plane guarantees: a bind attempt ends after at most three offers and its
  result says who owns the device; a character device exists once per PCI device, with its own
  minor number; unload releases every mapping and every controller.
\<close>

section \<open>Binding\<close>

lemma emit_dev [simp]: "pdev_driver (emit e s) = pdev_driver s" "drvdata (emit e s) = drvdata s"
  by (simp_all add: emit_def)

definition attaches :: "history \<Rightarrow> nat" where
  "attaches l = count_list l (Note ''driver_attach'' 0)"

definition quiet_log :: "nat \<Rightarrow> history \<Rightarrow> history \<Rightarrow> bool" where
  "quiet_log n l l' \<longleftrightarrow> (\<forall>r. held l' r = held l r) \<and> attaches l' \<le> attaches l + n"

lemma notes_refl [simp]: "quiet_log 0 l l"
  by (simp add: quiet_log_def)

lemma notes_trans: "quiet_log m l l1 \<Longrightarrow> quiet_log n l1 l2 \<Longrightarrow> quiet_log (m + n) l l2"
  by (fastforce simp: quiet_log_def)

lemma release_notes: "quiet_log 0 (klog s) (klog (device_release_driver env d (pci_disable_if_enabled env d s)))"
  by (simp add: quiet_log_def device_release_driver_def pci_disable_if_enabled_def attaches_def Let_def)

lemma attach_notes: "driver_attach env s = (ret, s') \<Longrightarrow> quiet_log 1 (klog s) (klog s')"
  by (auto simp: driver_attach_def offer_devices_def quiet_log_def attaches_def Let_def)

lemma bind_loop_notes: "quiet_log n (klog s) (klog (bind_loop env d n s))"
proof (induction n arbitrary: s)
  case (Suc n)
  let ?s1 = "if pdev_driver s d \<noteq> None then device_release_driver env d (pci_disable_if_enabled env d s) else s"
  obtain ret s2 where a: "driver_attach env ?s1 = (ret, s2)" by fastforce
  have "quiet_log 0 (klog s) (klog ?s1)" using release_notes [of s env d] by simp
  then have 1: "quiet_log 1 (klog s) (klog s2)" using notes_trans [OF _ attach_notes [OF a]] by fastforce
  then have "quiet_log (Suc n) (klog s) (klog (bind_loop env d n s2))" using notes_trans [OF 1 Suc.IH] by simp
  moreover have "quiet_log (Suc n) (klog s) (klog s2)" "quiet_log (Suc n) (klog s) (klog s)" using 1 by (auto simp: quiet_log_def)
  ultimately show ?case using a by (simp add: Let_def)
qed simp

lemma register_driver_held:
  assumes "register_driver env s = (ret, s')" "r \<noteq> RPciDriver"
  shows "held (klog s') r = held (klog s) r \<and> attaches (klog s') = attaches (klog s)"
  using assms by (auto simp: register_driver_def snvm_register_driver_def offer_devices_def attaches_def Let_def split: if_splits)

text \<open>The device is offered to the driver, and nobody takes it in between.\<close>

definition undisturbed :: "'e ctl_env_scheme \<Rightarrow> pdev \<Rightarrow> bool" where
  "undisturbed env d \<longleftrightarrow> (\<forall>l. attach_ret env l = 0 \<and> bound_driver env (Note ''driver_attach'' 0 # l) d = Some PCI_DRIVER_NAME \<and>
     bound_driver env (Note ''device_release_driver'' d # l) d = None)"

lemma bind_loop_wins:
  assumes "undisturbed env d"
  shows "pdev_driver (bind_loop env d (Suc n) s) d = Some PCI_DRIVER_NAME"
proof (cases "pdev_driver s d = Some PCI_DRIVER_NAME")
  case False
  let ?s1 = "if pdev_driver s d \<noteq> None then device_release_driver env d (pci_disable_if_enabled env d s) else s"
  obtain ret s2 where a: "driver_attach env ?s1 = (ret, s2)" by fastforce
  have "pdev_driver ?s1 d = None" using assms by (simp add: undisturbed_def device_release_driver_def Let_def)
  then have "ret = 0 \<and> pdev_driver s2 d = Some PCI_DRIVER_NAME"
    using a assms by (auto simp: undisturbed_def driver_attach_def offer_devices_def Let_def)
  moreover then have "bind_loop env d n s2 = s2" by (cases n) simp_all
  ultimately show ?thesis using False a by (simp add: Let_def)
qed simp


section \<open>Controllers and their minor numbers\<close>

text \<open>The controller that owns the character device of a PCI device, and its number.\<close>

definition registered :: "'a ctrl_st_scheme \<Rightarrow> pdev \<Rightarrow> int \<Rightarrow> bool" where
  "registered s d n \<longleftrightarrow> (\<exists>c \<in> set (ctrl_list s). \<exists>x. ctrls s c = Some x \<and> c_pdev x = d \<and> c_number x = n)"

definition minors_ok :: "'a ctrl_st_scheme \<Rightarrow> bool" where
  "minors_ok s \<longleftrightarrow> ctrl_inv s \<and>
     (\<forall>c \<in> set (ctrl_list s). \<forall>c' \<in> set (ctrl_list s). \<forall>x x'. ctrls s c = Some x \<and> ctrls s c' = Some x' \<and> c \<noteq> c' \<longrightarrow>
        c_pdev x \<noteq> c_pdev x' \<and> c_number x \<noteq> c_number x') \<and>
     (\<forall>n. held (klog s) (RMinor n) = of_bool (\<exists>d. registered s d n))"

definition minor_fresh :: "'e ctl_env_scheme \<Rightarrow> bool" where
  "minor_fresh env \<longleftrightarrow> (\<forall>l. 0 \<le> minor_get env l \<longrightarrow> held l (RMinor (minor_get env l)) = 0)"

text \<open>A descriptor and its character device: created together, or neither.\<close>

lemma get_create_ok:
  assumes inv: "ctrl_inv s" and f: "alloc_fresh env" and g: "ctrl_get env d n s = (Inr p, s1)"
    and c: "ctrl_chrdev_create env p major s1 = (rc, s2)"
  shows "ctrl_inv s2 \<and> (if rc = 0 then p \<notin> set (ctrl_list s) \<and> ctrl_list s2 = ctrl_list s @ [p] \<and>
      (\<exists>x. ctrls s2 = (ctrls s)(p \<mapsto> x) \<and> c_pdev x = d \<and> c_number x = n)
    else ctrl_list s2 = ctrl_list s \<and> ctrls s2 = ctrls s) \<and>
    (\<forall>k. held (klog s2) (RMinor k) = held (klog s) (RMinor k)) \<and> (\<forall>k. held (klog s2) (RPdev k) = held (klog s) (RPdev k))"
proof -
  from g have p: "p \<noteq> NULL" "p = kmalloc env (klog s)"
    and s1: "ctrls s1 = (ctrls s)(p \<mapsto> the (ctrls s1 p))" "ctrl_list s1 = ctrl_list s @ [p]"
      "klog s1 = Acq (RMem p) # klog s" "\<not> c_chrdev (the (ctrls s1 p))" "opens s1 = opens s"
      "user_qid_bitmap (the (ctrls s1 p)) = None" "c_pdev (the (ctrls s1 p)) = d" "c_number (the (ctrls s1 p)) = n"
    by (auto simp: ctrl_get_def k_alloc_def Let_def emit_def split: if_splits)
  have none: "ctrls s p = None" "p \<notin> set (ctrl_list s)" "opens s p = 0"
    using p f ctrl_inv_okD [OF inv, of p] by (auto simp: alloc_fresh_def ctrl_ok_def split: option.splits)
  have i2: "ctrl_inv s2" by (rule ctrl_inv_create [OF ctrl_inv_get [OF inv f g] _ c]) (simp add: s1(2))
  obtain x where x: "ctrls s1 p = Some x" using s1(1) by (metis map_upd_Some_unfold)
  have rm: "remove1 p (ctrl_list s1) = ctrl_list s" using s1(2) none(2) by (simp add: remove1_append)
  have up: "(ctrls s1)(p := None) = ctrls s" "(ctrls s1)(p \<mapsto> y) = (ctrls s)(p \<mapsto> y)" for y
    using s1(1) none(1) by (metis fun_upd_triv fun_upd_upd)+
  have nd: "\<not> c_chrdev x" "user_qid_bitmap x = None" "c_pdev x = d" "c_number x = n" using s1(4,6-8) x by simp_all
  note unf = ctrl_chrdev_create_def cdev_del_def kobject_put_def ctrl_cdev_release_eq k_free_def Let_def
  show ?thesis using i2 c p(1) x nd s1(2,3,5) none rm up by (auto simp: unf emit_def split: if_splits)
qed

lemma ctrl_put_ok:
  assumes inv: "ctrl_inv s" and c: "c \<in> set (ctrl_list s)"
  shows "ctrl_inv (ctrl_put c s) \<and> ctrl_list (ctrl_put c s) = remove1 c (ctrl_list s) \<and>
    (\<forall>e. e \<noteq> c \<longrightarrow> ctrls (ctrl_put c s) e = ctrls s e) \<and>
    (\<forall>r. r \<noteq> RMem c \<and> r \<noteq> RCdev c \<and> r \<noteq> RBitmap c \<and> (\<forall>x. r \<noteq> RNode x) \<longrightarrow> held (klog (ctrl_put c s)) r = held (klog s) r)"
  using ctrl_inv_remove [OF assms] ctrl_inv_list [OF inv] c
  by (cases "c = NULL") (auto simp: ctrl_put_def ctrl_chrdev_remove_def cdev_del_def kobject_put_def ctrl_cdev_release_eq k_free_def emit_def Let_def
      split: option.splits)

lemma find_pci_dev:
  assumes "minors_ok s"
  shows "ctrl_find_by_pci_dev s d = Some NULL \<and> (\<forall>n. \<not> registered s d n) \<or>
    (\<exists>c x. ctrl_find_by_pci_dev s d = Some c \<and> c \<in> set (ctrl_list s) \<and> c \<noteq> NULL \<and> ctrls s c = Some x \<and> c_pdev x = d \<and>
      (\<forall>n. registered s d n \<longleftrightarrow> n = c_number x))"
proof -
  let ?P = "\<lambda>e. case ctrls s e of None \<Rightarrow> False | Some c \<Rightarrow> c_pdev c = d"
  have inv: "ctrl_inv s" using assms by (simp add: minors_ok_def)
  note eq = ctrl_find_by_pci_dev_eq [OF inv, of d]
  show ?thesis
  proof (cases "find ?P (ctrl_list s)")
    case None
    then have "\<not> registered s d n" for n by (auto simp: find_None_iff registered_def)
    then show ?thesis using eq None by simp
  next
    case (Some c)
    then have c: "c \<in> set (ctrl_list s)" "?P c" using find_Some_mem [of ?P] by auto
    then obtain x where x: "ctrls s c = Some x" "c_pdev x = d" by (cases "ctrls s c") auto
    have "registered s d n \<longleftrightarrow> n = c_number x" for n
      using assms c(1) x unfolding minors_ok_def registered_def by (metis option.inject)
    moreover have "c \<noteq> NULL" using ctrl_inv_list [OF inv] c(1) by metis
    ultimately show ?thesis using eq Some c(1) x by auto
  qed
qed

lemma registered_log [simp]: "registered (emit e s) d n \<longleftrightarrow> registered s d n"
  by (simp add: registered_def emit_def)

lemma minors_ok_pdev [simp]:
  "minors_ok (emit (Acq (RPdev d)) s) \<longleftrightarrow> minors_ok s" "minors_ok (emit (Rel (RPdev d)) s) \<longleftrightarrow> minors_ok s"
proof -
  have "ctrl_ok (emit (Acq (RPdev d)) s) c = ctrl_ok s c" "ctrl_ok (emit (Rel (RPdev d)) s) c = ctrl_ok s c" for c
    by (intro ctrl_ok_cong; simp add: emit_def)+
  then have "ctrl_inv (emit (Acq (RPdev d)) s) \<longleftrightarrow> ctrl_inv s" "ctrl_inv (emit (Rel (RPdev d)) s) \<longleftrightarrow> ctrl_inv s"
    by (simp_all add: ctrl_inv_def linked_def emit_def)
  then show "minors_ok (emit (Acq (RPdev d)) s) \<longleftrightarrow> minors_ok s" "minors_ok (emit (Rel (RPdev d)) s) \<longleftrightarrow> minors_ok s"
    unfolding minors_ok_def by (simp_all add: registered_def emit_def)
qed

lemma minors_ok_add:
  assumes ok: "minors_ok s" and t: "ctrl_inv t" "p \<notin> set (ctrl_list s)" "ctrl_list t = ctrl_list s @ [p]" "ctrls t = (ctrls s)(p \<mapsto> x)"
    and n: "\<And>k. \<not> registered s (c_pdev x) k" "\<And>d. \<not> registered s d (c_number x)"
    and h: "\<And>k. held (klog t) (RMinor k) = held (klog s) (RMinor k) + (if k = c_number x then 1 else 0)"
  shows "minors_ok t \<and> (\<forall>d k. registered t d k \<longleftrightarrow> registered s d k \<or> d = c_pdev x \<and> k = c_number x)"
proof -
  have reg: "registered t d k \<longleftrightarrow> registered s d k \<or> d = c_pdev x \<and> k = c_number x" for d k
    using t by (auto simp: registered_def)
  have new: "c_pdev y \<noteq> c_pdev x \<and> c_number y \<noteq> c_number x" if "c \<in> set (ctrl_list s)" "ctrls s c = Some y" for c y
    using that n unfolding registered_def by blast
  have "minors_ok t" unfolding minors_ok_def
  proof (intro conjI allI ballI impI)
    show "held (klog t) (RMinor k) = of_bool (\<exists>d. registered t d k)" for k
      using h [of k] ok n(2) by (auto simp: reg minors_ok_def)
  next
    fix c c' y y' assume cc: "c \<in> set (ctrl_list t)" "c' \<in> set (ctrl_list t)" "ctrls t c = Some y \<and> ctrls t c' = Some y' \<and> c \<noteq> c'"
    have old: "c_pdev y \<noteq> c_pdev x \<and> c_number y \<noteq> c_number x" if "c \<noteq> p" using that cc t new by simp
    have old': "c_pdev y' \<noteq> c_pdev x \<and> c_number y' \<noteq> c_number x" if "c' \<noteq> p" using that cc t new by simp
    have both: "c_pdev y \<noteq> c_pdev y' \<and> c_number y \<noteq> c_number y'" if "c \<noteq> p" "c' \<noteq> p"
    proof -
      have "c \<in> set (ctrl_list s)" "c' \<in> set (ctrl_list s)" "ctrls s c = Some y \<and> ctrls s c' = Some y' \<and> c \<noteq> c'"
        using that cc t by auto
      then show ?thesis using ok unfolding minors_ok_def by blast
    qed
    show "c_pdev y \<noteq> c_pdev y'" "c_number y \<noteq> c_number y'"
      using cc t old old' both by (cases "c = p"; cases "c' = p"; force)+
  qed (rule t(1))
  then show ?thesis using reg by blast
qed

lemma chrdev_create_ok:
  fixes s :: "'a ctl_st_scheme"
  assumes ok: "minors_ok s" and e: "alloc_fresh env" "minor_fresh env" and n: "\<forall>k. \<not> registered s d k"
    and r: "snvm_chrdev_create env d cl s = (rc, s')"
  shows "minors_ok s' \<and> (\<forall>k. held (klog s') (RPdev k) = held (klog s) (RPdev k)) \<and>
    (if rc = 0 then (\<exists>k. registered s' d k) \<and> (\<forall>d' k. d' \<noteq> d \<longrightarrow> registered s' d' k = registered s d' k)
     else registered s' = registered s)"
proof (cases "pci_class env d \<noteq> cl \<or> minor_get env (klog s) < 0")
  case True
  have "minors_ok (emit (Note x 0) s)" for x
    using ok ctrl_inv_emit [of s "Note x 0"] by (auto simp: minors_ok_def emit_def registered_def)
  then show ?thesis using True r ok by (auto simp: snvm_chrdev_create_def Let_def fun_eq_iff split: if_splits)
next
  case False
  let ?m = "minor_get env (klog s)" and ?s1 = "emit (Acq (RMinor (minor_get env (klog s)))) s"
  have m0: "held (klog s) (RMinor ?m) = 0" using False e(2) by (simp add: minor_fresh_def)
  have i1: "ctrl_inv ?s1" by (rule ctrl_inv_emit) (use ok in \<open>simp_all add: minors_ok_def\<close>)
  have frame: "minors_ok t" if "ctrl_inv t" "ctrl_list t = ctrl_list s" "ctrls t = ctrls s"
    "\<forall>k. held (klog t) (RMinor k) = held (klog s) (RMinor k)" for t :: "'a ctl_st_scheme"
    using that ok by (simp add: minors_ok_def registered_def)
  obtain res s2 where g: "ctrl_get env d ?m ?s1 = (res, s2)" by fastforce
  show ?thesis
  proof (cases res)
    case (Inl err)
    then have *: "rc = err" "err \<noteq> 0" "s' = emit (Rel (RMinor ?m)) s2" "klog s2 = Note ''alloc failed'' 0 # klog ?s1" "ctrl_list s2 = ctrl_list s" "ctrls s2 = ctrls s"
      using r False g by (auto simp: snvm_chrdev_create_def Let_def ctrl_get_def k_alloc_def emit_def ENOMEM_def split: if_splits)
    have "minors_ok s'" by (rule frame)
        (use * ctrl_inv_emit [OF ctrl_inv_get [OF i1 e(1) g]] in \<open>auto simp: emit_def\<close>)
    then show ?thesis using * by (simp add: registered_def fun_eq_iff) (simp add: emit_def)
  next
    case (Inr p)
    obtain err s3 where c: "ctrl_chrdev_create env p (dev_major s) s2 = (err, s3)" by fastforce
    have s': "(rc, s') = (if err \<noteq> 0 then (err, emit (Rel (RMinor ?m)) s3) else (0, s3))"
      using r False g Inr c by (simp add: snvm_chrdev_create_def Let_def)
    note gc = get_create_ok [OF i1 e(1) g [unfolded Inr] c]
    have h: "held (klog s3) (RMinor k) = held (klog s) (RMinor k) + (if k = ?m then 1 else 0)" for k using gc by auto
    show ?thesis
    proof (cases "err = 0")
      case False
      have "minors_ok s'" by (rule frame) (use s' False gc h ctrl_inv_emit [of s3] in \<open>auto simp: emit_def\<close>)
      then show ?thesis using s' False gc by (simp add: registered_def fun_eq_iff) (simp add: emit_def)
    next
      case True
      then obtain x where x: "p \<notin> set (ctrl_list s)" "ctrl_list s3 = ctrl_list s @ [p]" "ctrls s3 = (ctrls s)(p \<mapsto> x)"
        "c_pdev x = d" "c_number x = ?m" using gc by (auto simp: emit_def)
      have nr: "\<not> registered s d' ?m" for d' using ok m0 unfolding minors_ok_def by auto
      have "minors_ok s3 \<and> (\<forall>d' k. registered s3 d' k \<longleftrightarrow> registered s d' k \<or> d' = d \<and> k = ?m)"
        using minors_ok_add [OF ok conjunct1 [OF gc] x(1-3)] x(4,5) n nr h by simp
      then show ?thesis using s' True gc by auto
    qed
  qed
qed

lemma chrdev_remove_ok:
  assumes ok: "minors_ok s" and c: "c \<in> set (ctrl_list s)" "ctrls s c = Some x"
  defines "s' \<equiv> emit (Rel (RMinor (c_number x))) (ctrl_put c s)"
  shows "minors_ok s' \<and> (\<forall>k. held (klog s') (RPdev k) = held (klog s) (RPdev k)) \<and>
    (\<forall>d k. registered s' d k \<longleftrightarrow> registered s d k \<and> d \<noteq> c_pdev x)"
proof -
  have inv: "ctrl_inv s" using ok by (simp add: minors_ok_def)
  note p = ctrl_put_ok [OF inv c(1)]
  have l: "set (ctrl_list (ctrl_put c s)) = set (ctrl_list s) - {c}" using p inv by (simp add: ctrl_inv_def)
  have diff: "c_pdev y \<noteq> c_pdev x \<and> c_number y \<noteq> c_number x" if "e \<in> set (ctrl_list s)" "e \<noteq> c" "ctrls s e = Some y" for e y
    using ok c that unfolding minors_ok_def by blast
  have same: "ctrls (ctrl_put c s) e = ctrls s e" if "e \<noteq> c" for e using p that by blast
  have reg: "registered s' d k \<longleftrightarrow> registered s d k \<and> d \<noteq> c_pdev x" for d k
  proof
    assume "registered s' d k"
    then obtain e y where "e \<in> set (ctrl_list s)" "e \<noteq> c" "ctrls s e = Some y" "c_pdev y = d" "c_number y = k"
      using l same by (auto simp: registered_def s'_def emit_def)
    then show "registered s d k \<and> d \<noteq> c_pdev x" using diff by (auto simp: registered_def)
  next
    assume "registered s d k \<and> d \<noteq> c_pdev x"
    then obtain e y where e: "e \<in> set (ctrl_list s)" "ctrls s e = Some y" "c_pdev y = d" "c_number y = k" "d \<noteq> c_pdev x"
      by (auto simp: registered_def)
    then have "e \<noteq> c" using c(2) by auto
    then show "registered s' d k" using e l same by (auto simp: registered_def s'_def emit_def)
  qed
  have only: "registered s d (c_number x) \<longleftrightarrow> d = c_pdev x" for d
    using c diff unfolding registered_def by (metis option.inject)
  have u: "registered s (c_pdev x) k \<longleftrightarrow> k = c_number x" for k
    using c diff unfolding registered_def by (metis option.inject)
  have hm: "held (klog s) (RMinor k) = of_bool (\<exists>d. registered s d k)" for k using ok by (simp add: minors_ok_def)
  have "minors_ok s'" unfolding minors_ok_def
  proof (intro conjI allI ballI impI)
    show "ctrl_inv s'" unfolding s'_def by (rule ctrl_inv_emit) (use p in simp_all)
    show "held (klog s') (RMinor k) = of_bool (\<exists>d. registered s' d k)" for k
    proof (cases "k = c_number x")
      case True
      then have "held (klog s') (RMinor k) = 0" "\<not> (\<exists>d. registered s' d k)"
        using p hm [of k] only reg by (auto simp: s'_def)
      then show ?thesis by simp
    next
      case False
      then have "(\<exists>d. registered s' d k) \<longleftrightarrow> (\<exists>d. registered s d k)" using reg u by metis
      then show ?thesis using p hm [of k] False by (simp add: s'_def)
    qed
  next
    fix a a' y y' assume "a \<in> set (ctrl_list s')" "a' \<in> set (ctrl_list s')" "ctrls s' a = Some y \<and> ctrls s' a' = Some y' \<and> a \<noteq> a'"
    then have "a \<in> set (ctrl_list s)" "a' \<in> set (ctrl_list s)" "ctrls s a = Some y" "ctrls s a' = Some y'" "a \<noteq> a'"
      using l same by (auto simp: s'_def emit_def)
    then show "c_pdev y \<noteq> c_pdev y'" "c_number y \<noteq> c_number y'" using ok unfolding minors_ok_def by blast+
  qed
  then show ?thesis using p reg by (simp add: s'_def)
qed

text \<open>(C31) Creating and removing character devices through the control device: the request
  returns, a PCI device has at most one controller and every controller its own minor number,
  no minor number is lost, references to PCI devices are balanced, and both requests are
  idempotent: after a successful creation the PCI device has a controller whose minor is the
  one reported, after a removal it has none, and no other PCI device is affected.\<close>

theorem chrdev_helper_correct:
  assumes ok: "minors_ok s" and e: "alloc_fresh env" "minor_fresh env" and d: "pci_get_slot env (klog s) addr = d" "d \<noteq> NULL"
  shows "\<exists>rc addr' s'. snvm_chrdev_helper env addr create s = Some (rc, addr', s') \<and> minors_ok s' \<and>
    (\<forall>k. held (klog s') (RPdev k) = held (klog s) (RPdev k)) \<and>
    (\<forall>d' k. d' \<noteq> d \<longrightarrow> registered s' d' k = registered s d' k) \<and>
    (if create then rc = 0 \<longrightarrow> registered s' d (domain addr') else rc = 0 \<and> (\<forall>k. \<not> registered s' d k)) \<and>
    (rc \<noteq> 0 \<longrightarrow> registered s' = registered s)"
proof -
  let ?s1 = "emit (Acq (RPdev d)) s"
  have ok1: "minors_ok ?s1" using ok by simp
  consider (none) "ctrl_find_by_pci_dev ?s1 d = Some NULL" "\<forall>n. \<not> registered s d n"
    | (some) c x where "ctrl_find_by_pci_dev ?s1 d = Some c" "c \<in> set (ctrl_list ?s1)" "c \<noteq> NULL" "ctrls ?s1 c = Some x"
      "c_pdev x = d" "\<forall>n. registered s d n \<longleftrightarrow> n = c_number x"
    using find_pci_dev [OF ok1, of d] by auto
  then show ?thesis
  proof cases
    case none
    show ?thesis
    proof (cases create)
      case False
      then show ?thesis using none d ok by (simp add: snvm_chrdev_helper_def Let_def)
    next
      case True
      obtain rc s2 where r: "snvm_chrdev_create env d PCI_CLASS_STORAGE_EXPRESS ?s1 = (rc, s2)" by fastforce
      note c = chrdev_create_ok [OF ok1 e _ r]
      show ?thesis
      proof (cases "rc = 0")
        case False
        then show ?thesis using True none d r c by (auto simp: snvm_chrdev_helper_def Let_def fun_eq_iff)
      next
        case t: True
        have "minors_ok s2" "\<exists>k. registered s2 d k" using c none(2) t by auto
        then obtain p x where "ctrl_find_by_pci_dev s2 d = Some p" "ctrls s2 p = Some x" "registered s2 d (c_number x)"
          using find_pci_dev [of s2 d] by blast
        then show ?thesis using True none d r c t by (auto simp: snvm_chrdev_helper_def Let_def minor_addr_def)
      qed
    qed
  next
    case some
    show ?thesis
    proof (cases create)
      case True
      then show ?thesis using some d ok by (auto simp: snvm_chrdev_helper_def Let_def minor_addr_def)
    next
      case False
      then show ?thesis using some d chrdev_remove_ok [OF ok1 some(2,4)] by (simp add: snvm_chrdev_helper_def Let_def)
    qed
  qed
qed

section \<open>Unload\<close>

interpretation ctl: enumerable "\<lambda>s xs. ctrl_inv s \<and> ctrl_list s = xs" "\<lambda>s. hd0 (ctrl_list s)" "\<lambda>s. seq_next (ctrl_list s)"
    "\<lambda>s c. ctrl_put c s"
proof (unfold_locales, goal_cases)
  case (5 s xs e ys)
  then show ?case using ctrl_put_ok [of s e] by (auto simp: ctrl_inv_def remove1_append)
next
  case (4 s xs e ys)
  then have "e \<notin> set xs" using ctrl_inv_list [of s] by auto
  then show ?case using 4 seq_next_split by auto
qed (use ctrl_inv_list in auto)

text \<open>The resources that mappings hold: pages, DMA mappings and memory of the peer driver.\<close>

definition io_resource :: "resource \<Rightarrow> bool" where
  "io_resource r \<longleftrightarrow> (case r of RPage _ \<Rightarrow> True | RDma _ _ \<Rightarrow> True | RPt _ \<Rightarrow> True | RPeerDma _ _ \<Rightarrow> True | RMxMem _ \<Rightarrow> True
     | RMxSgt _ _ \<Rightarrow> True | RPhx _ \<Rightarrow> True | _ \<Rightarrow> False)"

lemma io_resource_other:
  "io_resource r \<Longrightarrow> r \<noteq> RMem c \<and> r \<noteq> RCdev c \<and> r \<noteq> RBitmap c \<and> (\<forall>x. r \<noteq> RNode x) \<and> (\<forall>n. r \<noteq> RSym n) \<and>
   r \<noteq> RPciDriver \<and> r \<noteq> RClass \<and> r \<noteq> RMisc \<and> r \<noteq> RChrdevRegion"
  by (auto simp: io_resource_def)

lemma clear_ctrl_list_ok:
  fixes s :: "'a map_st_scheme"
  assumes "ctrl_inv s"
  shows "\<exists>s'. clear_ctrl_list s = Some (s', length (ctrl_list s)) \<and> ctrl_list s' = [] \<and> maps s' = maps s \<and> mlists s' = mlists s \<and>
    map_st.more s' = map_st.more s \<and> (\<forall>r. io_resource r \<longrightarrow> held (klog s') r = held (klog s) r)"
proof -
  let ?Q = "\<lambda>t. maps t = maps s \<and> mlists t = mlists s \<and> map_st.more t = map_st.more s \<and> (\<forall>r. io_resource r \<longrightarrow> held (klog t) r = held (klog s) r)"
  have "?Q (ctrl_put e h)" if "ctrl_inv h \<and> ctrl_list h = xs" "e \<in> set xs" "?Q h" for h xs e
  proof -
    have "maps (ctrl_put e h) = maps h" "mlists (ctrl_put e h) = mlists h" "map_st.more (ctrl_put e h) = map_st.more h"
      by (simp_all add: ctrl_put_def ctrl_chrdev_remove_def cdev_del_def kobject_put_def ctrl_cdev_release_eq k_free_def emit_def Let_def
          split: option.splits)
    then show ?thesis using that ctrl_put_ok [of h e] io_resource_other [of _ e] by simp
  qed
  then show ?thesis using ctl.drain_loop_spec [of ?Q s "ctrl_list s" 0] assms by (auto simp: clear_ctrl_list_def)
qed

locale ctl_backend = map_backend ops ready pt_res dm_res
  for ops :: "'c ctl_st_scheme peer_memory_ops" and ready pt_res dm_res +
  assumes exit_frame: "ctrl_list (op_exit ops s) = ctrl_list s \<and> maps (op_exit ops s) = maps s \<and> mlists (op_exit ops s) = mlists s \<and>
      map_st.more (op_exit ops s) = map_st.more s"
    and exit_held: "io_resource r \<Longrightarrow> held (klog (op_exit ops s)) r = held (klog s) r"
begin

lemma clear_map_list_ok:
  assumes "inv base s"
  shows "\<exists>s'. clear_map_list ops r s = Some (s', length (mlists s r)) \<and> inv base s' \<and> shrinks s (set (mlists s r)) s'"
proof -
  let ?Q = "\<lambda>t. \<exists>D. shrinks s D t \<and> D \<subseteq> set (mlists s r)"
  have step: "?Q (unmap_and_release ops e h)" if h: "inv base h \<and> mlists h r = xs" "e \<in> set xs" "?Q h" for h xs e
  proof -
    obtain D where D: "shrinks s D h" "D \<subseteq> set (mlists s r)" using h(3) by blast
    have "shrinks s (insert e D) (unmap_and_release ops e h)" by (rule shrinks_step [OF _ D(1)]) (use h in auto)
    moreover have "e \<in> set (mlists s r)" using h(1,2) D(1) by (auto simp: shrinks_def)
    ultimately show ?thesis using D(2) by blast
  qed
  have "\<exists>s'. drain_loop (\<lambda>s. hd0 (mlists s r)) (\<lambda>s p. unmap_and_release ops p s) s 0 = Some (s', 0 + length (mlists s r)) \<and>
      (inv base s' \<and> mlists s' r = []) \<and> ?Q s'"
  proof (rule lst.drain_loop_spec, goal_cases)
    case (1 h xs e)
    then show ?case by (rule step)
  qed (use assms shrinks_refl [of s] in auto)
  then obtain s' D where s': "clear_map_list ops r s = Some (s', length (mlists s r))" "inv base s'" "mlists s' r = []"
    "shrinks s D s'" "D \<subseteq> set (mlists s r)"
    by (auto simp: clear_map_list_def)
  have "set (mlists s r) \<subseteq> D" using s'(3,4) by (simp add: shrinks_def filter_empty_conv subset_eq)
  then show ?thesis using s' by auto
qed

lemma shrinks_trans: "shrinks s D t \<Longrightarrow> shrinks t E u \<Longrightarrow> shrinks s (D \<union> E) u"
  by (auto simp: shrinks_def restrict_map_def fun_eq_iff intro: map_frame_trans cong: filter_cong)

lemma clean_driver_ok:
  assumes "inv base s" "dom (maps s) = (\<Union>r. set (mlists s r))"
  shows "\<exists>s'. clean_driver ops s = Some s' \<and> maps s' = Map.empty \<and> (\<forall>r. mlists s' r = []) \<and> \<not> bus_driver s' \<and>
    ctrl_list s' = ctrl_list s \<and> ctrls s' = ctrls s \<and> kref s' = kref s \<and> cdev_inodes s' = cdev_inodes s \<and> i_cdev s' = i_cdev s \<and>
    opens s' = opens s \<and> (\<forall>r. r \<noteq> RPciDriver \<longrightarrow> held (klog s') r = base r) \<and>
    (bus_driver s \<longrightarrow> (\<forall>d. pdev_driver s' d \<noteq> Some PCI_DRIVER_NAME))"
proof -
  obtain s1 where 1: "clear_map_list ops Device s = Some (s1, length (mlists s Device))" "inv base s1" "shrinks s (set (mlists s Device)) s1"
    using clear_map_list_ok [OF assms(1)] by blast
  obtain s2 where 2: "clear_map_list ops DevQueue s1 = Some (s2, length (mlists s1 DevQueue))" "inv base s2" "shrinks s1 (set (mlists s1 DevQueue)) s2"
    using clear_map_list_ok [OF 1(2)] by blast
  obtain s3 where 3: "clear_map_list ops Host s2 = Some (s3, length (mlists s2 Host))" "inv base s3" "shrinks s2 (set (mlists s2 Host)) s3"
    using clear_map_list_ok [OF 2(2)] by blast
  define D where "D = set (mlists s Device) \<union> set (mlists s1 DevQueue) \<union> set (mlists s2 Host)"
  have sh: "shrinks s D s3" unfolding D_def by (rule shrinks_trans [OF shrinks_trans [OF 1(3) 2(3)] 3(3)])
  have e: "mlists s3 r = []" for r
    using 1(3) 2(3) 3(3) by (cases r) (auto simp: shrinks_def filter_empty_conv)
  have "filter (\<lambda>p. p \<notin> D) (mlists s r) = []" for r using sh e [of r] by (simp add: shrinks_def)
  then have "x \<in> D" if "x \<in> set (mlists s r)" for x r using that by (simp add: filter_empty_conv)
  then have m: "maps s3 = Map.empty" using sh assms(2) by (fastforce simp: shrinks_def restrict_map_def fun_eq_iff)
  have h: "held (klog s3) r = base r" for r using 3(2) m by (simp add: map_inv_def total_def)
  have f: "map_frame s s3" using sh by (simp add: shrinks_def)
  then have more: "bus_driver s3 = bus_driver s" unfolding map_frame_def by (cases s; cases s3) simp
  show ?thesis using 1(1) 2(1) 3(1) e m h f more
    by (auto simp: clean_driver_def snvm_unregister_driver_def emit_def map_frame_def)
qed

lemma global_exit_ok:
  assumes i: "inv base s" and l: "dom (maps s) = (\<Union>r. set (mlists s r))" and c: "ctrl_inv s"
    and b: "\<And>c. ctrls s c \<noteq> None \<Longrightarrow> base (RMem c) > 0"
  shows "\<exists>s'. snvm_global_exit ops s = Some s' \<and> maps s' = Map.empty \<and> (\<forall>r. mlists s' r = []) \<and> ctrl_list s' = [] \<and>
    (\<forall>r. io_resource r \<longrightarrow> held (klog s') r = base r) \<and> \<not> bus_driver s' \<and>
    (bus_driver s \<longrightarrow> (\<forall>d. pdev_driver s' d \<noteq> Some PCI_DRIVER_NAME))"
proof -
  obtain s1 where s1: "clean_driver ops s = Some s1" "maps s1 = Map.empty" "\<forall>r. mlists s1 r = []" "\<not> bus_driver s1"
    "ctrl_list s1 = ctrl_list s" "ctrls s1 = ctrls s" "kref s1 = kref s" "cdev_inodes s1 = cdev_inodes s" "i_cdev s1 = i_cdev s"
    "opens s1 = opens s" "\<forall>r. r \<noteq> RPciDriver \<longrightarrow> held (klog s1) r = base r"
    "bus_driver s \<longrightarrow> (\<forall>d. pdev_driver s1 d \<noteq> Some PCI_DRIVER_NAME)"
    using clean_driver_ok [OF i l] by blast
  define t where "t = map_p2p_service_release s1"
  have t: "maps t = maps s1" "mlists t = mlists s1" "ctrl_list t = ctrl_list s" "ctrls t = ctrls s" "kref t = kref s"
    "cdev_inodes t = cdev_inodes s" "i_cdev t = i_cdev s" "opens t = opens s" "map_st.more t = map_st.more s1"
    "\<And>r. (\<forall>n. r \<noteq> RSym n) \<Longrightarrow> held (klog t) r = held (klog s1) r"
    using s1 by (auto simp: t_def map_p2p_service_release_def emit_def Let_def)
  have "ctrl_ok t e" for e
    using ctrl_inv_okD [OF c, of e] b [of e] t s1(11) by (auto simp: ctrl_ok_def split: option.splits)
  then have "ctrl_inv t" using c t by (simp add: ctrl_inv_def linked_def)
  then obtain s2 where s2: "clear_ctrl_list t = Some (s2, length (ctrl_list t))" "ctrl_list s2 = []" "maps s2 = maps t" "mlists s2 = mlists t"
    "map_st.more s2 = map_st.more t" "\<forall>r. io_resource r \<longrightarrow> held (klog s2) r = held (klog t) r"
    using clear_ctrl_list_ok by blast
  let ?s' = "op_exit ops (snvm_cdev_release s2)"
  have x: "snvm_global_exit ops s = Some ?s'" using s1(1) s2(1) by (simp add: snvm_global_exit_def t_def)
  have r: "ctrl_list (snvm_cdev_release s2) = ctrl_list s2" "maps (snvm_cdev_release s2) = maps s2" "mlists (snvm_cdev_release s2) = mlists s2"
    "map_st.more (snvm_cdev_release s2) = map_st.more s2" by (simp_all add: snvm_cdev_release_def emit_def)
  have "held (klog ?s') q = base q" if "io_resource q" for q
    using io_resource_other [OF that, of 0] s2(6) t(10) s1(11) that exit_held [OF that, of "snvm_cdev_release s2"]
    by (cases "snvm_devno (dev_major s2)") (auto simp: snvm_cdev_release_def)
  moreover have "map_st.more ?s' = map_st.more s1" using exit_frame r(4) s2(5) t(9) by simp
  then have "bus_driver ?s' = bus_driver s1" "pdev_driver ?s' = pdev_driver s1" by (cases ?s'; cases s1; simp)+
  ultimately show ?thesis using x exit_frame r s2 t s1 by simp
qed

end

lemma ctl_put_frame:
  "ctrl_list (fold sym_put ns s) = ctrl_list s \<and> maps (fold sym_put ns s) = maps s \<and> mlists (fold sym_put ns s) = mlists s \<and>
     map_st.more (fold sym_put ns s) = map_st.more s"
  "(\<forall>n. r \<noteq> RSym n) \<Longrightarrow> held (klog (fold sym_put ns s)) r = held (klog s) r"
  by (induction ns arbitrary: s) (auto simp: sym_put_def emit_def)

interpretation nvidia_ctl: ctl_backend "nvidia_ops env" "nv_usable env" nv_pt_res nv_dm_res for env
proof (intro ctl_backend.intro nvidia_maps.map_backend_axioms, unfold_locales, goal_cases)
  case (1 s)
  show ?case by (simp add: nvidia_ops_def nvidia_peer_exit_def nvidia_peer_put_symbols_def ctl_put_frame)
next
  case (2 r s)
  then show ?case by (simp add: nvidia_ops_def nvidia_peer_exit_def nvidia_peer_put_symbols_def ctl_put_frame io_resource_other)
qed

interpretation metax_ctl: ctl_backend "metax_ops env" mx_ready mx_pt_res mx_dm_res for env
proof (intro ctl_backend.intro metax_maps.map_backend_axioms, unfold_locales, goal_cases)
  case (1 s)
  show ?case by (simp add: metax_ops_def metax_peer_exit_def metax_peer_put_symbols_def ctl_put_frame)
next
  case (2 r s)
  then show ?case by (simp add: metax_ops_def metax_peer_exit_def metax_peer_put_symbols_def ctl_put_frame io_resource_other)
qed


text \<open>(C34) The control device is set up completely or not at all: on every error the class, the
  device numbers and the character device taken so far are given back, and releasing a device
  that was set up gives back the rest.\<close>

theorem cdev_init_balanced:
  assumes "\<And>l e. alloc_chrdev_region env l = Inl e \<Longrightarrow> e < 0" "snvm_cdev_init env s = (rc, s')"
  shows "if rc \<noteq> 0 then gains (klog s) [] (klog s')
    else gains (klog s) [RClass, RChrdevRegion, RMisc, RNode (snvm_devno (dev_major s'))] (klog s') \<and>
      gains (klog s) [] (klog (snvm_cdev_release s'))"
proof -
  have "dev_major (emit e t) = dev_major t" for e and t :: "'b ctl_st_scheme" by (simp add: emit_def)
  then show ?thesis using assms(2) assms(1) [of "Acq RClass # klog s"]
    by (auto simp: snvm_cdev_init_def snvm_cdev_release_def Let_def gains_def split: sum.splits if_splits)
qed

section \<open>A host with one device\<close>

definition demo_cdev :: dev_env where
  "demo_cdev = map_env.extend demo_menv
     \<lparr>submit_sync_cmd = (\<lambda>_ _ _. 0), ida_simple_get = (\<lambda>_. 1), copy_to_user = (\<lambda>_. True), find_get_ns = (\<lambda>_ _. None),
      pci_resource_start = (\<lambda>_. 0), pci_resource_len = (\<lambda>_. 0), vm_iomap_memory = (\<lambda>_ _ _. 0), admin_ioctl = (\<lambda>_ _ _ _. 0)\<rparr>"

definition demo_ctlenv :: ctl_env where
  "demo_ctlenv = dev_env.extend demo_cdev
     \<lparr>pci_get_slot = (\<lambda>_ _. 3), pci_class = (\<lambda>_. PCI_CLASS_STORAGE_EXPRESS), pci_is_enabled = (\<lambda>_ _. True),
      minor_get = (\<lambda>l. if held l (RMinor 0) = 0 then 0 else -28), pci_register_driver = (\<lambda>_. 0), attach_ret = (\<lambda>_. 0),
      bound_driver = (\<lambda>l d. if l \<noteq> [] \<and> hd l = Note ''driver_attach'' 0 then Some PCI_DRIVER_NAME else None),
      bound_data = (\<lambda>_ _. None), class_create = (\<lambda>_. 0), alloc_chrdev_region = (\<lambda>_. Inr 240), copy_residue = (\<lambda>_. 0)\<rparr>"

definition demo_ctlst :: ctl_st where
  "demo_ctlst = dev_st.extend (map_st.extend demo_mst
     \<lparr>owners = Map.empty, qgroups = Map.empty, pdev_driver = [3 \<mapsto> ''nvme''], drvdata = Map.empty\<rparr>)
     \<lparr>bus_driver = True, snvm_registered = True, dev_major = 240\<rparr>"

definition demo_addr :: pci_device_addr where
  "demo_addr = \<lparr>domain = 0, bus = 1, slot = 0, func = 0\<rparr>"

lemmas demo_ctl_defs = demo_ctlenv_def demo_cdev_def demo_ctlst_def dev_env.extend_def map_env.extend_def dev_st.extend_def
  map_st.extend_def demo_map_defs

lemma demo_ctl_ok: "minors_ok demo_ctlst" "alloc_fresh demo_ctlenv" "minor_fresh demo_ctlenv" "undisturbed demo_ctlenv 3"
  "pci_get_slot demo_ctlenv l a = 3"
proof -
  have "ctrl_inv demo_ctlst" using demo_ctrl_st_inv by (simp add: ctrl_inv_def ctrl_ok_def linked_def demo_ctl_defs)
  then show "minors_ok demo_ctlst" by (simp add: minors_ok_def registered_def) (simp add: demo_ctl_defs)
  show "alloc_fresh demo_ctlenv" by (simp add: alloc_fresh_def demo_ctl_defs held_above_fresh)
qed (simp_all add: minor_fresh_def undisturbed_def demo_ctl_defs)


theorem chrdev_helper_correct_witness:
  "\<exists>rc addr' s'. snvm_chrdev_helper demo_ctlenv demo_addr False demo_ctlst = Some (rc, addr', s') \<and> rc = 0"
  using chrdev_helper_correct [OF demo_ctl_ok(1-3) demo_ctl_ok(5), of demo_addr False] by auto


theorem cdev_init_balanced_witness:
  "\<exists>s'. snvm_cdev_init demo_ctlenv demo_ctlst = (0, s') \<and> gains [] [] (klog (snvm_cdev_release s'))"
proof -
  have "\<exists>s'. snvm_cdev_init demo_ctlenv demo_ctlst = (0, s')" by (simp add: snvm_cdev_init_def Let_def demo_ctl_defs)
  then obtain s' where r: "snvm_cdev_init demo_ctlenv demo_ctlst = (0, s')" by blast
  have "\<And>l e. alloc_chrdev_region demo_ctlenv l = Inl e \<Longrightarrow> e < 0" "klog demo_ctlst = []" by (simp_all add: demo_ctl_defs)
  then show ?thesis using cdev_init_balanced [OF _ r] r by simp
qed

end
