(* ===== verification/Store_Bytes.thy ===== *)
theory Store_Bytes
  imports Snvm_Prelude
begin

text \<open>
  Bytes on media: little-endian fields, writes into a buffer, and the two digests of
  \<open>tutti/spi/object_digest.h\<close> (CRC-32C by table and the 64-bit object identity). The
  table-driven checksum is the bitwise one, it is injective in every byte, and it can be
  computed in pieces.
\<close>

section \<open>Fields\<close>

type_synonym bytes = "u8 list"

definition store_u32 :: "u32 \<Rightarrow> bytes" where
  "store_u32 v = [ucast v, ucast (drop_bit 8 v), ucast (drop_bit 16 v), ucast (drop_bit 24 v)]"

definition store_u64 :: "u64 \<Rightarrow> bytes" where
  "store_u64 v = map (\<lambda>i. ucast (drop_bit (8 * i) v)) [0..<8]"

definition load_u32 :: "bytes \<Rightarrow> u32" where
  "load_u32 p = or (or (or (ucast (p ! 0)) (push_bit 8 (ucast (p ! 1)))) (push_bit 16 (ucast (p ! 2)))) (push_bit 24 (ucast (p ! 3)))"

definition load_u64 :: "bytes \<Rightarrow> u64" where
  "load_u64 p = fold (\<lambda>i v. or v (push_bit (8 * i) (ucast (p ! i)))) [0..<8] 0"

text \<open>Writing a field at an offset of a buffer.\<close>

definition put :: "nat \<Rightarrow> bytes \<Rightarrow> bytes \<Rightarrow> bytes" where
  "put off bs buf = take off buf @ bs @ drop (off + length bs) buf"

definition round_up :: "u64 \<Rightarrow> u64 \<Rightarrow> u64" where
  "round_up v multiple = (if multiple = 0 then v else (v + multiple - 1) div multiple * multiple)"

lemma unat_round_up:
  assumes "0 < m" "unat v + unat m \<le> 2 ^ 64"
  shows "unat (round_up v m) = (unat v + unat m - 1) div unat m * unat m"
proof -
  have z: "m \<noteq> 0" using assms(1) by auto
  have m: "0 < unat m" using assms(1) by (simp add: word_less_nat_alt)
  have "unat (v + (m - 1)) = unat v + (unat m - 1)"
    using assms m by (simp add: unat_plus_if' unat_sub_if' word_le_nat_alt unat_minus_one)
  then have "unat (v + m - 1) = unat v + unat m - 1" using m by (simp add: algebra_simps)
  moreover have "(unat v + unat m - 1) div unat m * unat m < 2 ^ 64"
  proof (rule le_less_trans)
    show "(unat v + unat m - 1) div unat m * unat m \<le> unat v + unat m - 1" by (rule div_times_less_eq_dividend)
    show "unat v + unat m - 1 < 2 ^ 64" using assms(2) m by linarith
  qed
  ultimately show ?thesis using z by (simp add: round_up_def unat_div unat_mult_lem [symmetric] unat_word_ariths take_bit_nat_eq_self)
qed

lemma length_store [simp]: "length (store_u32 v) = 4" "length (store_u64 w) = 8"
  by (simp_all add: store_u32_def store_u64_def)

lemma length_put: "off + length bs \<le> length buf \<Longrightarrow> length (put off bs buf) = length buf"
  by (simp add: put_def)

lemma nth_put:
  assumes "off + length bs \<le> length buf" "i < length buf"
  shows "put off bs buf ! i = (if off \<le> i \<and> i < off + length bs then bs ! (i - off) else buf ! i)"
  using assms by (auto simp: put_def nth_append)

lemma take_put: "n \<le> off \<Longrightarrow> off + length bs \<le> length buf \<Longrightarrow> take n (put off bs buf) = take n buf"
  by (simp add: put_def min_absorb1)

lemma drop_put_same: "off + length bs \<le> length buf \<Longrightarrow> drop off (put off bs buf) = bs @ drop (off + length bs) buf"
  by (simp add: put_def)

lemma bit_bytes:
  fixes p :: bytes
  shows "bit (fold (\<lambda>i v. or v (push_bit (8 * i) (ucast (p ! i)))) [0..<k] 0 :: 'a::len word) n \<longleftrightarrow>
    n < 8 * k \<and> n < LENGTH('a) \<and> bit (p ! (n div 8)) (n mod 8)"
proof (induction k)
  case (Suc k)
  have "bit (push_bit (8 * k) (ucast (p ! k)) :: 'a word) n \<longleftrightarrow> n < LENGTH('a) \<and> n div 8 = k \<and> bit (p ! k) (n mod 8)"
  proof (cases "8 * k \<le> n \<and> n < 8 * k + 8")
    case True
    then have "n div 8 = k" "n mod 8 = n - 8 * k" by (auto simp: div_nat_eqI modulo_nat_def)
    then show ?thesis using True by (auto simp: bit_simps)
  next
    case False
    then have "n div 8 \<noteq> k" by auto
    moreover have "\<not> bit (p ! k) (n - 8 * k)" if "8 * k \<le> n" using that False bit_imp_le_length [of "p ! k"] by fastforce
    ultimately show ?thesis by (simp add: bit_simps)
  qed
  moreover have "n div 8 = k \<longleftrightarrow> 8 * k \<le> n \<and> n < 8 * k + 8" by auto
  ultimately show ?case using Suc by (auto simp: bit_or_iff)
qed simp

lemma bit_load:
  "n < 32 \<Longrightarrow> bit (load_u32 p) n = bit (p ! (n div 8)) (n mod 8)" "n < 64 \<Longrightarrow> bit (load_u64 p) n = bit (p ! (n div 8)) (n mod 8)"
proof -
  have "load_u32 p = fold (\<lambda>i v. or v (push_bit (8 * i) (ucast (p ! i)))) [0..<4] 0"
    by (simp add: load_u32_def upt_rec numeral_eq_Suc)
  then show "n < 32 \<Longrightarrow> bit (load_u32 p) n = bit (p ! (n div 8)) (n mod 8)" by (simp add: bit_bytes)
  show "n < 64 \<Longrightarrow> bit (load_u64 p) n = bit (p ! (n div 8)) (n mod 8)" by (simp add: load_u64_def bit_bytes)
qed

lemma nth_store:
  "i < 4 \<Longrightarrow> store_u32 v ! i = ucast (drop_bit (8 * i) v)" "i < 8 \<Longrightarrow> store_u64 w ! i = ucast (drop_bit (8 * i) w)"
proof -
  assume "i < 4"
  then consider "i = 0" | "i = 1" | "i = 2" | "i = 3" by linarith
  then show "store_u32 v ! i = ucast (drop_bit (8 * i) v)" by cases (simp_all add: store_u32_def)
qed (simp add: store_u64_def)

lemma load_store_u32 [simp]: "load_u32 (store_u32 v @ r) = v"
proof (rule bit_word_eqI)
  fix n assume "n < LENGTH(32)"
  moreover then have "n div 8 < 4" by simp
  ultimately show "bit (load_u32 (store_u32 v @ r)) n \<longleftrightarrow> bit v n"
    by (simp add: bit_load nth_append nth_store bit_simps)
qed

lemma load_store_u64 [simp]: "load_u64 (store_u64 v @ r) = v"
proof (rule bit_word_eqI)
  fix n assume "n < LENGTH(64)"
  moreover then have "n div 8 < 8" by simp
  ultimately show "bit (load_u64 (store_u64 v @ r)) n \<longleftrightarrow> bit v n"
    by (simp add: bit_load nth_append nth_store bit_simps)
qed

lemma load_u32_cong: "(\<And>i. i < 4 \<Longrightarrow> p ! i = q ! i) \<Longrightarrow> load_u32 p = load_u32 q"
  by (simp add: load_u32_def)

lemma load_u64_cong: "(\<And>i. i < 8 \<Longrightarrow> p ! i = q ! i) \<Longrightarrow> load_u64 p = load_u64 q"
  unfolding load_u64_def by (rule fold_cong) auto

text \<open>Reading a field: the one just written, or one the write did not touch.\<close>

lemma load_put_same:
  "off + 4 \<le> length buf \<Longrightarrow> load_u32 (drop off (put off (store_u32 v) buf)) = v"
  "off + 8 \<le> length buf \<Longrightarrow> load_u64 (drop off (put off (store_u64 w) buf)) = w"
  by (simp_all add: drop_put_same)

lemma load_put_other:
  assumes "off + length bs \<le> length buf"
  shows "o' + 4 \<le> length buf \<Longrightarrow> o' + 4 \<le> off \<or> off + length bs \<le> o' \<Longrightarrow> load_u32 (drop o' (put off bs buf)) = load_u32 (drop o' buf)"
    and "o' + 8 \<le> length buf \<Longrightarrow> o' + 8 \<le> off \<or> off + length bs \<le> o' \<Longrightarrow> load_u64 (drop o' (put off bs buf)) = load_u64 (drop o' buf)"
  using assms by (auto intro!: load_u32_cong load_u64_cong simp: nth_put length_put)

text \<open>The same laws for buffers of at least one 4096-byte block, as rewrite rules for chains of
  writes: their side conditions never look at the exact length.\<close>

lemma block_put: "off + length bs \<le> 4096 \<Longrightarrow> 4096 \<le> length buf \<Longrightarrow> 4096 \<le> length (put off bs buf)"
  "off + length bs \<le> 4096 \<Longrightarrow> 4096 \<le> length buf \<Longrightarrow> length (put off bs buf) = length buf"
  by (simp_all add: length_put)

lemma block_load_same:
  "off + 4 \<le> 4096 \<Longrightarrow> 4096 \<le> length buf \<Longrightarrow> load_u32 (drop off (put off (store_u32 v) buf)) = v"
  "off + 8 \<le> 4096 \<Longrightarrow> 4096 \<le> length buf \<Longrightarrow> load_u64 (drop off (put off (store_u64 w) buf)) = w"
  by (simp_all add: load_put_same)

lemma block_load_other:
  assumes "off + length bs \<le> 4096" "4096 \<le> length buf"
  shows "o' + 4 \<le> 4096 \<Longrightarrow> o' + 4 \<le> off \<or> off + length bs \<le> o' \<Longrightarrow> load_u32 (drop o' (put off bs buf)) = load_u32 (drop o' buf)"
    and "o' + 8 \<le> 4096 \<Longrightarrow> o' + 8 \<le> off \<or> off + length bs \<le> o' \<Longrightarrow> load_u64 (drop o' (put off bs buf)) = load_u64 (drop o' buf)"
  using assms by (simp_all add: load_put_other)

lemma block_take:
  "off + length bs \<le> 4096 \<Longrightarrow> 4096 \<le> length buf \<Longrightarrow> n \<le> off \<Longrightarrow> take n (put off bs buf) = take n buf"
  "take (length bs) (put 0 bs buf) = bs"
  by (simp_all add: take_put put_def)

lemmas block_simps = block_put block_load_same block_load_other block_take

section \<open>CRC-32C\<close>

definition kCrc32cPolynomial :: u32 where "kCrc32cPolynomial = 0x82F63B78"

definition crc_bit :: "u32 \<Rightarrow> u32" where
  "crc_bit crc = (if and crc 1 \<noteq> 0 then xor (drop_bit 1 crc) kCrc32cPolynomial else drop_bit 1 crc)"

definition make_crc32c_table :: "u32 list" where
  "make_crc32c_table = map (\<lambda>i. (crc_bit ^^ 8) (of_nat i)) [0..<256]"

definition crc32c_init :: u32 where "crc32c_init = 0xFFFFFFFF"

definition crc32c_final :: "u32 \<Rightarrow> u32" where "crc32c_final state = xor state 0xFFFFFFFF"

definition crc32c_byte :: "u32 \<Rightarrow> u8 \<Rightarrow> u32" where
  "crc32c_byte state b = xor (make_crc32c_table ! unat (and (xor state (ucast b)) 0xFF)) (drop_bit 8 state)"

definition crc32c_update :: "u32 \<Rightarrow> bytes \<Rightarrow> u32" where
  "crc32c_update state data = foldl crc32c_byte state data"

definition crc32c :: "bytes \<Rightarrow> u32" where
  "crc32c data = (if data = [] then 0 else crc32c_final (crc32c_update crc32c_init data))"

text \<open>The bitwise definition of the code: eight steps per byte.\<close>

definition crc_byte_spec :: "u32 \<Rightarrow> u8 \<Rightarrow> u32" where
  "crc_byte_spec state b = (crc_bit ^^ 8) (xor state (ucast b))"

lemma odd_xor: "odd (xor a b) \<longleftrightarrow> odd a \<noteq> odd (b :: u32)"
  by (simp add: bit_0 [symmetric] bit_xor_iff)

lemma crc_bit_odd: "crc_bit c = (if odd c then xor (drop_bit 1 c) kCrc32cPolynomial else drop_bit 1 c)"
  by (simp add: crc_bit_def and_one_eq odd_iff_mod_2_eq_one)

lemma crc_bit_xor: "crc_bit (xor a b) = xor (crc_bit a) (crc_bit b)"
  by (simp add: crc_bit_odd odd_xor drop_bit_xor ac_simps)

lemma crc_bits_xor: "(crc_bit ^^ n) (xor a b) = xor ((crc_bit ^^ n) a) ((crc_bit ^^ n) b)"
  by (induction n) (simp_all add: crc_bit_xor)

lemma crc_bit_push:
  assumes "\<And>n. 32 - k \<le> n \<Longrightarrow> \<not> bit y n" "k \<le> 32"
  shows "j \<le> k \<Longrightarrow> (crc_bit ^^ j) (push_bit k y) = push_bit (k - j) y"
proof (induction j)
  case (Suc j)
  then have IH: "(crc_bit ^^ j) (push_bit k y) = push_bit (k - j) y" and j: "j < k" by simp_all
  have e: "\<not> odd (push_bit (k - j) y)" using j by (simp add: bit_0 [symmetric] bit_push_bit_iff)
  have "drop_bit 1 (push_bit (k - j) y) = push_bit (k - Suc j) y"
  proof (rule bit_word_eqI)
    fix n assume n: "n < LENGTH(32)"
    have "\<not> bit y (Suc n - (k - j))" if "n = 31" using assms(1) [of "Suc n - (k - j)"] that j assms(2) by fastforce
    moreover have "bit y (n - (k - Suc j)) = bit y (Suc n - (k - j))" if "k - Suc j \<le> n" using that j by (simp add: Suc_diff_le)
    ultimately show "bit (drop_bit 1 (push_bit (k - j) y)) n = bit (push_bit (k - Suc j) y) n"
      using n j by (cases "n = 31") (auto simp: bit_simps)
  qed
  then show ?case using IH e crc_bit_odd [of "push_bit (k - j) y"] by simp
qed simp

lemma crc_low: "unat (and x 0xFF :: u32) < 256" "of_nat (unat (and x 0xFF :: u32)) = and x (0xFF :: u32)"
proof -
  have "and x 0xFF \<le> (0xFF :: u32)" by (rule word_and_le1)
  then show "unat (and x 0xFF :: u32) < 256" by (simp add: word_le_nat_alt)
qed simp

lemma crc_bits_split: "(crc_bit ^^ 8) x = xor ((crc_bit ^^ 8) (and x 0xFF)) (drop_bit 8 x)"
proof -
  have m: "(0xFF :: u32) = mask 8" by (simp add: mask_eq_exp_minus_1)
  have x: "x = xor (and x 0xFF) (push_bit 8 (drop_bit 8 x))"
    by (rule bit_word_eqI) (auto simp: m bit_simps)
  have "(crc_bit ^^ 8) (push_bit 8 (drop_bit 8 x)) = push_bit (8 - 8) (drop_bit 8 x)"
    by (rule crc_bit_push) (auto simp: bit_simps dest: bit_imp_le_length)
  then show ?thesis using crc_bits_xor [of 8 "and x 0xFF" "push_bit 8 (drop_bit 8 x)"] unfolding x [symmetric] by simp
qed

lemma crc32c_byte_eq: "crc32c_byte state b = crc_byte_spec state b"
proof -
  define x :: u32 where "x = xor state (ucast b)"
  have "make_crc32c_table ! unat (and x 0xFF) = (crc_bit ^^ 8) (and x 0xFF)"
    using crc_low [of x] by (simp add: make_crc32c_table_def)
  moreover have "drop_bit 8 x = drop_bit 8 state"
    unfolding x_def by (rule bit_word_eqI) (auto simp: bit_simps dest: bit_imp_le_length)
  ultimately show ?thesis by (simp add: crc32c_byte_def crc_byte_spec_def crc_bits_split [of x] flip: x_def)
qed

lemma crc_bit_inj: "crc_bit a = crc_bit b \<Longrightarrow> a = b"
proof -
  assume "crc_bit a = crc_bit b"
  then have z: "crc_bit (xor a b) = 0" by (simp add: crc_bit_xor)
  have "\<not> odd (xor a b)"
  proof
    assume "odd (xor a b)"
    then have "xor (drop_bit 1 (xor a b)) kCrc32cPolynomial = 0" using z by (simp add: crc_bit_odd)
    then have "bit (xor (drop_bit 1 (xor a b)) kCrc32cPolynomial) 31 = False" by simp
    moreover have "bit kCrc32cPolynomial 31" by (simp add: kCrc32cPolynomial_def)
    moreover have "\<not> bit (drop_bit 1 w) 31" for w :: u32 by (auto simp: bit_drop_bit_eq dest: bit_imp_le_length)
    ultimately show False by (simp only: bit_xor_iff) simp
  qed
  then have "drop_bit 1 (xor a b) = 0" "\<not> bit (xor a b) 0" using z by (simp_all add: crc_bit_odd bit_0)
  moreover have "bit (drop_bit 1 w) m = bit w (Suc m)" for w :: u32 and m by (simp add: bit_drop_bit_eq)
  ultimately have "\<not> bit (xor a b) n" for n by (cases n) (auto simp del: bit_xor_iff drop_bit_xor simp flip: \<open>\<And>w m. bit (drop_bit 1 w) m = bit w (Suc m)\<close>)
  then have "bit a n = bit b n" for n by (simp add: bit_xor_iff)
  then show "a = b" by (simp add: bit_eq_iff)
qed

lemma crc_bits_inj: "(crc_bit ^^ n) a = (crc_bit ^^ n) b \<Longrightarrow> a = b"
  by (induction n) (auto dest: crc_bit_inj)

lemma xor_cancel: "xor (a :: u32) c = xor b c \<longleftrightarrow> a = b" "xor c a = xor c b \<longleftrightarrow> a = b"
  by (auto simp: bit_eq_iff [where 'a = u32] bit_xor_iff)

lemma crc32c_byte_inj: "crc32c_byte s b = crc32c_byte t b \<Longrightarrow> s = t" "crc32c_byte s b = crc32c_byte s c \<Longrightarrow> b = c"
proof -
  show "crc32c_byte s b = crc32c_byte t b \<Longrightarrow> s = t"
    using crc_bits_inj by (fastforce simp: crc32c_byte_eq crc_byte_spec_def xor_cancel)
  assume "crc32c_byte s b = crc32c_byte s c"
  then have "(ucast b :: u32) = ucast c" using crc_bits_inj by (fastforce simp: crc32c_byte_eq crc_byte_spec_def xor_cancel)
  then have "bit (ucast b :: u32) n = bit (ucast c :: u32) n" for n by simp
  then have "bit b n = bit c n" if "n < 8" for n using that by (fastforce simp: bit_ucast_iff)
  then show "b = c" by (auto intro: bit_word_eqI)
qed

lemma crc32c_update_inj: "crc32c_update s xs = crc32c_update t xs \<Longrightarrow> s = t"
  by (induction xs arbitrary: s t) (auto simp: crc32c_update_def dest: crc32c_byte_inj(1))

lemma crc32c_update_append: "crc32c_update s (xs @ ys) = crc32c_update (crc32c_update s xs) ys"
  by (simp add: crc32c_update_def)

lemma crc32c_detects_byte:
  assumes "i < length data" "data ! i \<noteq> b"
  shows "crc32c (data[i := b]) \<noteq> crc32c data"
proof
  assume "crc32c (data[i := b]) = crc32c data"
  moreover have "data \<noteq> []" using assms(1) by auto
  ultimately have u: "crc32c_update crc32c_init (data[i := b]) = crc32c_update crc32c_init data"
    by (simp add: crc32c_def crc32c_final_def xor_cancel)
  have "data[i := b] = take i data @ b # drop (Suc i) data" using assms(1) by (simp add: upd_conv_take_nth_drop)
  moreover have "data = take i data @ data ! i # drop (Suc i) data" using assms(1) by (simp add: id_take_nth_drop)
  ultimately have "crc32c_update (crc32c_byte (crc32c_update crc32c_init (take i data)) b) (drop (Suc i) data) =
      crc32c_update (crc32c_byte (crc32c_update crc32c_init (take i data)) (data ! i)) (drop (Suc i) data)"
    using u crc32c_update_append by (metis crc32c_update_def foldl_Cons)
  then show False using crc32c_update_inj crc32c_byte_inj(2) assms(2) by blast
qed

section \<open>Object identity\<close>

definition object_identity :: "bytes \<Rightarrow> u64" where
  "object_identity data =
     (let hash = foldl (\<lambda>h b. xor h (ucast b) * 0x00000100000001B3) 0xCBF29CE484222325 data;
          hash = xor hash (drop_bit 30 hash) * 0xBF58476D1CE4E5B9;
          hash = xor hash (drop_bit 27 hash) * 0x94D049BB133111EB
      in xor hash (drop_bit 31 hash))"

text \<open>(C17) The table-driven checksum of the code is the bitwise CRC-32C: one table lookup
  does the eight polynomial steps of a byte.\<close>

theorem crc32c_table_correct:
  "crc32c_update state data = foldl crc_byte_spec state data"
  by (simp add: crc32c_update_def crc32c_byte_eq [abs_def])

end
