(* ===== verification/Store_Header.thy ===== *)
theory Store_Header
  imports Store_Bytes
begin

text \<open>
  The object header (\<open>storage_objects/object_header_codec.cpp\<close>): its layout, encoding and
  the ordered validation. A pointer with its size is a byte list; the null pointer is the empty
  list, which every operation rejects like a buffer that is too small. Encoding then decoding
  gives the fields back, and no accepted header stays accepted after one of its bytes changes.
\<close>

section \<open>Keys and layout\<close>

type_synonym ObjectKey = bytes

definition identity :: "ObjectKey \<Rightarrow> u64" where "identity k = object_identity k"

definition key_crc32 :: "ObjectKey \<Rightarrow> u32" where "key_crc32 k = crc32c k"

definition kHeaderBytes :: nat where "kHeaderBytes = 4096"
definition kMagic :: bytes where "kMagic = [84, 85, 84, 84, 73, 79, 66, 74]"
definition kVersion :: u32 where "kVersion = 1"
definition kVersionOffset :: nat where "kVersionOffset = 8"
definition kIdentityOffset :: nat where "kIdentityOffset = 16"
definition kPayloadBytesOffset :: nat where "kPayloadBytesOffset = 24"
definition kGenerationOffset :: nat where "kGenerationOffset = 32"
definition kKeyLenOffset :: nat where "kKeyLenOffset = 40"
definition kKeyCrc32Offset :: nat where "kKeyCrc32Offset = 44"
definition kCommitSeqOffset :: nat where "kCommitSeqOffset = 48"
definition kHeaderCrc32Offset :: nat where "kHeaderCrc32Offset = 56"
definition kCrcCoveredBytes :: nat where "kCrcCoveredBytes = kHeaderCrc32Offset"

lemmas header_offsets = kVersionOffset_def kIdentityOffset_def
  kPayloadBytesOffset_def kGenerationOffset_def kKeyLenOffset_def kKeyCrc32Offset_def kCommitSeqOffset_def
  kHeaderCrc32Offset_def kCrcCoveredBytes_def

lemmas header_layout = header_offsets kHeaderBytes_def kMagic_def kVersion_def

datatype HeaderRejection = HNone | EmptySlot | BadMagic | UnsupportedVersion | BadHeaderCrc | IdentityMismatch
  | KeyCrcMismatch | PayloadBytesMismatch | GenerationMismatch | TruncatedBuffer

record ObjectHeaderFields =
  h_identity :: u64
  h_payload_bytes :: u64
  h_generation :: u64
  h_commit_seq :: u64
  h_key_len :: u32
  h_key_crc32 :: u32

record HeaderExpectation =
  x_key :: "ObjectKey option"
  x_payload_bytes :: u64
  x_generation :: u64
  x_check_generation :: bool

section \<open>Encoding and validation\<close>

definition magic_is_zero :: "bytes \<Rightarrow> bool" where "magic_is_zero p \<longleftrightarrow> (\<forall>i<8. p ! i = 0)"

definition magic_matches :: "bytes \<Rightarrow> bool" where "magic_matches p \<longleftrightarrow> take 8 p = kMagic"

definition encode_object_header :: "bytes \<Rightarrow> ObjectKey \<Rightarrow> u64 \<Rightarrow> u64 \<Rightarrow> u64 \<Rightarrow> bytes option" where
  "encode_object_header out key payload_bytes generation commit_seq =
     (if length out < kHeaderBytes then None
      else if key = [] \<or> payload_bytes = 0 then None
      else
        let out = put 0 (replicate kHeaderBytes 0) out;
            out = put 0 kMagic out;
            out = put kVersionOffset (store_u32 kVersion) out;
            out = put kIdentityOffset (store_u64 (identity key)) out;
            out = put kPayloadBytesOffset (store_u64 payload_bytes) out;
            out = put kGenerationOffset (store_u64 generation) out;
            out = put kKeyLenOffset (store_u32 (of_nat (length key))) out;
            out = put kKeyCrc32Offset (store_u32 (key_crc32 key)) out;
            out = put kCommitSeqOffset (store_u64 commit_seq) out
        in Some (put kHeaderCrc32Offset (store_u32 (crc32c (take kCrcCoveredBytes out))) out))"

definition read_fields :: "bytes \<Rightarrow> ObjectHeaderFields" where
  "read_fields d = \<lparr>h_identity = load_u64 (drop kIdentityOffset d), h_payload_bytes = load_u64 (drop kPayloadBytesOffset d),
     h_generation = load_u64 (drop kGenerationOffset d), h_commit_seq = load_u64 (drop kCommitSeqOffset d),
     h_key_len = load_u32 (drop kKeyLenOffset d), h_key_crc32 = load_u32 (drop kKeyCrc32Offset d)\<rparr>"

definition validate_structure :: "bytes \<Rightarrow> HeaderRejection \<times> ObjectHeaderFields option" where
  "validate_structure d =
     (if length d < kHeaderBytes then (TruncatedBuffer, None)
      else if magic_is_zero d then (EmptySlot, None)
      else if \<not> magic_matches d then (BadMagic, None)
      else if load_u32 (drop kVersionOffset d) \<noteq> kVersion then (UnsupportedVersion, None)
      else if load_u32 (drop kHeaderCrc32Offset d) \<noteq> crc32c (take kCrcCoveredBytes d) then (BadHeaderCrc, None)
      else (HNone, Some (read_fields d)))"

definition peek_object_header :: "bytes \<Rightarrow> HeaderRejection \<times> ObjectHeaderFields option" where
  "peek_object_header d = validate_structure d"

definition decode_object_header :: "bytes \<Rightarrow> HeaderExpectation \<Rightarrow> HeaderRejection \<times> ObjectHeaderFields option" where
  "decode_object_header d x =
     (case x_key x of None \<Rightarrow> (TruncatedBuffer, None)
      | Some key \<Rightarrow>
          if key = [] \<or> x_payload_bytes x = 0 then (TruncatedBuffer, None)
          else case validate_structure d of
            (r, None) \<Rightarrow> (r, None)
          | (r, Some f) \<Rightarrow>
              if h_identity f \<noteq> identity key then (IdentityMismatch, None)
              else if unat (h_key_len f) \<noteq> length key \<or> h_key_crc32 f \<noteq> key_crc32 key then (KeyCrcMismatch, None)
              else if h_payload_bytes f \<noteq> x_payload_bytes x then (PayloadBytesMismatch, None)
              else if x_check_generation x \<and> h_generation f \<noteq> x_generation x then (GenerationMismatch, None)
              else (HNone, Some f))"

section \<open>Laws\<close>

lemma encode_fields:
  assumes "encode_object_header out key pb g cs = Some d"
  shows "length d = length out" "kHeaderBytes \<le> length d" "take 8 d = kMagic" "load_u32 (drop kVersionOffset d) = kVersion"
    "load_u32 (drop kHeaderCrc32Offset d) = crc32c (take kCrcCoveredBytes d)"
    "read_fields d = \<lparr>h_identity = identity key, h_payload_bytes = pb, h_generation = g, h_commit_seq = cs,
       h_key_len = of_nat (length key), h_key_crc32 = key_crc32 key\<rparr>"
proof -
  define o8 where "o8 = put 48 (store_u64 cs) (put 44 (store_u32 (key_crc32 key)) (put 40 (store_u32 (of_nat (length key)))
      (put 32 (store_u64 g) (put 24 (store_u64 pb) (put 16 (store_u64 (identity key)) (put 8 (store_u32 1) (put 0 kMagic
        (put 0 (replicate 4096 0) out))))))))"
  have n: "4096 \<le> length out" and d: "d = put 56 (store_u32 (crc32c (take 56 o8))) o8"
    using assms by (auto simp: encode_object_header_def Let_def kHeaderBytes_def header_offsets kVersion_def o8_def split: if_splits)
  have m: "length kMagic = 8" by (simp add: kMagic_def)
  have l: "length o8 = length out" using n by (simp add: o8_def m block_put)
  have t: "take 8 o8 = kMagic" using n block_take(2) [of kMagic] by (simp add: o8_def m block_simps)
  have v: "load_u32 (drop 8 o8) = 1" using n by (simp add: o8_def m block_simps)
  show "length d = length out" "kHeaderBytes \<le> length d" using n l by (simp_all add: d kHeaderBytes_def block_put)
  show "take 8 d = kMagic" using n l t by (simp add: d block_simps)
  show "load_u32 (drop kVersionOffset d) = kVersion" using n l v by (simp add: d header_offsets kVersion_def block_simps)
  show "load_u32 (drop kHeaderCrc32Offset d) = crc32c (take kCrcCoveredBytes d)" using n l by (simp add: d header_offsets block_simps)
  have "read_fields d = read_fields o8" using n l by (simp add: d read_fields_def header_offsets block_simps)
  also have "\<dots> = \<lparr>h_identity = identity key, h_payload_bytes = pb, h_generation = g, h_commit_seq = cs,
       h_key_len = of_nat (length key), h_key_crc32 = key_crc32 key\<rparr>"
    using n by (simp add: o8_def m read_fields_def header_offsets block_simps)
  finally show "read_fields d = \<lparr>h_identity = identity key, h_payload_bytes = pb, h_generation = g, h_commit_seq = cs,
       h_key_len = of_nat (length key), h_key_crc32 = key_crc32 key\<rparr>" .
qed

lemma encode_some:
  assumes "kHeaderBytes \<le> length out" "key \<noteq> []" "pb \<noteq> 0"
  shows "\<exists>d. encode_object_header out key pb g cs = Some d"
  using assms by (simp add: encode_object_header_def Let_def)

lemma magic_not_zero: "magic_matches d \<Longrightarrow> \<not> magic_is_zero d"
proof
  assume "magic_matches d" "magic_is_zero d"
  then have "d ! 0 = kMagic ! 0" "d ! 0 = 0" by (metis magic_matches_def nth_take zero_less_numeral, simp add: magic_is_zero_def)
  then show False by (simp add: kMagic_def)
qed

lemma validate_structure_iff:
  "validate_structure d = (HNone, Some f) \<longleftrightarrow> kHeaderBytes \<le> length d \<and> magic_matches d \<and>
     load_u32 (drop kVersionOffset d) = kVersion \<and> load_u32 (drop kHeaderCrc32Offset d) = crc32c (take kCrcCoveredBytes d) \<and> f = read_fields d"
  using magic_not_zero [of d] by (auto simp: validate_structure_def)

lemma validate_structure_None: "validate_structure d = (r, None) \<Longrightarrow> r \<noteq> HNone" "validate_structure d = (r, Some f) \<Longrightarrow> r = HNone"
  by (auto simp: validate_structure_def split: if_splits)

lemma load_u32_inj: "load_u32 p = load_u32 q \<Longrightarrow> i < 4 \<Longrightarrow> p ! i = q ! i"
proof (rule bit_word_eqI)
  fix n assume e: "load_u32 p = load_u32 q" and i: "i < 4" and n: "n < LENGTH(8)"
  then have "(8 * i + n) div 8 = i" "(8 * i + n) mod 8 = n" "8 * i + n < 32" by simp_all
  then show "bit (p ! i) n = bit (q ! i) n" using bit_load(1) [of "8 * i + n"] e by metis
qed

lemma validate_detects_byte:
  assumes v: "validate_structure d = (HNone, Some f)" and i: "i < 60" and b: "b \<noteq> d ! i"
  shows "fst (validate_structure (d[i := b])) \<noteq> HNone"
proof
  assume "fst (validate_structure (d[i := b])) = HNone"
  then obtain f' where v': "validate_structure (d[i := b]) = (HNone, Some f')"
    by (metis validate_structure_None(1) prod.exhaust_sel option.exhaust)
  have l: "60 < length d" and c: "load_u32 (drop 56 d) = crc32c (take 56 d)"
    and c': "load_u32 (drop 56 (d[i := b])) = crc32c (take 56 (d[i := b]))"
    using v v' by (auto simp: validate_structure_iff header_layout)
  show False
  proof (cases "i < 56")
    case True
    then have "take 56 (d[i := b]) = (take 56 d)[i := b]" "drop 56 (d[i := b]) = drop 56 d" by (simp_all add: take_update_swap)
    then show False using c c' crc32c_detects_byte [of i "take 56 d" b] True l b by simp
  next
    case False
    then have "take 56 (d[i := b]) = take 56 d" by simp
    then have "drop 56 (d[i := b]) ! (i - 56) = drop 56 d ! (i - 56)" using c c' load_u32_inj [of "drop 56 (d[i := b])" "drop 56 d" "i - 56"] False i by simp
    then show False using False i l b by simp
  qed
qed

lemma encode_decodes:
  assumes "encode_object_header out key pb g cs = Some d" "length key < 2 ^ 32"
  shows "length d = length out" "decode_object_header d \<lparr>x_key = Some key, x_payload_bytes = pb, x_generation = g, x_check_generation = chk\<rparr> =
    (HNone, Some \<lparr>h_identity = identity key, h_payload_bytes = pb, h_generation = g, h_commit_seq = cs,
      h_key_len = of_nat (length key), h_key_crc32 = key_crc32 key\<rparr>)"
proof -
  note e = encode_fields [OF assms(1)]
  show "length d = length out" by (rule e(1))
  have "validate_structure d = (HNone, Some (read_fields d))" using e by (simp add: validate_structure_iff magic_matches_def)
  moreover have "unat (of_nat (length key) :: u32) = length key" using assms(2) by (simp add: unat_of_nat take_bit_nat_eq_self)
  moreover have "key \<noteq> []" "pb \<noteq> 0" using assms(1) by (auto simp: encode_object_header_def split: if_splits)
  ultimately show "decode_object_header d \<lparr>x_key = Some key, x_payload_bytes = pb, x_generation = g, x_check_generation = chk\<rparr> =
    (HNone, Some \<lparr>h_identity = identity key, h_payload_bytes = pb, h_generation = g, h_commit_seq = cs,
      h_key_len = of_nat (length key), h_key_crc32 = key_crc32 key\<rparr>)" using e(6) by (auto simp: decode_object_header_def)
qed

section \<open>Properties\<close>

text \<open>(C5) A header written for a key validates against that key: for a non-empty key of fewer than
  \<open>2^32\<close> bytes and a nonzero payload size, encoding into a large enough buffer succeeds, and decoding
  the result, with the generation checked or not, accepts it and returns the fields that were written.\<close>

theorem header_roundtrip:
  assumes "kHeaderBytes \<le> length out" "key \<noteq> []" "length key < 2 ^ 32" "pb \<noteq> 0"
  shows "\<exists>d. encode_object_header out key pb g cs = Some d \<and> length d = length out \<and>
    decode_object_header d \<lparr>x_key = Some key, x_payload_bytes = pb, x_generation = g, x_check_generation = chk\<rparr> =
      (HNone, Some \<lparr>h_identity = identity key, h_payload_bytes = pb, h_generation = g, h_commit_seq = cs,
        h_key_len = of_nat (length key), h_key_crc32 = key_crc32 key\<rparr>)"
proof -
  obtain d where d: "encode_object_header out key pb g cs = Some d" using encode_some assms by blast
  then show ?thesis using encode_decodes [OF d assms(3)] by blast
qed

theorem header_roundtrip_witness:
  "\<exists>d. encode_object_header (replicate 4096 7) [1, 2, 3] 4096 5 9 = Some d \<and> length d = 4096 \<and>
    decode_object_header d \<lparr>x_key = Some [1, 2, 3], x_payload_bytes = 4096, x_generation = 5, x_check_generation = True\<rparr> =
      (HNone, Some \<lparr>h_identity = identity [1, 2, 3], h_payload_bytes = 4096, h_generation = 5, h_commit_seq = 9,
        h_key_len = 3, h_key_crc32 = key_crc32 [1, 2, 3]\<rparr>)"
  using header_roundtrip [of "replicate 4096 7" "[1, 2, 3]" 4096 5 9 True] by (simp add: kHeaderBytes_def)

text \<open>(C11) A corrupted header is never accepted: if a buffer holds a header that validates, changing
  any one byte of its sixty significant bytes (the fields, the reserved gap and the checksum itself)
  makes both the structural validation and the validation against any key reject it.\<close>

theorem header_detects_corruption:
  assumes "validate_structure d = (HNone, Some f)" "i < 60" "b \<noteq> d ! i"
  shows "fst (peek_object_header (d[i := b])) \<noteq> HNone \<and> fst (decode_object_header (d[i := b]) x) \<noteq> HNone"
proof -
  have v: "fst (validate_structure (d[i := b])) \<noteq> HNone" using validate_detects_byte [OF assms] .
  moreover have "validate_structure (d[i := b]) \<noteq> (r, Some f')" for r f' using v validate_structure_None(2) by fastforce
  ultimately show ?thesis by (auto simp: peek_object_header_def decode_object_header_def split: option.splits prod.splits)
qed

lemma encode_validates: "encode_object_header out key pb g cs = Some d \<Longrightarrow> validate_structure d = (HNone, Some (read_fields d))"
  using encode_fields by (simp add: validate_structure_iff magic_matches_def)

theorem header_detects_corruption_witness:
  "fst (peek_object_header ((the (encode_object_header (replicate 4096 0) [7] 1 1 1))[0 := 0])) \<noteq> HNone"
proof -
  obtain d where d: "encode_object_header (replicate 4096 0) [7] 1 1 1 = Some d" using encode_some [of "replicate 4096 0" "[7]" 1] by (auto simp: kHeaderBytes_def)
  have "d ! 0 = 84" using encode_fields(3) [OF d] by (metis kMagic_def nth_Cons_0 nth_take zero_less_numeral)
  then show ?thesis using header_detects_corruption [OF encode_validates [OF d], of 0 0] d by simp
qed

end
