(* ===== verification/Store_Checkpoint.thy ===== *)
theory Store_Checkpoint
  imports Store_Header
begin

text \<open>
  The checkpoint codec and the choice of its containers (\<open>storage_objects/checkpoint_region.cpp\<close>).
  Every read of the parser is a partial operation, \<open>None\<close> standing for a read outside the buffer,
  and the subtractions of the bound checks wrap as in the code. Decoding never leaves the buffer
  whatever the bytes are, it inverts encoding, the image fits the container sized for it, and the
  container that is overwritten is never the one recovery would choose.
\<close>

section \<open>Layout and data\<close>

definition kCpMagic :: bytes where "kCpMagic = [84, 85, 84, 84, 73, 73, 68, 88]"
definition kCpVersion :: u32 where "kCpVersion = 1"
definition kContainerCount :: nat where "kContainerCount = 2"
definition kContainerHeaderBytes :: nat where "kContainerHeaderBytes = 4096"
definition kCpVersionOffset :: nat where "kCpVersionOffset = 8"
definition kSequenceOffset :: nat where "kSequenceOffset = 12"
definition kBodyBytesOffset :: nat where "kBodyBytesOffset = 20"
definition kBodyCrc32Offset :: nat where "kBodyCrc32Offset = 28"
definition kEntryFixedBytes :: nat where "kEntryFixedBytes = 4 + 8 + 8 + 8 + 8"
definition kEntryCountBytes :: nat where "kEntryCountBytes = 8"

lemmas cp_layout = kContainerHeaderBytes_def kCpVersionOffset_def kSequenceOffset_def kBodyBytesOffset_def
  kBodyCrc32Offset_def kEntryFixedBytes_def kEntryCountBytes_def

record CheckpointEntry =
  c_key :: ObjectKey
  c_slot :: u64
  c_payload_bytes :: u64
  c_generation :: u64
  c_commit_seq :: u64

datatype CheckpointRejection = CNone | EmptyContainer | CpBadMagic | CpUnsupportedVersion
  | CpTruncatedBuffer | BadBodyCrc | MalformedBody

section \<open>Encoding\<close>

definition encode_entry :: "CheckpointEntry \<Rightarrow> bytes" where
  "encode_entry e = store_u32 (of_nat (length (c_key e))) @ store_u64 (c_slot e) @ store_u64 (c_payload_bytes e) @
     store_u64 (c_generation e) @ store_u64 (c_commit_seq e) @ c_key e"

definition encode_body :: "CheckpointEntry list \<Rightarrow> bytes" where
  "encode_body es = store_u64 (of_nat (length es)) @ concat (map encode_entry es)"

definition encode_checkpoint :: "CheckpointEntry list \<Rightarrow> u64 \<Rightarrow> bytes" where
  "encode_checkpoint es sequence =
     (let body = encode_body es;
          total = unat (round_up (of_nat (kContainerHeaderBytes + length body)) 4096);
          image = replicate total 0;
          image = put 0 kCpMagic image;
          image = put kCpVersionOffset (store_u32 kCpVersion) image;
          image = put kSequenceOffset (store_u64 sequence) image;
          image = put kBodyBytesOffset (store_u64 (of_nat (length body))) image;
          image = put kBodyCrc32Offset (store_u32 (crc32c body)) image
      in if body \<noteq> [] then put kContainerHeaderBytes body image else image)"

section \<open>Decoding\<close>

definition sub64 :: "nat \<Rightarrow> nat \<Rightarrow> nat" where "sub64 a b = (a + 2 ^ 64 - b) mod 2 ^ 64"

definition rd_u32 :: "bytes \<Rightarrow> nat \<Rightarrow> u32 option" where
  "rd_u32 d off = (if off + 4 \<le> length d then Some (load_u32 (drop off d)) else None)"

definition rd_u64 :: "bytes \<Rightarrow> nat \<Rightarrow> u64 option" where
  "rd_u64 d off = (if off + 8 \<le> length d then Some (load_u64 (drop off d)) else None)"

definition rd_bytes :: "bytes \<Rightarrow> nat \<Rightarrow> nat \<Rightarrow> bytes option" where
  "rd_bytes d off n = (if off + n \<le> length d then Some (take n (drop off d)) else None)"

fun parse_entries :: "nat \<Rightarrow> bytes \<Rightarrow> nat \<Rightarrow> nat \<Rightarrow> CheckpointEntry list \<Rightarrow> (CheckpointRejection + CheckpointEntry list) option" where
  "parse_entries 0 body body_bytes cursor parsed = Some (Inr parsed)"
| "parse_entries (Suc n) body body_bytes cursor parsed =
     (if sub64 body_bytes cursor < kEntryFixedBytes then Some (Inl MalformedBody)
      else case rd_u32 body cursor of None \<Rightarrow> None
      | Some key_len \<Rightarrow> (case rd_u64 body (cursor + 4) of None \<Rightarrow> None
      | Some slot \<Rightarrow> (case rd_u64 body (cursor + 12) of None \<Rightarrow> None
      | Some payload_bytes \<Rightarrow> (case rd_u64 body (cursor + 20) of None \<Rightarrow> None
      | Some generation \<Rightarrow> (case rd_u64 body (cursor + 28) of None \<Rightarrow> None
      | Some commit_seq \<Rightarrow>
          if key_len = 0 \<or> unat key_len > sub64 body_bytes (cursor + 36) then Some (Inl MalformedBody)
          else (case rd_bytes body (cursor + 36) (unat key_len) of None \<Rightarrow> None
                | Some key \<Rightarrow> parse_entries n body body_bytes (cursor + 36 + unat key_len)
                    (parsed @ [\<lparr>c_key = key, c_slot = slot, c_payload_bytes = payload_bytes,
                       c_generation = generation, c_commit_seq = commit_seq\<rparr>])))))))"

definition parse_body :: "bytes \<Rightarrow> nat \<Rightarrow> (CheckpointRejection + CheckpointEntry list) option" where
  "parse_body body body_bytes =
     (if body_bytes < kEntryCountBytes then Some (Inl MalformedBody)
      else case rd_u64 body 0 of None \<Rightarrow> None
      | Some count \<Rightarrow>
          if unat count > sub64 body_bytes kEntryCountBytes div kEntryFixedBytes then Some (Inl MalformedBody)
          else parse_entries (unat count) body body_bytes kEntryCountBytes [])"

definition decode_checkpoint :: "bytes \<Rightarrow> (CheckpointRejection + u64 \<times> CheckpointEntry list) option" where
  "decode_checkpoint d =
     (if length d < kContainerHeaderBytes then Some (Inl CpTruncatedBuffer)
      else if \<forall>i<8. d ! i = 0 then Some (Inl EmptyContainer)
      else if take 8 d \<noteq> kCpMagic then Some (Inl CpBadMagic)
      else case rd_u32 d kCpVersionOffset of None \<Rightarrow> None
      | Some version \<Rightarrow>
          if version \<noteq> kCpVersion then Some (Inl CpUnsupportedVersion)
          else (case (rd_u64 d kSequenceOffset, rd_u64 d kBodyBytesOffset, rd_u32 d kBodyCrc32Offset) of
            (Some seq, Some body_bytes, Some stored_crc) \<Rightarrow>
              if unat body_bytes > sub64 (length d) kContainerHeaderBytes then Some (Inl CpTruncatedBuffer)
              else (case rd_bytes d kContainerHeaderBytes (unat body_bytes) of None \<Rightarrow> None
                | Some covered \<Rightarrow>
                    if crc32c covered \<noteq> stored_crc then Some (Inl BadBodyCrc)
                    else (case parse_body (drop kContainerHeaderBytes d) (unat body_bytes) of None \<Rightarrow> None
                          | Some (Inl r) \<Rightarrow> Some (Inl r)
                          | Some (Inr es) \<Rightarrow> Some (Inr (seq, es))))
          | _ \<Rightarrow> None))"

section \<open>Containers\<close>

definition checkpoint_container_bytes :: "u64 \<Rightarrow> u32 \<Rightarrow> u64" where
  "checkpoint_container_bytes max_entries max_key_bytes =
     round_up (of_nat kContainerHeaderBytes + (of_nat kEntryCountBytes + max_entries * (of_nat kEntryFixedBytes + ucast max_key_bytes))) 4096"

definition checkpoint_container_offset :: "u32 \<Rightarrow> u64 \<Rightarrow> u64" where
  "checkpoint_container_offset index container_bytes = ucast index * container_bytes"

fun first_empty :: "u64 list \<Rightarrow> nat \<Rightarrow> nat option" where
  "first_empty [] i = None"
| "first_empty (s # ss) i = (if s = 0 then Some i else first_empty ss (Suc i))"

definition next_checkpoint_container :: "u64 list \<Rightarrow> nat" where
  "next_checkpoint_container sequences =
     (if sequences = [] then 0
      else case first_empty sequences 0 of Some i \<Rightarrow> i
      | None \<Rightarrow> fold (\<lambda>i oldest. if sequences ! i < sequences ! oldest then i else oldest) [1..<length sequences] 0)"

definition select_checkpoint_container :: "u64 list \<Rightarrow> nat option" where
  "select_checkpoint_container sequences =
     fold (\<lambda>i best. if sequences ! i = 0 then best
        else case best of None \<Rightarrow> Some i | Some b \<Rightarrow> if sequences ! i > sequences ! b then Some i else Some b)
       [0..<length sequences] None"

text \<open>The sequence number of a container as recovery sees it: zero when it does not decode.\<close>

definition container_sequence :: "bytes \<Rightarrow> u64" where
  "container_sequence d = (case decode_checkpoint d of Some (Inr (s, es)) \<Rightarrow> s | _ \<Rightarrow> 0)"

section \<open>Reads stay in the buffer\<close>

lemma sub64_eq: "b \<le> a \<Longrightarrow> a < 2 ^ 64 \<Longrightarrow> sub64 a b = a - b"
proof -
  assume h: "b \<le> a" "a < 2 ^ 64"
  then have "a + 2 ^ 64 - b = (a - b) + 2 ^ 64" by simp
  then have "sub64 a b = (a - b) mod 2 ^ 64" by (simp only: sub64_def mod_add_self2)
  then show "sub64 a b = a - b" using h by simp
qed

lemma rd_defined:
  "off + 4 \<le> length d \<Longrightarrow> rd_u32 d off = Some (load_u32 (drop off d))"
  "off + 8 \<le> length d \<Longrightarrow> rd_u64 d off = Some (load_u64 (drop off d))"
  "off + n \<le> length d \<Longrightarrow> rd_bytes d off n = Some (take n (drop off d))"
  by (simp_all add: rd_u32_def rd_u64_def rd_bytes_def)

lemma parse_entries_defined:
  assumes "bb \<le> length body" "bb < 2 ^ 64"
  shows "cursor \<le> bb \<Longrightarrow> parse_entries n body bb cursor parsed \<noteq> None"
proof (induction n arbitrary: cursor parsed)
  case (Suc n)
  show ?case
  proof (cases "sub64 bb cursor < kEntryFixedBytes")
    case False
    then have c: "cursor + 36 \<le> bb" using Suc.prems assms by (simp add: sub64_eq kEntryFixedBytes_def)
    then have "sub64 bb (cursor + 36) = bb - (cursor + 36)" using assms(2) by (simp add: sub64_eq)
    then show ?thesis using c False assms(1) Suc.IH by (auto simp: rd_defined)
  qed simp
qed simp

lemma parse_body_defined: "bb \<le> length body \<Longrightarrow> bb < 2 ^ 64 \<Longrightarrow> parse_body body bb \<noteq> None"
  using parse_entries_defined [of bb body 8] by (simp add: parse_body_def rd_defined kEntryCountBytes_def)

lemma decode_checkpoint_defined:
  assumes "length d < 2 ^ 64"
  shows "decode_checkpoint d \<noteq> None"
proof (cases "length d < kContainerHeaderBytes")
  case False
  then have n: "4096 \<le> length d" by (simp add: kContainerHeaderBytes_def)
  then have s: "sub64 (length d) 4096 = length d - 4096" using assms by (simp add: sub64_eq)
  show ?thesis
  proof (cases "unat (load_u64 (drop kBodyBytesOffset d)) > length d - 4096")
    case True
    then show ?thesis using n s by (simp add: decode_checkpoint_def rd_defined cp_layout)
  next
    case le: False
    then have "parse_body (drop 4096 d) (unat (load_u64 (drop 20 d))) \<noteq> None"
      using n unsigned_less [of "load_u64 (drop 20 d)"] by (intro parse_body_defined) (auto simp: kBodyBytesOffset_def)
    then show ?thesis using le n s by (auto simp: decode_checkpoint_def rd_defined cp_layout split: sum.splits)
  qed
qed (simp add: decode_checkpoint_def)

section \<open>Decoding inverts encoding\<close>

definition entry_ok :: "CheckpointEntry \<Rightarrow> bool" where
  "entry_ok e \<longleftrightarrow> c_key e \<noteq> [] \<and> length (c_key e) < 2 ^ 32"

lemma length_encode_entry: "length (encode_entry e) = 36 + length (c_key e)"
  by (simp add: encode_entry_def)

lemma unat_of_nat_small: "n < 2 ^ LENGTH('a) \<Longrightarrow> unat (of_nat n :: 'a::len word) = n"
  by (simp add: unat_of_nat take_bit_nat_eq_self)

lemma entry_reads:
  assumes "entry_ok e"
  shows "rd_u32 (pre @ encode_entry e @ rest) (length pre) = Some (of_nat (length (c_key e)))"
    "rd_u64 (pre @ encode_entry e @ rest) (length pre + 4) = Some (c_slot e)"
    "rd_u64 (pre @ encode_entry e @ rest) (length pre + 12) = Some (c_payload_bytes e)"
    "rd_u64 (pre @ encode_entry e @ rest) (length pre + 20) = Some (c_generation e)"
    "rd_u64 (pre @ encode_entry e @ rest) (length pre + 28) = Some (c_commit_seq e)"
    "rd_bytes (pre @ encode_entry e @ rest) (length pre + 36) (length (c_key e)) = Some (c_key e)"
  by (simp_all add: rd_u32_def rd_u64_def rd_bytes_def encode_entry_def)

lemma parse_encoded:
  assumes "\<forall>e\<in>set es. entry_ok e" "length pre + length (concat (map encode_entry es)) < 2 ^ 64"
  shows "parse_entries (length es) (pre @ concat (map encode_entry es) @ rest)
    (length pre + length (concat (map encode_entry es))) (length pre) acc = Some (Inr (acc @ es))"
  using assms
proof (induction es arbitrary: pre acc)
  case (Cons e es)
  let ?t = "concat (map encode_entry es)"
  let ?bb = "length pre + length (encode_entry e @ ?t)"
  have e: "entry_ok e" and k: "unat (of_nat (length (c_key e)) :: u32) = length (c_key e)" and nz: "(of_nat (length (c_key e)) :: u32) \<noteq> 0"
    using Cons.prems(1) unat_of_nat_small [of "length (c_key e)", where 'a = 32] by (auto simp: entry_ok_def simp flip: unat_eq_0)
  have b: "?bb < 2 ^ 64" using Cons.prems(2) by simp
  have s: "sub64 ?bb (length pre) = length (encode_entry e @ ?t)" "sub64 ?bb (length pre + 36) = length (c_key e) + length ?t"
    using b by (simp_all add: sub64_eq length_encode_entry)
  have IH: "parse_entries (length es) ((pre @ encode_entry e) @ ?t @ rest) (length (pre @ encode_entry e) + length ?t)
      (length (pre @ encode_entry e)) (acc @ [e]) = Some (Inr ((acc @ [e]) @ es))"
    by (rule Cons.IH) (use Cons.prems in auto)
  have eta: "\<lparr>c_key = c_key e, c_slot = c_slot e, c_payload_bytes = c_payload_bytes e,
     c_generation = c_generation e, c_commit_seq = c_commit_seq e\<rparr> = e" by simp
  show ?case using IH s k nz entry_reads [OF e, of pre "?t @ rest"] length_encode_entry [of e]
    by (simp add: eta kEntryFixedBytes_def add.assoc)
qed simp

lemma parse_body_encoded:
  assumes "\<forall>e\<in>set es. entry_ok e" "length (encode_body es) < 2 ^ 64"
  shows "parse_body (encode_body es @ rest) (length (encode_body es)) = Some (Inr es)"
proof -
  let ?t = "concat (map encode_entry es)"
  have len: "length (encode_body es) = 8 + length ?t" by (simp add: encode_body_def)
  have many: "length es * 36 \<le> length ?t" by (induction es) (simp_all add: length_encode_entry)
  then have n: "unat (of_nat (length es) :: u64) = length es" using assms(2) len by (intro unat_of_nat_small) simp
  have "rd_u64 (encode_body es @ rest) 0 = Some (of_nat (length es))" by (simp add: rd_u64_def encode_body_def)
  moreover have "sub64 (length (encode_body es)) 8 = length ?t" using assms(2) len by (simp add: sub64_eq)
  moreover have "length es \<le> length ?t div 36" using many by (simp add: less_eq_div_iff_mult_less_eq)
  moreover have "parse_entries (length es) (encode_body es @ rest) (length (encode_body es)) 8 [] = Some (Inr es)"
    using parse_encoded [of es "store_u64 (of_nat (length es))" rest "[]"] assms len by (simp add: encode_body_def)
  ultimately show ?thesis using n len by (simp add: parse_body_def kEntryCountBytes_def kEntryFixedBytes_def)
qed

lemma blocks_cover: "4096 + n \<le> (n + 8191) div 4096 * (4096 :: nat)"
proof -
  have "n + 8191 = (n + 8191) div 4096 * 4096 + (n + 8191) mod 4096" by simp
  moreover have "(n + 8191) mod 4096 < 4096" by (rule mod_less_divisor) simp
  ultimately show ?thesis by linarith
qed

lemma image_total:
  assumes "n + 8192 \<le> 2 ^ 64"
  shows "unat (round_up (of_nat (4096 + n)) 4096) = (n + 8191) div 4096 * 4096"
proof -
  have u: "unat (of_nat (4096 + n) :: u64) = 4096 + n" using assms by (intro unat_of_nat_small) simp
  have "unat (round_up (of_nat (4096 + n)) 4096) = (unat (of_nat (4096 + n) :: u64) + unat (4096 :: u64) - 1) div unat (4096 :: u64) * unat (4096 :: u64)"
    by (rule unat_round_up) (use u assms in auto)
  then show ?thesis unfolding u by simp
qed

lemma length_encode_checkpoint:
  assumes "length (encode_body es) + 8192 \<le> 2 ^ 64"
  shows "length (encode_checkpoint es s) = (length (encode_body es) + 8191) div 4096 * 4096"
  unfolding encode_checkpoint_def Let_def kContainerHeaderBytes_def image_total [OF assms]
  using blocks_cover [of "length (encode_body es)"] by (simp add: cp_layout kCpMagic_def length_put block_put)

lemma encode_image:
  assumes "length (encode_body es) + 8192 \<le> 2 ^ 64"
  shows "4096 + length (encode_body es) \<le> length (encode_checkpoint es s)"
    "take 8 (encode_checkpoint es s) = kCpMagic" "load_u32 (drop 8 (encode_checkpoint es s)) = kCpVersion"
    "load_u64 (drop 12 (encode_checkpoint es s)) = s" "unat (load_u64 (drop 20 (encode_checkpoint es s))) = length (encode_body es)"
    "load_u32 (drop 28 (encode_checkpoint es s)) = crc32c (encode_body es)"
    "\<exists>pad. drop 4096 (encode_checkpoint es s) = encode_body es @ pad"
proof -
  let ?b = "encode_body es"
  define n where "n = unat (round_up (of_nat (4096 + length ?b)) 4096)"
  define h where "h = put 28 (store_u32 (crc32c ?b)) (put 20 (store_u64 (of_nat (length ?b))) (put 12 (store_u64 s)
      (put 8 (store_u32 kCpVersion) (put 0 kCpMagic (replicate n 0)))))"
  have b: "?b \<noteq> []" "length kCpMagic = 8" by (simp_all add: encode_body_def store_u64_def kCpMagic_def)
  have i: "encode_checkpoint es s = put 4096 ?b h" using b by (simp add: encode_checkpoint_def Let_def cp_layout h_def n_def)
  have "4096 + length ?b \<le> (length ?b + 8191) div 4096 * 4096" by (rule blocks_cover)
  moreover have len: "length (encode_checkpoint es s) = (length ?b + 8191) div 4096 * 4096" by (rule length_encode_checkpoint [OF assms])
  ultimately show ge: "4096 + length ?b \<le> length (encode_checkpoint es s)" by simp
  have "4096 + length ?b \<le> n" using ge len image_total [OF assms] unfolding n_def by simp
  then have n: "4096 \<le> n" and hl: "length h = n" "4096 + length ?b \<le> length h" by (simp_all add: h_def b block_put)
  have w: "unat (of_nat (length ?b) :: u64) = length ?b" using assms by (intro unat_of_nat_small) simp
  have t: "take 8 h = kCpMagic" using n block_take(2) [of kCpMagic] by (simp add: h_def b block_simps)
  show "take 8 (encode_checkpoint es s) = kCpMagic" using t hl by (simp add: i take_put)
  show "load_u32 (drop 8 (encode_checkpoint es s)) = kCpVersion" "load_u64 (drop 12 (encode_checkpoint es s)) = s"
    "unat (load_u64 (drop 20 (encode_checkpoint es s))) = length ?b" "load_u32 (drop 28 (encode_checkpoint es s)) = crc32c ?b"
    using hl n w by (simp_all add: i load_put_other h_def b block_simps)
  show "\<exists>pad. drop 4096 (encode_checkpoint es s) = ?b @ pad" using hl by (simp add: i drop_put_same)
qed

lemma decode_encoded:
  assumes "\<forall>e\<in>set es. entry_ok e" "length (encode_body es) + 8192 \<le> 2 ^ 64" "length (encode_checkpoint es s @ slack) < 2 ^ 64"
  shows "decode_checkpoint (encode_checkpoint es s @ slack) = Some (Inr (s, es))"
proof -
  let ?i = "encode_checkpoint es s" and ?b = "encode_body es"
  note e = encode_image [OF assms(2), where s = s]
  obtain pad where p: "drop 4096 ?i = ?b @ pad" using e(7) by blast
  have l: "4096 \<le> length ?i" using e(1) by simp
  have d: "drop 8 (?i @ slack) = drop 8 ?i @ slack" "drop 12 (?i @ slack) = drop 12 ?i @ slack" "drop 20 (?i @ slack) = drop 20 ?i @ slack"
    "drop 28 (?i @ slack) = drop 28 ?i @ slack" "drop 4096 (?i @ slack) = ?b @ pad @ slack" "take 8 (?i @ slack) = kCpMagic"
    using l p e(2) by simp_all
  have r: "load_u32 (drop o' ?i @ slack) = load_u32 (drop o' ?i)" "load_u64 (drop o' ?i @ slack) = load_u64 (drop o' ?i)" if "o' + 8 \<le> 4096" for o'
    using that l by (auto intro!: load_u32_cong load_u64_cong simp: nth_append)
  have "(?i @ slack) ! 0 = 84" using d(6) by (metis kCpMagic_def nth_Cons_0 nth_take zero_less_numeral)
  then have "(?i @ slack) ! 0 \<noteq> 0" by simp
  then have nz: "\<not> (\<forall>i<8. (?i @ slack) ! i = 0)" by (metis zero_less_numeral)
  have s: "sub64 (length (?i @ slack)) 4096 = length (?i @ slack) - 4096" using l assms(3) by (simp add: sub64_eq)
  have pb: "parse_body (?b @ pad @ slack) (length ?b) = Some (Inr es)" using parse_body_encoded [of es "pad @ slack"] assms(1,2) by simp
  show ?thesis using nz s pb l e(1,3-6) d r [of 8] r [of 12] r [of 20] r [of 28]
    by (simp add: decode_checkpoint_def rd_defined cp_layout)
qed

lemma encode_body_bound:
  assumes "length es \<le> n" "\<forall>e\<in>set es. length (c_key e) \<le> k"
  shows "length (encode_body es) \<le> 8 + n * (36 + k)"
proof -
  have "length (concat (map encode_entry es)) \<le> length es * (36 + k)"
    using assms(2) by (induction es) (auto simp: length_encode_entry)
  also have "\<dots> \<le> n * (36 + k)" using assms(1) by (rule mult_le_mono1)
  finally show ?thesis by (simp add: encode_body_def)
qed

lemma container_bytes_eq:
  assumes "8 + n * (36 + unat k) + 8192 \<le> 2 ^ 64"
  shows "unat (checkpoint_container_bytes (of_nat n) k) = (8 + n * (36 + unat k) + 8191) div 4096 * 4096"
proof -
  have "of_nat (4096 + (8 + n * (36 + unat k))) = (4096 :: u64) + (8 + of_nat n * (36 + ucast k))"
    by simp
  then have "checkpoint_container_bytes (of_nat n) k = round_up (of_nat (4096 + (8 + n * (36 + unat k)))) 4096"
    by (simp add: checkpoint_container_bytes_def cp_layout)
  then show ?thesis using image_total [OF assms] by simp
qed

section \<open>Choosing containers\<close>

definition newest :: "u64 list \<Rightarrow> nat \<Rightarrow> nat \<Rightarrow> bool" where
  "newest s n c \<longleftrightarrow> c < n \<and> s ! c \<noteq> 0 \<and> (\<forall>i<c. s ! i < s ! c) \<and> (\<forall>i<n. s ! i \<le> s ! c)"

lemma newest_unique: "newest s n c \<Longrightarrow> newest s n c' \<Longrightarrow> c = c'"
proof (rule ccontr)
  assume h: "newest s n c" "newest s n c'" "c \<noteq> c'"
  then have "s ! c \<le> s ! c'" "s ! c' \<le> s ! c" by (simp_all add: newest_def)
  moreover have "s ! c < s ! c' \<or> s ! c' < s ! c" using h by (cases "c < c'") (simp_all add: newest_def)
  ultimately show False by auto
qed

lemma select_fold:
  "case fold (\<lambda>i best. if s ! i = 0 then best
      else case best of None \<Rightarrow> Some i | Some b \<Rightarrow> if s ! i > s ! b then Some i else Some b) [0..<n] None of
    None \<Rightarrow> \<forall>i<n. s ! i = 0 | Some c \<Rightarrow> newest s n c"
  (is "case ?f n of None \<Rightarrow> _ | Some c \<Rightarrow> _")
proof (induction n)
  case (Suc n)
  show ?case
  proof (cases "?f n")
    case None
    then have z: "\<forall>i<n. s ! i = 0" using Suc by simp
    then show ?thesis using None by (auto simp: newest_def less_Suc_eq word_gt_0)
  next
    case (Some c)
    then have c: "newest s n c" using Suc by simp
    show ?thesis
    proof (cases "s ! n = 0 \<or> \<not> s ! c < s ! n")
      case True
      then have "newest s (Suc n) c" using c by (auto simp: newest_def less_Suc_eq not_less)
      then show ?thesis using Some True by auto
    next
      case False
      then have "newest s (Suc n) n" using c unfolding newest_def by (auto simp: less_Suc_eq intro: le_less_trans less_imp_le)
      then show ?thesis using Some False by auto
    qed
  qed
qed simp

lemma select_newest: "select_checkpoint_container s = Some c \<Longrightarrow> newest s (length s) c"
  using select_fold [where s = s and n = "length s"] by (simp add: select_checkpoint_container_def)

lemma select_none: "select_checkpoint_container s = None \<longleftrightarrow> (\<forall>i<length s. s ! i = 0)"
  using select_fold [where s = s and n = "length s"] by (auto simp: select_checkpoint_container_def newest_def split: option.splits)

lemma select_iff: "select_checkpoint_container s = Some c \<longleftrightarrow> newest s (length s) c"
proof
  assume n: "newest s (length s) c"
  then have "select_checkpoint_container s \<noteq> None" by (auto simp: select_none newest_def)
  then obtain c' where "select_checkpoint_container s = Some c'" by blast
  then show "select_checkpoint_container s = Some c" using newest_unique [OF n] select_newest by blast
qed (rule select_newest)

lemma first_empty_Some: "first_empty s j = Some i \<Longrightarrow> j \<le> i \<and> i - j < length s \<and> s ! (i - j) = 0"
proof (induction s arbitrary: j)
  case (Cons a s)
  show ?case
  proof (cases "a = 0")
    case False
    then have "Suc j \<le> i \<and> i - Suc j < length s \<and> s ! (i - Suc j) = 0" using Cons by simp
    moreover then have "i - j = Suc (i - Suc j)" by linarith
    ultimately show ?thesis by simp
  qed (use Cons.prems in simp)
qed simp

lemma first_empty_None: "first_empty s j = None \<Longrightarrow> i < length s \<Longrightarrow> s ! i \<noteq> 0"
  by (induction s arbitrary: j i) (auto simp: less_Suc_eq_0_disj split: if_splits)

lemma oldest_fold:
  fixes s :: "u64 list"
  shows "0 < n \<Longrightarrow> let m = fold (\<lambda>i oldest. if s ! i < s ! oldest then i else oldest) [1..<n] 0 in m < n \<and> (\<forall>i<n. s ! m \<le> s ! i)"
proof (induction n)
  case (Suc n)
  then show ?case by (cases "n = 0") (auto simp: Let_def less_Suc_eq not_less intro: order.trans less_imp_le)
qed simp

lemma next_spec:
  assumes "s \<noteq> []"
  shows "next_checkpoint_container s < length s \<and> (\<forall>i<length s. s ! next_checkpoint_container s \<le> s ! i)"
proof (cases "first_empty s 0")
  case None
  then show ?thesis using assms oldest_fold [of "length s" s] by (simp add: next_checkpoint_container_def Let_def)
next
  case (Some i)
  then show ?thesis using assms first_empty_Some [OF Some] by (simp add: next_checkpoint_container_def)
qed

lemma next_not_newest:
  assumes "newest s (length s) c" "i < length s" "s ! i \<noteq> s ! c"
  shows "next_checkpoint_container s < length s" "next_checkpoint_container s \<noteq> c"
proof -
  have "s \<noteq> []" using assms(2) by auto
  then have n: "next_checkpoint_container s < length s" "s ! next_checkpoint_container s \<le> s ! i" using next_spec assms(2) by auto
  then show "next_checkpoint_container s < length s" by simp
  have "s ! i < s ! c" using assms by (auto simp: newest_def)
  then show "next_checkpoint_container s \<noteq> c" using n(2) by auto
qed

lemma newest_update:
  assumes "newest s (length s) c" "n < length s" "n \<noteq> c" "v < s ! c"
  shows "newest (s[n := v]) (length s) c"
  using assms by (auto simp: newest_def nth_list_update less_imp_le)

lemma newest_new:
  assumes "newest s (length s) c" "n < length s" "s ! c < v"
  shows "newest (s[n := v]) (length s) n"
proof -
  have "s ! i < v" if "i < length s" for i using assms that unfolding newest_def by (meson le_less_trans)
  moreover have "v \<noteq> 0" using assms(3) by auto
  ultimately show ?thesis using assms(2) by (auto simp: newest_def nth_list_update less_imp_le)
qed

section \<open>Properties\<close>

text \<open>(C13) The checkpoint parser never reads outside its buffer, whatever the bytes are: a corrupted
  length, count or key length gives one of the typed rejections, and the loop over the entries
  always ends with a value.\<close>

theorem decode_checkpoint_in_bounds:
  "length d < 2 ^ 64 \<Longrightarrow> \<exists>r. decode_checkpoint d = Some r"
  using decode_checkpoint_defined by blast

theorem decode_checkpoint_in_bounds_witness:
  "\<exists>r. decode_checkpoint (kCpMagic @ replicate 5000 255) = Some r"
  using decode_checkpoint_in_bounds [of "kCpMagic @ replicate 5000 255"] by (simp add: kCpMagic_def)

text \<open>(C12) Checkpoints round-trip, and fit: for entries with non-empty keys of at most \<open>k\<close> bytes, at
  most \<open>n\<close> of them, where the size computed for \<open>n\<close> entries does not overflow, the image is a whole
  number of blocks no larger than the container, and decoding the container it was padded to gives
  back the sequence number and the entries in order.\<close>

theorem checkpoint_roundtrip:
  assumes "\<forall>e\<in>set es. c_key e \<noteq> [] \<and> length (c_key e) \<le> unat k" "length es \<le> n"
    and "8 + n * (36 + unat k) + 8192 \<le> 2 ^ 64"
  shows "length (encode_checkpoint es s) \<le> unat (checkpoint_container_bytes (of_nat n) k) \<and>
    4096 dvd length (encode_checkpoint es s) \<and>
    decode_checkpoint (encode_checkpoint es s @
      replicate (unat (checkpoint_container_bytes (of_nat n) k) - length (encode_checkpoint es s)) 0) = Some (Inr (s, es))"
proof -
  have b: "length (encode_body es) \<le> 8 + n * (36 + unat k)" using assms by (intro encode_body_bound) auto
  then have s: "length (encode_body es) + 8192 \<le> 2 ^ 64" using assms(3) by linarith
  have ok: "\<forall>e\<in>set es. entry_ok e" using assms(1) unsigned_less [of k] by (auto simp: entry_ok_def intro: le_less_trans)
  have le: "length (encode_checkpoint es s) \<le> unat (checkpoint_container_bytes (of_nat n) k)"
    using b unfolding length_encode_checkpoint [OF s] container_bytes_eq [OF assms(3)] by (intro mult_le_mono1 div_le_mono) simp
  moreover have "unat (checkpoint_container_bytes (of_nat n) k) < 2 ^ 64" using unsigned_less [of "checkpoint_container_bytes (of_nat n) k"] by simp
  ultimately show ?thesis using decode_encoded [OF ok s] by (simp add: length_encode_checkpoint [OF s])
qed

theorem checkpoint_roundtrip_witness:
  "\<exists>pad. decode_checkpoint (encode_checkpoint
      [\<lparr>c_key = [1, 2], c_slot = 7, c_payload_bytes = 4096, c_generation = 3, c_commit_seq = 9\<rparr>] 5 @ pad) =
    Some (Inr (5, [\<lparr>c_key = [1, 2], c_slot = 7, c_payload_bytes = 4096, c_generation = 3, c_commit_seq = 9\<rparr>]))"
  using checkpoint_roundtrip [of "[\<lparr>c_key = [1, 2], c_slot = 7, c_payload_bytes = 4096, c_generation = 3, c_commit_seq = 9\<rparr>]" 256 4 5]
  by auto

text \<open>(C2) Overwriting a checkpoint is crash-atomic: the container chosen for the next write is never
  the one recovery would read, so whatever an interrupted write leaves there, as long as it does
  not decode to a sequence number as high as the newest, recovery still reads the same container with
  the same content; and once the new image with a higher sequence number is complete, recovery
  reads that one.\<close>

theorem checkpoint_crash_atomic:
  fixes containers :: "bytes list"
  defines "seqs \<equiv> map container_sequence containers"
  defines "n \<equiv> next_checkpoint_container seqs"
  assumes "select_checkpoint_container seqs = Some c" "i < length containers" "seqs ! i \<noteq> seqs ! c"
  shows "n \<noteq> c \<and> n < length containers \<and>
    (\<forall>left. container_sequence left < seqs ! c \<longrightarrow>
       select_checkpoint_container (map container_sequence (containers[n := left])) = Some c \<and> containers[n := left] ! c = containers ! c) \<and>
    (\<forall>image. seqs ! c < container_sequence image \<longrightarrow>
       select_checkpoint_container (map container_sequence (containers[n := image])) = Some n \<and> containers[n := image] ! n = image)"
proof -
  have c: "newest seqs (length seqs) c" using assms(3) by (simp add: select_iff)
  have n: "n < length seqs" "n \<noteq> c" unfolding n_def using next_not_newest [OF c, of i] assms(4,5) by (auto simp: seqs_def)
  have u: "map container_sequence (containers[n := x]) = seqs[n := container_sequence x]" for x by (simp add: seqs_def map_update)
  have "newest (seqs[n := container_sequence x]) (length seqs) c" if "container_sequence x < seqs ! c" for x
    using newest_update [OF c n that] .
  moreover have "newest (seqs[n := container_sequence x]) (length seqs) n" if "seqs ! c < container_sequence x" for x
    using newest_new [OF c n(1) that] .
  ultimately show ?thesis using n by (simp add: u select_iff seqs_def)
qed

lemma demo_sequence: "container_sequence (encode_checkpoint [] 3) = 3" "container_sequence [] = 0"
  using decode_encoded [of "[]" 3 "[]"] length_encode_checkpoint [of "[]" 3]
  by (simp_all add: container_sequence_def encode_body_def decode_checkpoint_def kContainerHeaderBytes_def)

theorem checkpoint_crash_atomic_witness:
  "select_checkpoint_container (map container_sequence ([encode_checkpoint [] 3, []][1 := [7, 7]])) = Some 0"
proof -
  have l: "container_sequence [7, 7] = 0" by (simp add: container_sequence_def decode_checkpoint_def kContainerHeaderBytes_def)
  have s: "select_checkpoint_container [3, 0] = Some 0" "next_checkpoint_container [3, 0] = 1"
    by (simp_all add: select_checkpoint_container_def next_checkpoint_container_def upt_rec)
  show ?thesis using checkpoint_crash_atomic [of "[encode_checkpoint [] 3, []]" 0 1] l s by (simp add: demo_sequence)
qed

end
