(* ===== verification/Store_Alloc.thy ===== *)
theory Store_Alloc
  imports Snvm_Prelude
begin

text \<open>
  The slot allocator (\<open>storage_objects/space_allocator.cpp\<close>). Slot numbers stay below
  \<open>total_slots_\<close>, a 64-bit value, so they are natural numbers; generations are 64-bit and wrap. Every
  operation keeps the partition of the slots into free, reserved, committed and reclaiming ones in
  step with the queues, reservations are maximal and never overlap, and a recycled slot carries another
  generation. The locale \<open>slot_space\<close> is the contract a client of the allocator relies on.
\<close>

section \<open>State\<close>

datatype SlotState = kFree | kReserved | kCommitted | kReclaiming

record SpaceAllocator =
  a_total :: nat
  a_slot_bytes :: nat
  a_high_water :: nat
  a_ready_limit :: nat
  a_states :: "SlotState list"
  a_generations :: "u64 list"
  a_free_list :: "nat list"
  a_reclaim_queue :: "nat list"
  a_in_flight :: "nat set"

record SpaceAllocatorConfig =
  ac_capacity_bytes :: nat
  ac_slot_bytes :: nat

record SpaceAllocatorStats =
  st_total :: nat
  st_free :: nat
  st_reserved :: nat
  st_committed :: nat
  st_reclaiming :: nat
  st_unmaterialised :: nat

record SlotReservation =
  r_slots :: "nat list"
  r_generations :: "u64 list"
  r_rejected :: nat

definition alloc_init :: SpaceAllocator where
  "alloc_init = \<lparr>a_total = 0, a_slot_bytes = 0, a_high_water = 0, a_ready_limit = 2 ^ 64 - 1, a_states = [],
     a_generations = [], a_free_list = [], a_reclaim_queue = [], a_in_flight = {}\<rparr>"

section \<open>Operations\<close>

definition alloc_configure :: "SpaceAllocatorConfig \<Rightarrow> SpaceAllocator \<Rightarrow> bool \<times> SpaceAllocator" where
  "alloc_configure c a =
     (if ac_slot_bytes c = 0 then (False, a)
      else let derived = ac_capacity_bytes c div ac_slot_bytes c
        in if derived = 0 then (False, a)
           else (True, a\<lparr>a_total := derived, a_slot_bytes := ac_slot_bytes c, a_high_water := 0,
             a_states := replicate derived kFree, a_generations := replicate derived 0,
             a_free_list := [], a_reclaim_queue := [], a_in_flight := {}\<rparr>))"

definition set_ready_limit :: "nat \<Rightarrow> SpaceAllocator \<Rightarrow> SpaceAllocator" where
  "set_ready_limit limit a = a\<lparr>a_ready_limit := limit\<rparr>"

definition take_free_slot_locked :: "SpaceAllocator \<Rightarrow> nat \<times> SpaceAllocator" where
  "take_free_slot_locked a =
     (case a_free_list a of
        slot # rest \<Rightarrow> (slot, a\<lparr>a_free_list := rest\<rparr>)
      | [] \<Rightarrow>
          if a_high_water a < min (a_total a) (a_ready_limit a) then (a_high_water a, a\<lparr>a_high_water := Suc (a_high_water a)\<rparr>)
          else (a_total a, a))"

fun reserve_loop :: "nat \<Rightarrow> SpaceAllocator \<Rightarrow> SlotReservation \<Rightarrow> SpaceAllocator \<times> SlotReservation" where
  "reserve_loop 0 a out = (a, out)"
| "reserve_loop (Suc n) a out =
     (let (slot, a) = take_free_slot_locked a
      in if slot \<ge> a_total a then (a, out\<lparr>r_rejected := Suc n\<rparr>)
         else reserve_loop n (a\<lparr>a_states := (a_states a)[slot := kReserved]\<rparr>)
           (out\<lparr>r_slots := r_slots out @ [slot], r_generations := r_generations out @ [a_generations a ! slot]\<rparr>))"

definition alloc_reserve :: "nat \<Rightarrow> SpaceAllocator \<Rightarrow> SpaceAllocator \<times> SlotReservation" where
  "alloc_reserve count a = reserve_loop count a \<lparr>r_slots = [], r_generations = [], r_rejected = 0\<rparr>"

definition alloc_commit :: "nat list \<Rightarrow> SpaceAllocator \<Rightarrow> SpaceAllocator" where
  "alloc_commit slots a = fold (\<lambda>slot a.
     if slot \<ge> a_total a then a
     else if a_states a ! slot = kReserved then a\<lparr>a_states := (a_states a)[slot := kCommitted]\<rparr> else a) slots a"

definition alloc_abort :: "nat list \<Rightarrow> SpaceAllocator \<Rightarrow> SpaceAllocator" where
  "alloc_abort slots a = fold (\<lambda>slot a.
     if slot \<ge> a_total a then a
     else if a_states a ! slot \<noteq> kReserved then a
     else a\<lparr>a_states := (a_states a)[slot := kReclaiming], a_reclaim_queue := a_reclaim_queue a @ [slot]\<rparr>) slots a"

definition release_slot :: "nat \<Rightarrow> SpaceAllocator \<times> nat \<Rightarrow> SpaceAllocator \<times> nat" where
  "release_slot slot r = (let (a, released) = r
     in if slot \<ge> a_total a then (a, released)
     else if a_states a ! slot \<noteq> kCommitted then (a, released)
     else (a\<lparr>a_states := (a_states a)[slot := kReclaiming], a_reclaim_queue := a_reclaim_queue a @ [slot]\<rparr>, Suc released))"

definition alloc_release :: "nat list \<Rightarrow> SpaceAllocator \<Rightarrow> SpaceAllocator \<times> nat" where
  "alloc_release slots a = fold release_slot slots (a, 0)"

fun take_loop :: "nat \<Rightarrow> SpaceAllocator \<Rightarrow> nat list \<Rightarrow> SpaceAllocator \<times> nat list" where
  "take_loop 0 a out = (a, out)"
| "take_loop (Suc n) a out =
     (case a_reclaim_queue a of [] \<Rightarrow> (a, out)
      | slot # rest \<Rightarrow> take_loop n (a\<lparr>a_reclaim_queue := rest, a_in_flight := insert slot (a_in_flight a)\<rparr>) (out @ [slot]))"

definition take_reclaimable :: "nat \<Rightarrow> SpaceAllocator \<Rightarrow> SpaceAllocator \<times> nat list" where
  "take_reclaimable limit a = take_loop limit a []"

definition finish_reclaim :: "nat list \<Rightarrow> SpaceAllocator \<Rightarrow> SpaceAllocator" where
  "finish_reclaim slots a = fold (\<lambda>slot a.
     if slot \<ge> a_total a then a
     else if slot \<notin> a_in_flight a then a
     else a\<lparr>a_in_flight := a_in_flight a - {slot},
       a_generations := (a_generations a)[slot := a_generations a ! slot + 1],
       a_states := (a_states a)[slot := kFree],
       a_free_list := a_free_list a @ [slot]\<rparr>) slots a"

definition requeue_reclaim :: "nat list \<Rightarrow> SpaceAllocator \<Rightarrow> SpaceAllocator" where
  "requeue_reclaim slots a = fold (\<lambda>slot a.
     if slot \<ge> a_total a then a
     else if slot \<notin> a_in_flight a then a
     else a\<lparr>a_in_flight := a_in_flight a - {slot}, a_reclaim_queue := a_reclaim_queue a @ [slot]\<rparr>) slots a"

definition state_of :: "SpaceAllocator \<Rightarrow> nat \<Rightarrow> SlotState" where
  "state_of a slot = (if slot \<ge> a_total a then kFree else a_states a ! slot)"

definition generation_of :: "SpaceAllocator \<Rightarrow> nat \<Rightarrow> u64" where
  "generation_of a slot = (if slot \<ge> a_total a then 0 else a_generations a ! slot)"

fun count_state :: "SlotState \<Rightarrow> SpaceAllocatorStats \<Rightarrow> SpaceAllocatorStats" where
  "count_state kFree s = s\<lparr>st_free := Suc (st_free s)\<rparr>"
| "count_state kReserved s = s\<lparr>st_reserved := Suc (st_reserved s)\<rparr>"
| "count_state kCommitted s = s\<lparr>st_committed := Suc (st_committed s)\<rparr>"
| "count_state kReclaiming s = s\<lparr>st_reclaiming := Suc (st_reclaiming s)\<rparr>"

definition alloc_stats :: "SpaceAllocator \<Rightarrow> SpaceAllocatorStats" where
  "alloc_stats a = fold (\<lambda>slot. count_state (a_states a ! slot)) [0..<a_high_water a]
     \<lparr>st_total = a_total a, st_free = 0, st_reserved = 0, st_committed = 0, st_reclaiming = 0,
      st_unmaterialised = a_total a - a_high_water a\<rparr>"

section \<open>Runs and the invariant\<close>

datatype alloc_op = Reserve nat | Commit "nat list" | Abort "nat list" | Release "nat list"
  | Take nat | Finish "nat list" | Requeue "nat list" | Limit nat

fun alloc_step :: "alloc_op \<Rightarrow> SpaceAllocator \<Rightarrow> SpaceAllocator" where
  "alloc_step (Reserve n) a = fst (alloc_reserve n a)"
| "alloc_step (Commit ss) a = alloc_commit ss a"
| "alloc_step (Abort ss) a = alloc_abort ss a"
| "alloc_step (Release ss) a = fst (alloc_release ss a)"
| "alloc_step (Take n) a = fst (take_reclaimable n a)"
| "alloc_step (Finish ss) a = finish_reclaim ss a"
| "alloc_step (Requeue ss) a = requeue_reclaim ss a"
| "alloc_step (Limit n) a = set_ready_limit n a"

definition alloc_run :: "alloc_op list \<Rightarrow> SpaceAllocator \<Rightarrow> SpaceAllocator" where
  "alloc_run ops a = fold alloc_step ops a"

definition alloc_ok :: "SpaceAllocator \<Rightarrow> bool" where
  "alloc_ok a \<longleftrightarrow> length (a_states a) = a_total a \<and> length (a_generations a) = a_total a \<and> a_high_water a \<le> a_total a \<and>
     distinct (a_free_list a) \<and> distinct (a_reclaim_queue a) \<and> set (a_reclaim_queue a) \<inter> a_in_flight a = {} \<and>
     set (a_free_list a) = {s. s < a_high_water a \<and> a_states a ! s = kFree} \<and>
     set (a_reclaim_queue a) \<union> a_in_flight a = {s. s < a_total a \<and> a_states a ! s = kReclaiming} \<and>
     (\<forall>s. a_high_water a \<le> s \<and> s < a_total a \<longrightarrow> a_states a ! s = kFree)"

text \<open>How many slots a reservation can get.\<close>

definition available :: "SpaceAllocator \<Rightarrow> nat" where
  "available a = length (a_free_list a) + (min (a_total a) (a_ready_limit a) - a_high_water a)"

lemma alloc_okD:
  assumes "alloc_ok a"
  shows "length (a_states a) = a_total a" "length (a_generations a) = a_total a" "a_high_water a \<le> a_total a"
    "distinct (a_free_list a)" "distinct (a_reclaim_queue a)" "set (a_reclaim_queue a) \<inter> a_in_flight a = {}"
    "set (a_free_list a) = {s. s < a_high_water a \<and> a_states a ! s = kFree}"
    "set (a_reclaim_queue a) \<union> a_in_flight a = {s. s < a_total a \<and> a_states a ! s = kReclaiming}"
    "a_high_water a \<le> s \<Longrightarrow> s < a_total a \<Longrightarrow> a_states a ! s = kFree"
  using assms by (simp_all add: alloc_ok_def)

lemma alloc_ok_busy: "alloc_ok a \<Longrightarrow> s < a_total a \<Longrightarrow> a_states a ! s \<noteq> kFree \<Longrightarrow> s < a_high_water a"
  by (metis alloc_okD(9) not_le)

lemma configure_ok: "alloc_configure c a = (True, a') \<Longrightarrow> alloc_ok a'"
  by (auto simp: alloc_configure_def alloc_ok_def Let_def split: if_splits)

text \<open>Moving one busy slot to another busy state, or into the reclaim queue.\<close>

lemma alloc_ok_move:
  assumes "alloc_ok a" "s < a_total a" "a_states a ! s \<noteq> kFree" "a_states a ! s \<noteq> kReclaiming"
  shows "st \<noteq> kFree \<Longrightarrow> st \<noteq> kReclaiming \<Longrightarrow> alloc_ok (a\<lparr>a_states := (a_states a)[s := st]\<rparr>)"
    and "alloc_ok (a\<lparr>a_states := (a_states a)[s := kReclaiming], a_reclaim_queue := a_reclaim_queue a @ [s]\<rparr>)"
proof -
  have "s < a_high_water a" using alloc_ok_busy assms by blast
  moreover have "s \<notin> set (a_reclaim_queue a) \<union> a_in_flight a" using alloc_okD(8) [OF assms(1)] assms(4) by simp
  ultimately show "st \<noteq> kFree \<Longrightarrow> st \<noteq> kReclaiming \<Longrightarrow> alloc_ok (a\<lparr>a_states := (a_states a)[s := st]\<rparr>)"
    "alloc_ok (a\<lparr>a_states := (a_states a)[s := kReclaiming], a_reclaim_queue := a_reclaim_queue a @ [s]\<rparr>)"
    using assms unfolding alloc_ok_def by (auto simp: nth_list_update)
qed

lemma fold_inv: "(\<And>x a. P a \<Longrightarrow> P (f x a)) \<Longrightarrow> P a \<Longrightarrow> P (fold f xs a)"
  by (induction xs arbitrary: a) simp_all

lemma commit_keeps: "alloc_ok a \<Longrightarrow> alloc_ok (alloc_commit ss a)"
  unfolding alloc_commit_def by (rule fold_inv) (auto intro: alloc_ok_move(1))

lemma abort_keeps: "alloc_ok a \<Longrightarrow> alloc_ok (alloc_abort ss a)"
  unfolding alloc_abort_def by (rule fold_inv) (auto intro: alloc_ok_move(2))

lemma release_keeps: "alloc_ok a \<Longrightarrow> alloc_ok (fst (alloc_release ss a))"
proof -
  assume "alloc_ok a"
  then have "alloc_ok (fst (a, 0 :: nat))" by simp
  then show ?thesis unfolding alloc_release_def
    by (rule fold_inv [where P = "\<lambda>r. alloc_ok (fst r)", rotated]) (auto simp: alloc_ok_move(2) release_slot_def Let_def split: prod.splits)
qed

lemma alloc_ok_requeue:
  assumes "alloc_ok a" "s \<in> a_in_flight a"
  shows "alloc_ok (a\<lparr>a_in_flight := a_in_flight a - {s}, a_reclaim_queue := a_reclaim_queue a @ [s]\<rparr>)"
  using assms unfolding alloc_ok_def by auto

lemma requeue_keeps: "alloc_ok a \<Longrightarrow> alloc_ok (requeue_reclaim ss a)"
  unfolding requeue_reclaim_def by (rule fold_inv) (auto intro: alloc_ok_requeue)

lemma in_flight_state: "alloc_ok a \<Longrightarrow> s \<in> a_in_flight a \<Longrightarrow> s < a_total a \<and> a_states a ! s = kReclaiming"
  using alloc_okD(8) [of a] by blast

lemma alloc_ok_finish:
  assumes "alloc_ok a" "s \<in> a_in_flight a"
  shows "alloc_ok (a\<lparr>a_in_flight := a_in_flight a - {s}, a_generations := (a_generations a)[s := g],
    a_states := (a_states a)[s := kFree], a_free_list := a_free_list a @ [s]\<rparr>)"
proof -
  have s: "s < a_total a" "a_states a ! s = kReclaiming" using in_flight_state assms by auto
  then have "s < a_high_water a" using alloc_ok_busy [OF assms(1)] by simp
  moreover have "s \<notin> set (a_free_list a)" "s \<notin> set (a_reclaim_queue a)"
    using s alloc_okD(6,7) [OF assms(1)] assms(2) by auto
  ultimately show ?thesis using s assms unfolding alloc_ok_def by (auto simp: nth_list_update)
qed

lemma finish_keeps: "alloc_ok a \<Longrightarrow> alloc_ok (finish_reclaim ss a)"
  unfolding finish_reclaim_def by (rule fold_inv) (auto intro: alloc_ok_finish)

lemma take_loop_keeps:
  "alloc_ok a \<Longrightarrow> alloc_ok (fst (take_loop n a out)) \<and> a_states (fst (take_loop n a out)) = a_states a \<and>
    a_total (fst (take_loop n a out)) = a_total a \<and> a_generations (fst (take_loop n a out)) = a_generations a"
proof (induction n arbitrary: a out)
  case (Suc n)
  show ?case
  proof (cases "a_reclaim_queue a")
    case (Cons q rest)
    have "alloc_ok (a\<lparr>a_reclaim_queue := rest, a_in_flight := insert q (a_in_flight a)\<rparr>)"
      using Suc.prems Cons unfolding alloc_ok_def by auto
    then show ?thesis using Suc.IH Cons by simp
  qed (use Suc.prems in simp)
qed simp

subsection \<open>Reservations\<close>

lemma take_free_some:
  assumes "alloc_ok a" "0 < available a" "take_free_slot_locked a = (s, a')"
  shows "s < a_total a" "a_states a ! s = kFree" "a_total a' = a_total a" "a_states a' = a_states a" "a_generations a' = a_generations a"
    "available a' = available a - 1" "alloc_ok (a'\<lparr>a_states := (a_states a)[s := kReserved]\<rparr>)"
proof -
  note o = alloc_okD [OF assms(1)]
  consider (recycled) rest where "a_free_list a = s # rest" "a' = a\<lparr>a_free_list := rest\<rparr>"
    | (fresh) "a_free_list a = []" "s = a_high_water a" "a_high_water a < min (a_total a) (a_ready_limit a)" "a' = a\<lparr>a_high_water := Suc s\<rparr>"
    using assms(2,3) by (auto simp: take_free_slot_locked_def available_def split: list.splits if_splits)
  then have "s < a_total a \<and> a_states a ! s = kFree \<and> a_total a' = a_total a \<and> a_states a' = a_states a \<and> a_generations a' = a_generations a \<and>
    available a' = available a - 1 \<and> alloc_ok (a'\<lparr>a_states := (a_states a)[s := kReserved]\<rparr>)"
  proof cases
    case recycled
    then have s: "s < a_high_water a" "a_states a ! s = kFree" "s \<notin> set rest" using o(4,7) by auto
    moreover have "alloc_ok (a'\<lparr>a_states := (a_states a)[s := kReserved]\<rparr>)"
      using assms(1) recycled s unfolding alloc_ok_def by (auto simp: nth_list_update)
    ultimately show ?thesis using recycled o(3) by (auto simp: available_def)
  next
    case fresh
    then have s: "s < a_total a" "a_states a ! s = kFree" using o(9) [of s] by auto
    moreover have "alloc_ok (a'\<lparr>a_states := (a_states a)[s := kReserved]\<rparr>)"
      using assms(1) fresh s unfolding alloc_ok_def by (auto simp: nth_list_update less_Suc_eq)
    ultimately show ?thesis using fresh by (auto simp: available_def)
  qed
  then show "s < a_total a" "a_states a ! s = kFree" "a_total a' = a_total a" "a_states a' = a_states a" "a_generations a' = a_generations a"
    "available a' = available a - 1" "alloc_ok (a'\<lparr>a_states := (a_states a)[s := kReserved]\<rparr>)" by auto
qed

lemma take_free_none: "available a = 0 \<Longrightarrow> take_free_slot_locked a = (a_total a, a)"
  by (auto simp: take_free_slot_locked_def available_def)

definition reserved_by :: "SpaceAllocator \<Rightarrow> SpaceAllocator \<Rightarrow> nat list \<Rightarrow> bool" where
  "reserved_by a a' ss \<longleftrightarrow> alloc_ok a' \<and> a_total a' = a_total a \<and> a_generations a' = a_generations a \<and> distinct ss \<and>
     (\<forall>s\<in>set ss. s < a_total a \<and> a_states a ! s = kFree) \<and>
     (\<forall>s<a_total a. a_states a' ! s = (if s \<in> set ss then kReserved else a_states a ! s))"

lemma reserve_loop_spec:
  assumes "alloc_ok a"
  shows "\<exists>a' ss. reserve_loop n a out = (a', out\<lparr>r_slots := r_slots out @ ss, r_generations := r_generations out @ map (\<lambda>s. a_generations a ! s) ss,
      r_rejected := (if available a < n then n - available a else r_rejected out)\<rparr>) \<and> length ss = min n (available a) \<and> reserved_by a a' ss"
  using assms
proof (induction n arbitrary: a out)
  case 0
  then show ?case by (intro exI [of _ a] exI [of _ "[]"]) (simp add: reserved_by_def)
next
  case (Suc n)
  obtain s b where t: "take_free_slot_locked a = (s, b)" by (metis surj_pair)
  show ?case
  proof (cases "0 < available a")
    case False
    then show ?thesis using Suc.prems by (intro exI [of _ a] exI [of _ "[]"]) (simp add: take_free_none reserved_by_def)
  next
    case True
    note f = take_free_some [OF Suc.prems True t]
    define c where "c = b\<lparr>a_states := (a_states b)[s := kReserved]\<rparr>"
    define o2 where "o2 = out\<lparr>r_slots := r_slots out @ [s], r_generations := r_generations out @ [a_generations b ! s]\<rparr>"
    have c: "alloc_ok c" "available c = available a - 1" "a_total c = a_total a" "a_generations c = a_generations a" "a_states c = (a_states a)[s := kReserved]"
      using f by (simp_all add: c_def available_def)
    obtain a' ss where r: "reserve_loop n c o2 = (a', o2\<lparr>r_slots := r_slots o2 @ ss, r_generations := r_generations o2 @ map (\<lambda>s. a_generations c ! s) ss,
        r_rejected := (if available c < n then n - available c else r_rejected o2)\<rparr>)" "length ss = min n (available c)" "reserved_by c a' ss"
      using Suc.IH [OF c(1), of o2] by blast
    have "s \<notin> set ss" using r(3) c f(1) alloc_okD(1) [OF Suc.prems] by (auto simp: reserved_by_def)
    then have "reserved_by a a' (s # ss)" using r(3) c f alloc_okD(1) [OF Suc.prems] by (auto simp: reserved_by_def nth_list_update split: if_splits)
    moreover have "reserve_loop (Suc n) a out = reserve_loop n c o2" using t f by (simp add: c_def o2_def)
    moreover have "available c < n \<longleftrightarrow> available a < Suc n" "n - available c = Suc n - available a" "length (s # ss) = min (Suc n) (available a)"
      using c(2) True r(2) by auto
    ultimately show ?thesis using r(1) c(4) f(5)
      by (intro exI [of _ a'] exI [of _ "s # ss"]) (simp add: o2_def)
  qed
qed

lemma reserve_spec:
  assumes "alloc_ok a"
  shows "\<exists>a' ss. alloc_reserve n a = (a', \<lparr>r_slots = ss, r_generations = map (\<lambda>s. a_generations a ! s) ss, r_rejected = n - length ss\<rparr>) \<and>
    length ss = min n (available a) \<and> reserved_by a a' ss"
proof -
  obtain a' ss where r: "alloc_reserve n a = (a', \<lparr>r_slots = ss, r_generations = map (\<lambda>s. a_generations a ! s) ss,
      r_rejected = (if available a < n then n - available a else 0)\<rparr>)" "length ss = min n (available a)" "reserved_by a a' ss"
    using reserve_loop_spec [OF assms, of n "\<lparr>r_slots = [], r_generations = [], r_rejected = 0\<rparr>"] unfolding alloc_reserve_def by auto
  have e: "(if available a < n then n - available a else 0) = n - length ss" using r(2) by auto
  show ?thesis using r(1) [unfolded e] r(2,3) by blast
qed

lemma reserve_keeps: "alloc_ok a \<Longrightarrow> alloc_ok (fst (alloc_reserve n a))"
  using reserve_spec [of a n] by (auto simp: reserved_by_def)

lemma limit_keeps: "alloc_ok a \<Longrightarrow> alloc_ok (set_ready_limit n a)"
  by (simp add: set_ready_limit_def alloc_ok_def)

lemma step_keeps: "alloc_ok a \<Longrightarrow> alloc_ok (alloc_step op a)"
  by (cases op) (simp_all add: reserve_keeps commit_keeps abort_keeps release_keeps finish_keeps requeue_keeps
      take_reclaimable_def limit_keeps take_loop_keeps)

lemma run_keeps: "alloc_ok a \<Longrightarrow> alloc_ok (alloc_run ops a)"
  unfolding alloc_run_def by (rule fold_inv) (simp_all add: step_keeps)

subsection \<open>What an operation does to one slot\<close>

lemma commit_state:
  assumes "length (a_states a) = a_total a"
  shows "a_total (alloc_commit ss a) = a_total a \<and> a_generations (alloc_commit ss a) = a_generations a \<and>
    (\<forall>s. state_of (alloc_commit ss a) s = (if s \<in> set ss \<and> state_of a s = kReserved then kCommitted else state_of a s))"
  using assms
proof (induction ss arbitrary: a)
  case (Cons x ss)
  define b where "b = (if x \<ge> a_total a then a else if a_states a ! x = kReserved then a\<lparr>a_states := (a_states a)[x := kCommitted]\<rparr> else a)"
  have "alloc_commit (x # ss) a = alloc_commit ss b" by (simp add: alloc_commit_def b_def)
  moreover have "length (a_states b) = a_total b" "a_total b = a_total a" "a_generations b = a_generations a" using Cons.prems by (simp_all add: b_def)
  moreover have "state_of b s = (if s = x \<and> state_of a s = kReserved then kCommitted else state_of a s)" for s
    using Cons.prems by (auto simp: b_def state_of_def nth_list_update)
  ultimately show ?case using Cons.IH [of b] by auto
qed (simp add: alloc_commit_def)

lemma abort_state:
  assumes "length (a_states a) = a_total a"
  shows "a_total (alloc_abort ss a) = a_total a \<and> a_generations (alloc_abort ss a) = a_generations a \<and>
    (\<forall>s. state_of (alloc_abort ss a) s = (if s \<in> set ss \<and> state_of a s = kReserved then kReclaiming else state_of a s))"
  using assms
proof (induction ss arbitrary: a)
  case (Cons x ss)
  define b where "b = (if x \<ge> a_total a then a else if a_states a ! x \<noteq> kReserved then a
     else a\<lparr>a_states := (a_states a)[x := kReclaiming], a_reclaim_queue := a_reclaim_queue a @ [x]\<rparr>)"
  have "alloc_abort (x # ss) a = alloc_abort ss b" by (simp add: alloc_abort_def b_def)
  moreover have "length (a_states b) = a_total b" "a_total b = a_total a" "a_generations b = a_generations a" using Cons.prems by (simp_all add: b_def)
  moreover have "state_of b s = (if s = x \<and> state_of a s = kReserved then kReclaiming else state_of a s)" for s
    using Cons.prems by (auto simp: b_def state_of_def nth_list_update)
  ultimately show ?case using Cons.IH [of b] by auto
qed (simp add: alloc_abort_def)

lemma release_state:
  assumes "length (a_states a) = a_total a"
  shows "a_total (fst (fold release_slot ss (a, n))) = a_total a \<and> a_generations (fst (fold release_slot ss (a, n))) = a_generations a \<and>
    (\<forall>s. state_of (fst (fold release_slot ss (a, n))) s = (if s \<in> set ss \<and> state_of a s = kCommitted then kReclaiming else state_of a s))"
  using assms
proof (induction ss arbitrary: a n)
  case (Cons x ss)
  obtain b m where b: "release_slot x (a, n) = (b, m)" by (metis surj_pair)
  then have l: "length (a_states b) = a_total b" "a_total b = a_total a" "a_generations b = a_generations a"
    using Cons.prems by (auto simp: release_slot_def split: if_splits)
  have "state_of b s = (if s = x \<and> state_of a s = kCommitted then kReclaiming else state_of a s)" for s
    using Cons.prems b by (auto simp: release_slot_def state_of_def nth_list_update split: if_splits)
  then show ?case using Cons.IH [OF l(1), of m] b l by auto
qed simp

lemma alloc_release_state:
  assumes "length (a_states a) = a_total a"
  shows "a_total (fst (alloc_release ss a)) = a_total a" "a_generations (fst (alloc_release ss a)) = a_generations a"
    "state_of (fst (alloc_release ss a)) s = (if s \<in> set ss \<and> state_of a s = kCommitted then kReclaiming else state_of a s)"
  using release_state [OF assms, of ss 0] by (auto simp: alloc_release_def)

fun finishes :: "alloc_op \<Rightarrow> nat" where
  "finishes (Finish ss) = length ss"
| "finishes _ = 0"

text \<open>How often the slot was recycled: the generation counts it, modulo the width.\<close>

definition recycled :: "SpaceAllocator \<Rightarrow> SpaceAllocator \<Rightarrow> nat \<Rightarrow> nat \<Rightarrow> bool" where
  "recycled a a' s n \<longleftrightarrow> a_total a' = a_total a \<and>
     (\<exists>k\<le>n. generation_of a' s = generation_of a s + of_nat k \<and> (state_of a s \<noteq> kFree \<and> state_of a' s = kFree \<longrightarrow> 0 < k))"

lemma recycled_same: "a_total a' = a_total a \<Longrightarrow> a_generations a' = a_generations a \<Longrightarrow>
  (state_of a s \<noteq> kFree \<Longrightarrow> state_of a' s \<noteq> kFree) \<Longrightarrow> recycled a a' s n"
  unfolding recycled_def by (auto simp: generation_of_def intro!: exI [of _ 0])

lemma recycled_trans:
  assumes "recycled a b s m" "recycled b c s n"
  shows "recycled a c s (m + n)"
proof -
  obtain k where k: "k \<le> m" "generation_of b s = generation_of a s + of_nat k" "state_of a s \<noteq> kFree \<and> state_of b s = kFree \<longrightarrow> 0 < k"
    using assms(1) by (auto simp: recycled_def)
  obtain l where l: "l \<le> n" "generation_of c s = generation_of b s + of_nat l" "state_of b s \<noteq> kFree \<and> state_of c s = kFree \<longrightarrow> 0 < l"
    using assms(2) by (auto simp: recycled_def)
  then have "generation_of c s = generation_of a s + of_nat (k + l)" using k by (simp add: add.assoc)
  moreover have "k + l \<le> m + n" "state_of a s \<noteq> kFree \<and> state_of c s = kFree \<longrightarrow> 0 < k + l" using k l by auto
  ultimately show ?thesis using assms by (auto simp: recycled_def intro!: exI [of _ "k + l"])
qed

lemma finish_recycled:
  "alloc_ok a \<Longrightarrow> recycled a (finish_reclaim ss a) s (length ss)"
proof (induction ss arbitrary: a)
  case Nil
  then show ?case by (intro recycled_same) (simp_all add: finish_reclaim_def)
next
  case (Cons x ss)
  define b where "b = finish_reclaim [x] a"
  have ok: "alloc_ok b" using Cons.prems finish_keeps by (simp add: b_def)
  have "recycled a b s 1"
  proof (cases "x < a_total a \<and> x \<in> a_in_flight a \<and> x = s")
    case True
    then have "s < length (a_states a)" "s < length (a_generations a)" using alloc_okD(1,2) [OF Cons.prems] by simp_all
    then show ?thesis using True by (auto simp: b_def finish_reclaim_def recycled_def generation_of_def state_of_def intro!: exI [of _ 1])
  next
    case False
    then have "a_total b = a_total a \<and> generation_of b s = generation_of a s \<and> state_of b s = state_of a s"
      by (auto simp: b_def finish_reclaim_def generation_of_def state_of_def nth_list_update)
    then show ?thesis by (auto simp: recycled_def intro!: exI [of _ 0])
  qed
  moreover have "finish_reclaim (x # ss) a = finish_reclaim ss b" by (simp add: b_def finish_reclaim_def)
  ultimately show ?case using recycled_trans [of a b s 1] Cons.IH [OF ok] by simp
qed

lemma requeue_same: "a_total (requeue_reclaim ss a) = a_total a \<and> a_generations (requeue_reclaim ss a) = a_generations a \<and>
    a_states (requeue_reclaim ss a) = a_states a"
  unfolding requeue_reclaim_def by (rule fold_inv [where P = "\<lambda>b. a_total b = a_total a \<and> a_generations b = a_generations a \<and> a_states b = a_states a"]) auto

lemma step_recycled:
  assumes "alloc_ok a"
  shows "recycled a (alloc_step op a) s (finishes op)"
proof (cases op)
  case (Reserve n)
  obtain a' ss where "alloc_step op a = a'" "reserved_by a a' ss" using reserve_spec [OF assms, of n] Reserve by auto
  then show ?thesis by (intro recycled_same) (auto simp: reserved_by_def state_of_def)
next
  case (Commit ss)
  then show ?thesis using commit_state [OF alloc_okD(1) [OF assms], of ss] by (intro recycled_same) auto
next
  case (Abort ss)
  then show ?thesis using abort_state [OF alloc_okD(1) [OF assms], of ss] by (intro recycled_same) auto
next
  case (Release ss)
  then show ?thesis using alloc_release_state [OF alloc_okD(1) [OF assms], of ss] by (intro recycled_same) auto
next
  case (Take n)
  then show ?thesis using take_loop_keeps [OF assms, of n "[]"] by (intro recycled_same) (auto simp: take_reclaimable_def state_of_def)
next
  case (Finish ss)
  then show ?thesis using finish_recycled [OF assms] by simp
next
  case (Requeue ss)
  then show ?thesis using requeue_same [of ss a] by (intro recycled_same) (auto simp: state_of_def)
next
  case (Limit n)
  then show ?thesis by (intro recycled_same) (auto simp: set_ready_limit_def state_of_def)
qed

lemma run_recycled:
  "alloc_ok a \<Longrightarrow> recycled a (alloc_run ops a) s (sum_list (map finishes ops))"
proof (induction ops arbitrary: a)
  case Nil
  then show ?case by (intro recycled_same) (simp_all add: alloc_run_def)
next
  case (Cons op ops)
  then show ?case using recycled_trans [OF step_recycled [OF Cons.prems, where op = op] Cons.IH [OF step_keeps [OF Cons.prems]]]
    by (simp add: alloc_run_def)
qed

lemma stats_fold:
  fixes s :: SpaceAllocatorStats and g :: "nat \<Rightarrow> SlotState"
  shows "st_free (fold (\<lambda>n. count_state (g n)) ns s) + st_reserved (fold (\<lambda>n. count_state (g n)) ns s) +
      st_committed (fold (\<lambda>n. count_state (g n)) ns s) + st_reclaiming (fold (\<lambda>n. count_state (g n)) ns s) =
      length ns + (st_free s + st_reserved s + st_committed s + st_reclaiming s) \<and>
    st_unmaterialised (fold (\<lambda>n. count_state (g n)) ns s) = st_unmaterialised s"
proof (induction ns arbitrary: s)
  case (Cons n ns)
  then show ?case using Cons [of "count_state (g n) s"] by (cases "g n") simp_all
qed simp

lemma stats_sum:
  "alloc_ok a \<Longrightarrow> st_free (alloc_stats a) + st_reserved (alloc_stats a) + st_committed (alloc_stats a) + st_reclaiming (alloc_stats a) +
    st_unmaterialised (alloc_stats a) = a_total a"
  using stats_fold [of "\<lambda>slot. a_states a ! slot" "[0..<a_high_water a]" "\<lparr>st_total = a_total a, st_free = 0, st_reserved = 0, st_committed = 0,
      st_reclaiming = 0, st_unmaterialised = a_total a - a_high_water a\<rparr>"] alloc_okD(3) [of a]
  by (simp add: alloc_stats_def)

section \<open>The contract of the allocator\<close>

text \<open>A client that records for each of its keys a slot and whether the key is committed. A slot
  belongs to at most one key, and is never free or being reclaimed while it has an owner.\<close>

definition holds :: "(nat \<Rightarrow> SlotState) \<Rightarrow> ('k \<Rightarrow> (nat \<times> bool) option) \<Rightarrow> bool" where
  "holds st own \<longleftrightarrow>
     (\<forall>k s c. own k = Some (s, c) \<longrightarrow> st s = kReserved \<or> c \<and> st s = kCommitted) \<and>
     (\<forall>k k' s c c'. own k = Some (s, c) \<and> own k' = Some (s, c') \<longrightarrow> k = k')"

lemma holdsD: "holds st own \<Longrightarrow> own k = Some (s, c) \<Longrightarrow> st s = kReserved \<or> c \<and> st s = kCommitted"
  "holds st own \<Longrightarrow> own k = Some (s, c) \<Longrightarrow> own k' = Some (s, c') \<Longrightarrow> k = k'"
  unfolding holds_def by blast+

lemma holds_live:
  assumes "holds st own" "\<And>k s c. own k = Some (s, c) \<Longrightarrow> st s = kReserved \<or> st s = kCommitted \<Longrightarrow> st' s = st s"
  shows "holds st' own"
  unfolding holds_def using assms(2) holdsD [OF assms(1)] by (metis (full_types))

lemma holds_mark: "holds st own \<Longrightarrow> own k = Some (s, c) \<Longrightarrow> holds st (own(k \<mapsto> (s, True)))"
  unfolding holds_def by (auto split: if_splits)

lemma holds_drop: "holds st own \<Longrightarrow> holds st (own(k := None))"
  unfolding holds_def by (auto split: if_splits)

locale slot_space =
  fixes ok :: "'a \<Rightarrow> bool" and st :: "'a \<Rightarrow> nat \<Rightarrow> SlotState"
    and grab :: "'a \<Rightarrow> 'a \<times> SlotReservation"
    and commit :: "nat list \<Rightarrow> 'a \<Rightarrow> 'a" and abort :: "nat list \<Rightarrow> 'a \<Rightarrow> 'a" and release :: "nat list \<Rightarrow> 'a \<Rightarrow> 'a \<times> nat"
  assumes grab_law: "ok a \<Longrightarrow> grab a = (a', r) \<Longrightarrow>
      ok a' \<and> (r_slots r = [] \<and> st a' = st a \<or>
        (\<exists>s g. r_slots r = [s] \<and> r_generations r = [g] \<and> st a s = kFree \<and> st a' = (st a)(s := kReserved)))"
    and commit_law: "ok a \<Longrightarrow> ok (commit ss a) \<and> st (commit ss a) = (\<lambda>s. if s \<in> set ss \<and> st a s = kReserved then kCommitted else st a s)"
    and abort_law: "ok a \<Longrightarrow> ok (abort ss a) \<and> st (abort ss a) = (\<lambda>s. if s \<in> set ss \<and> st a s = kReserved then kReclaiming else st a s)"
    and release_law: "ok a \<Longrightarrow> ok (fst (release ss a)) \<and>
      st (fst (release ss a)) = (\<lambda>s. if s \<in> set ss \<and> st a s = kCommitted then kReclaiming else st a s)"
begin

lemma grab_holds:
  assumes "ok a" "holds (st a) own" "grab a = (a', r)" "own k = None"
  shows "r_slots r = [] \<Longrightarrow> holds (st a') own"
    and "r_slots r = s # ss \<Longrightarrow> holds (st a') (own(k \<mapsto> (s, False)))"
proof -
  show "r_slots r = [] \<Longrightarrow> holds (st a') own" using grab_law [OF assms(1,3)] assms(2) by auto
  assume "r_slots r = s # ss"
  then have s: "st a s = kFree" "st a' = (st a)(s := kReserved)" using grab_law [OF assms(1,3)] by auto
  have n: "own k' \<noteq> Some (s, c)" for k' c using s(1) holdsD(1) [OF assms(2)] by fastforce
  have "holds (st a') own" using holds_live [OF assms(2), of "st a'"] n s(2) by (metis fun_upd_other)
  then show "holds (st a') (own(k \<mapsto> (s, False)))" using n s(2) unfolding holds_def by (auto split: if_splits)
qed

lemma commit_holds:
  assumes "ok a" "holds (st a) own" "\<And>s. s \<in> set ss \<Longrightarrow> \<exists>k. own k = Some (s, True)"
  shows "holds (st (commit ss a)) own"
proof -
  have "c" if "own k = Some (s, c)" "s \<in> set ss" for k s c using that assms(3) holdsD(2) [OF assms(2)] by (metis option.inject prod.inject)
  then show ?thesis using assms(2) commit_law [OF assms(1)] unfolding holds_def by auto
qed

lemma abort_holds:
  assumes "ok a" "holds (st a) own" "\<And>s k c. s \<in> set ss \<Longrightarrow> own k \<noteq> Some (s, c)"
  shows "holds (st (abort ss a)) own"
  by (rule holds_live [OF assms(2)]) (use abort_law [OF assms(1), of ss] assms(3) in auto)

lemma release_holds:
  assumes "ok a" "holds (st a) own" "\<And>s k c. s \<in> set ss \<Longrightarrow> own k \<noteq> Some (s, c)"
  shows "holds (st (fst (release ss a))) own"
  by (rule holds_live [OF assms(2)]) (use release_law [OF assms(1), of ss] assms(3) in auto)

end

lemma reserve_one:
  assumes "alloc_ok a" "alloc_reserve 1 a = (a', r)"
  shows "alloc_ok a' \<and> (r_slots r = [] \<and> state_of a' = state_of a \<or>
    (\<exists>s g. r_slots r = [s] \<and> r_generations r = [g] \<and> state_of a s = kFree \<and> state_of a' = (state_of a)(s := kReserved)))"
proof -
  obtain ss where s: "r = \<lparr>r_slots = ss, r_generations = map (\<lambda>s. a_generations a ! s) ss, r_rejected = 1 - length ss\<rparr>"
      "length ss = min 1 (available a)" "reserved_by a a' ss" using reserve_spec [OF assms(1), of 1] assms(2) by auto
  then have ok: "alloc_ok a'" "a_total a' = a_total a" by (simp_all add: reserved_by_def)
  show ?thesis
  proof (cases ss)
    case Nil
    then have "state_of a' = state_of a" using s(3) by (auto simp: reserved_by_def state_of_def fun_eq_iff)
    then show ?thesis using Nil s(1) ok by simp
  next
    case (Cons x xs)
    then have "ss = [x]" using s(2) by (cases xs) auto
    then have "state_of a x = kFree" "state_of a' = (state_of a)(x := kReserved)" using s(3) by (auto simp: reserved_by_def state_of_def fun_eq_iff)
    then show ?thesis using \<open>ss = [x]\<close> s(1) ok by simp
  qed
qed

interpretation slots: slot_space alloc_ok state_of "alloc_reserve 1" alloc_commit alloc_abort alloc_release
proof
  fix a ss assume ok: "alloc_ok a"
  note l = alloc_okD(1) [OF ok]
  show "alloc_ok (alloc_commit ss a) \<and> state_of (alloc_commit ss a) = (\<lambda>s. if s \<in> set ss \<and> state_of a s = kReserved then kCommitted else state_of a s)"
    using commit_state [OF l, of ss] commit_keeps [OF ok] by auto
  show "alloc_ok (alloc_abort ss a) \<and> state_of (alloc_abort ss a) = (\<lambda>s. if s \<in> set ss \<and> state_of a s = kReserved then kReclaiming else state_of a s)"
    using abort_state [OF l, of ss] abort_keeps [OF ok] by auto
  show "alloc_ok (fst (alloc_release ss a)) \<and>
      state_of (fst (alloc_release ss a)) = (\<lambda>s. if s \<in> set ss \<and> state_of a s = kCommitted then kReclaiming else state_of a s)"
    using alloc_release_state [OF l, of ss] release_keeps [OF ok] by auto
qed (rule reserve_one)

section \<open>Properties\<close>

text \<open>(C10) No slot is ever lost or in two places: from a configured allocator, after any sequence of
  operations with any arguments, the free list, the reclaim queue and the slots being scrubbed are
  duplicate-free and hold exactly the slots in the corresponding state, slots that were never
  handed out are free, and the reported statistics add up to the capacity.\<close>

theorem alloc_partition:
  assumes "alloc_configure c a = (True, a0)"
  shows "alloc_ok (alloc_run ops a0) \<and>
    (let s = alloc_stats (alloc_run ops a0)
     in st_free s + st_reserved s + st_committed s + st_reclaiming s + st_unmaterialised s = a_total (alloc_run ops a0))"
  using run_keeps [OF configure_ok [OF assms]] stats_sum by (simp add: Let_def)

theorem alloc_partition_witness:
  "alloc_ok (alloc_run [Reserve 2, Commit [0], Abort [0, 1], Take 5, Finish [1]]
    (snd (alloc_configure \<lparr>ac_capacity_bytes = 100, ac_slot_bytes = 30\<rparr> alloc_init)))"
  using alloc_partition [of "\<lparr>ac_capacity_bytes = 100, ac_slot_bytes = 30\<rparr>" alloc_init]
  by (simp add: alloc_configure_def Let_def)

text \<open>(C14) A reservation is maximal and exclusive: it returns as many distinct slots as are available
  up to the number asked for, reports the remainder, takes only free slots, marks exactly those reserved
  and returns their current generations.\<close>

theorem reserve_maximal:
  assumes "alloc_ok a"
  shows "\<exists>a' ss. alloc_reserve n a = (a', \<lparr>r_slots = ss, r_generations = map (generation_of a) ss, r_rejected = n - length ss\<rparr>) \<and>
    length ss = min n (available a) \<and> distinct ss \<and> (\<forall>s\<in>set ss. s < a_total a \<and> state_of a s = kFree) \<and>
    state_of a' = (\<lambda>s. if s \<in> set ss then kReserved else state_of a s) \<and> alloc_ok a'"
proof -
  obtain a' ss where r: "alloc_reserve n a = (a', \<lparr>r_slots = ss, r_generations = map (\<lambda>s. a_generations a ! s) ss, r_rejected = n - length ss\<rparr>)"
      "length ss = min n (available a)" "reserved_by a a' ss" using reserve_spec [OF assms] by blast
  then have "map (\<lambda>s. a_generations a ! s) ss = map (generation_of a) ss" by (auto simp: reserved_by_def generation_of_def)
  moreover have "state_of a' = (\<lambda>s. if s \<in> set ss then kReserved else state_of a s)" using r(3) by (auto simp: reserved_by_def state_of_def fun_eq_iff)
  ultimately show ?thesis using r by (auto simp: reserved_by_def state_of_def)
qed

theorem reserve_maximal_witness:
  "\<exists>a' ss. alloc_reserve 5 (snd (alloc_configure \<lparr>ac_capacity_bytes = 100, ac_slot_bytes = 30\<rparr> alloc_init)) =
     (a', \<lparr>r_slots = ss, r_generations = map (generation_of (snd (alloc_configure \<lparr>ac_capacity_bytes = 100, ac_slot_bytes = 30\<rparr> alloc_init))) ss,
       r_rejected = 5 - length ss\<rparr>) \<and> length ss = 3 \<and> distinct ss"
  using reserve_maximal [of "snd (alloc_configure \<lparr>ac_capacity_bytes = 100, ac_slot_bytes = 30\<rparr> alloc_init)" 5]
    configure_ok [of "\<lparr>ac_capacity_bytes = 100, ac_slot_bytes = 30\<rparr>" alloc_init]
  by (auto simp: alloc_configure_def alloc_init_def available_def Let_def)

text \<open>(C6) Reused space is detectable: if a slot is in use now and, after any operations that finish
  fewer than \<open>2^64\<close> scrubs, a reservation hands it out again, the generation it hands out differs from
  the present one.\<close>

theorem slot_reuse_changes_generation:
  assumes "alloc_ok a" "state_of a s \<noteq> kFree" "sum_list (map finishes ops) < 2 ^ 64"
    and "alloc_reserve n (alloc_run ops a) = (a', r)" "s \<in> set (r_slots r)"
  shows "\<exists>i<length (r_slots r). r_slots r ! i = s \<and> r_generations r ! i \<noteq> generation_of a s"
proof -
  have ok: "alloc_ok (alloc_run ops a)" using assms(1) by (rule run_keeps)
  obtain ss where r: "r_slots r = ss" "r_generations r = map (\<lambda>s. a_generations (alloc_run ops a) ! s) ss" "reserved_by (alloc_run ops a) a' ss"
    using reserve_spec [OF ok, of n] assms(4) by auto
  then have s: "s < a_total (alloc_run ops a)" "state_of (alloc_run ops a) s = kFree" using assms(5) by (auto simp: reserved_by_def state_of_def)
  obtain k where k: "k \<le> sum_list (map finishes ops)" "generation_of (alloc_run ops a) s = generation_of a s + of_nat k" "0 < k"
    using run_recycled [OF assms(1), of ops s] assms(2) s(2) by (auto simp: recycled_def)
  then have "unat (of_nat k :: u64) = k" using assms(3) by (simp add: unat_of_nat take_bit_nat_eq_self)
  then have ne: "(of_nat k :: u64) \<noteq> 0" using k(3) by auto
  obtain i where i: "i < length ss" "ss ! i = s" using assms(5) r(1) by (auto simp: in_set_conv_nth)
  have "a_generations (alloc_run ops a) ! s = generation_of a s + of_nat k" using k(2) s(1) by (simp add: generation_of_def)
  then show ?thesis using i r ne by auto
qed

theorem slot_reuse_changes_generation_witness:
  "let a = alloc_run [Reserve 1] (snd (alloc_configure \<lparr>ac_capacity_bytes = 100, ac_slot_bytes = 60\<rparr> alloc_init));
       r = snd (alloc_reserve 1 (alloc_run [Abort [0], Take 1, Finish [0]] a))
   in \<exists>i<length (r_slots r). r_slots r ! i = 0 \<and> r_generations r ! i \<noteq> generation_of a 0"
proof -
  define a where "a = alloc_run [Reserve 1] (snd (alloc_configure \<lparr>ac_capacity_bytes = 100, ac_slot_bytes = 60\<rparr> alloc_init))"
  define r where "r = snd (alloc_reserve 1 (alloc_run [Abort [0], Take 1, Finish [0]] a))"
  have ok: "alloc_ok a" using run_keeps configure_ok [of "\<lparr>ac_capacity_bytes = 100, ac_slot_bytes = 60\<rparr>" alloc_init]
    by (simp add: a_def alloc_configure_def Let_def)
  have e: "state_of a 0 \<noteq> kFree" "0 \<in> set (r_slots r)"
    by (simp_all add: a_def r_def alloc_run_def alloc_configure_def alloc_init_def alloc_reserve_def take_free_slot_locked_def
        alloc_abort_def take_reclaimable_def finish_reclaim_def state_of_def)
  have f: "sum_list (map finishes [Abort [0], Take 1, Finish [0]]) < 2 ^ 64" by simp
  have "alloc_reserve 1 (alloc_run [Abort [0], Take 1, Finish [0]] a) = (fst (alloc_reserve 1 (alloc_run [Abort [0], Take 1, Finish [0]] a)), r)"
    by (simp add: r_def)
  then have "\<exists>i<length (r_slots r). r_slots r ! i = 0 \<and> r_generations r ! i \<noteq> generation_of a 0"
    using slot_reuse_changes_generation [OF ok e(1) f] e(2) by blast
  then show ?thesis unfolding Let_def a_def [symmetric] r_def .
qed

end
