(* ===== verification/Store_Posix.thy ===== *)
theory Store_Posix
  imports Store_Bytes
begin

text \<open>
  Files and the system calls the object store makes. A file is its bytes, its inode number and the
  set of byte positions written since the last \<open>fsync\<close>. What the operating system decides (errors,
  how many bytes a call moves, device numbers, free space, extent maps) is the environment record,
  indexed by the number of the call. A call may be interrupted by a signal; the number of signals a
  run receives is a field of the state, so it is finite. A crash keeps every byte that was synced.
\<close>

section \<open>Status codes\<close>

datatype StatusCode = OK | INVALID_ARGUMENT | OUT_OF_RANGE | NOT_FOUND | UNSUPPORTED | NOT_READY | BUSY
  | RESOURCE_EXHAUSTED | TIMEOUT | DEVICE_ERROR | DATA_LOSS | INTERNAL

datatype errno = E_OK | E_INTR | E_NOENT | E_EXIST | E_OTHER

section \<open>Files\<close>

record fnode =
  f_ino :: u64
  f_data :: bytes
  f_dirty :: "nat set"

record posix =
  px_tick :: nat
  px_signals :: nat
  px_files :: "string \<Rightarrow> fnode option"
  px_dirs :: "string set"
  px_next_ino :: u64

record fiemap_extent =
  fe_logical :: nat
  fe_physical :: nat
  fe_length :: nat
  fe_flags :: u32

record penv =
  pe_errno :: "nat \<Rightarrow> errno"
  pe_count :: "nat \<Rightarrow> nat"
  pe_dev :: "string \<Rightarrow> u64"
  pe_bavail :: "nat \<Rightarrow> u64"
  pe_frsize :: "nat \<Rightarrow> u64"
  pe_fiemap :: "nat \<Rightarrow> string \<Rightarrow> nat \<Rightarrow> nat \<Rightarrow> fiemap_extent list"

text \<open>Writing bytes at a position, with the gap after the end of the file filled with zeros.\<close>

definition overwrite :: "nat \<Rightarrow> bytes \<Rightarrow> bytes \<Rightarrow> bytes" where
  "overwrite off bs d = take off (d @ replicate (off - length d) 0) @ bs @ drop (off + length bs) d"

definition write_file :: "string \<Rightarrow> nat \<Rightarrow> bytes \<Rightarrow> posix \<Rightarrow> posix" where
  "write_file p off bs s =
     (if bs = [] then s else case px_files s p of None \<Rightarrow> s
      | Some f \<Rightarrow> s\<lparr>px_files := (px_files s)(p \<mapsto> f\<lparr>f_data := overwrite off bs (f_data f),
          f_dirty := f_dirty f \<union> {min off (length (f_data f))..<off + length bs}\<rparr>)\<rparr>)"

section \<open>System calls\<close>

definition sys :: "penv \<Rightarrow> posix \<Rightarrow> errno \<times> posix" where
  "sys e s = (let s' = s\<lparr>px_tick := Suc (px_tick s)\<rparr>
     in if pe_errno e (px_tick s) = E_INTR
        then (if px_signals s = 0 then (E_OK, s') else (E_INTR, s'\<lparr>px_signals := px_signals s - 1\<rparr>))
        else (pe_errno e (px_tick s), s'))"

definition sys_open :: "penv \<Rightarrow> bool \<Rightarrow> string \<Rightarrow> posix \<Rightarrow> errno \<times> posix" where
  "sys_open e create p s = (let (x, s) = sys e s
     in if x \<noteq> E_OK then (x, s)
        else case px_files s p of Some f \<Rightarrow> (E_OK, s)
        | None \<Rightarrow> if create
            then (E_OK, s\<lparr>px_files := (px_files s)(p \<mapsto> \<lparr>f_ino = px_next_ino s, f_data = [], f_dirty = {}\<rparr>),
                   px_next_ino := px_next_ino s + 1\<rparr>)
            else (E_NOENT, s))"

definition sys_pwrite :: "penv \<Rightarrow> string \<Rightarrow> bytes \<Rightarrow> nat \<Rightarrow> posix \<Rightarrow> (errno + nat) \<times> posix" where
  "sys_pwrite e p buf off s = (let (x, s') = sys e s
     in if x \<noteq> E_OK then (Inl x, s')
        else let n = min (pe_count e (px_tick s)) (length buf) in (Inr n, write_file p off (take n buf) s'))"

definition sys_pread :: "penv \<Rightarrow> string \<Rightarrow> nat \<Rightarrow> nat \<Rightarrow> posix \<Rightarrow> (errno + bytes) \<times> posix" where
  "sys_pread e p want off s = (let (x, s') = sys e s
     in if x \<noteq> E_OK then (Inl x, s')
        else case px_files s p of None \<Rightarrow> (Inl E_OTHER, s')
        | Some f \<Rightarrow> (Inr (take (min (max 1 (pe_count e (px_tick s))) want) (drop off (f_data f))), s'))"

definition sys_fsync :: "penv \<Rightarrow> string \<Rightarrow> posix \<Rightarrow> errno \<times> posix" where
  "sys_fsync e p s = (let (x, s) = sys e s
     in if x \<noteq> E_OK then (x, s)
        else (E_OK, s\<lparr>px_files := (px_files s)(p := map_option (\<lambda>f. f\<lparr>f_dirty := {}\<rparr>) (px_files s p))\<rparr>))"

definition sys_truncate :: "penv \<Rightarrow> string \<Rightarrow> nat \<Rightarrow> posix \<Rightarrow> errno \<times> posix" where
  "sys_truncate e p n s = (let (x, s) = sys e s
     in if x \<noteq> E_OK then (x, s)
        else (E_OK, s\<lparr>px_files := (px_files s)(p := map_option (\<lambda>f.
          f\<lparr>f_data := take n (f_data f) @ replicate (n - length (f_data f)) 0,
            f_dirty := f_dirty f \<union> {length (f_data f)..<n}\<rparr>) (px_files s p))\<rparr>))"

definition sys_rename :: "penv \<Rightarrow> string \<Rightarrow> string \<Rightarrow> posix \<Rightarrow> errno \<times> posix" where
  "sys_rename e p q s = (let (x, s) = sys e s
     in if x \<noteq> E_OK then (x, s)
        else (E_OK, s\<lparr>px_files := (px_files s)(q := px_files s p, p := None)\<rparr>))"

definition sys_mkdir :: "penv \<Rightarrow> string \<Rightarrow> posix \<Rightarrow> errno \<times> posix" where
  "sys_mkdir e p s = (let (x, s) = sys e s
     in if x \<noteq> E_OK then (x, s) else if p \<in> px_dirs s then (E_EXIST, s) else (E_OK, s\<lparr>px_dirs := insert p (px_dirs s)\<rparr>))"

section \<open>Writes\<close>

lemma overwrite_inside: "off + length bs \<le> length d \<Longrightarrow> overwrite off bs d = put off bs d"
  by (simp add: overwrite_def put_def)

lemma overwrite_append: "overwrite (off + length a) b (overwrite off a d) = overwrite off (a @ b) d"
proof -
  define h where "h = take off (d @ replicate (off - length d) 0)"
  have h: "length h = off" by (simp add: h_def)
  have "overwrite off a d = (h @ a) @ drop (off + length a) d" by (simp add: overwrite_def h_def)
  then show ?thesis using h by (simp add: overwrite_def h_def [symmetric] ac_simps)
qed

lemma overwrite_nil: "off \<le> length d \<Longrightarrow> overwrite off [] d = d"
  by (simp add: overwrite_def)

lemma length_overwrite: "length (overwrite off bs d) = max (length d) (off + length bs)"
  by (simp add: overwrite_def)

lemma nth_overwrite:
  "i < length d \<Longrightarrow> overwrite off bs d ! i = (if off \<le> i \<and> i < off + length bs then bs ! (i - off) else d ! i)"
  by (auto simp: overwrite_def nth_append)

text \<open>From \<open>s\<close> to \<open>s'\<close> nothing but the bytes \<open>lo\<close> to \<open>hi\<close> of the file \<open>p\<close> changed, apart from the file growing.\<close>

definition touched :: "string \<Rightarrow> nat \<Rightarrow> nat \<Rightarrow> posix \<Rightarrow> posix \<Rightarrow> bool" where
  "touched p lo hi s s' \<longleftrightarrow> (\<forall>q. q \<noteq> p \<longrightarrow> px_files s' q = px_files s q) \<and>
     (case px_files s p of None \<Rightarrow> px_files s' p = None
      | Some f \<Rightarrow> (\<exists>f'. px_files s' p = Some f' \<and> f_ino f' = f_ino f \<and> length (f_data f) \<le> length (f_data f') \<and>
          (\<forall>i<length (f_data f). i < lo \<or> hi \<le> i \<longrightarrow> f_data f' ! i = f_data f ! i \<and> (i \<in> f_dirty f' \<longrightarrow> i \<in> f_dirty f))))"

lemma touched_same: "px_files s' = px_files s \<Longrightarrow> touched p lo hi s s'"
  by (simp add: touched_def split: option.splits)

lemma touched_trans: "touched p lo hi s s' \<Longrightarrow> touched p lo hi s' s'' \<Longrightarrow> touched p lo hi s s''"
  unfolding touched_def by (fastforce split: option.splits)

lemma touched_cong: "touched p lo hi s t \<Longrightarrow> px_files t' = px_files t \<Longrightarrow> touched p lo hi s t'"
  by (cases "px_files s p") (simp_all add: touched_def)

lemma touched_write: "lo \<le> off \<Longrightarrow> off + length bs \<le> hi \<Longrightarrow> touched p lo hi s (write_file p off bs s)"
  by (auto simp: touched_def write_file_def length_overwrite nth_overwrite split: option.splits)

lemma write_file_cong: "px_files t = px_files s \<Longrightarrow> px_files (write_file p off bs t) = px_files (write_file p off bs s)"
  by (simp add: write_file_def split: option.splits)

lemma write_file_append:
  "px_files (write_file p (off + length a) b (write_file p off a s)) = px_files (write_file p off (a @ b) s)"
proof (cases "px_files s p")
  case (Some f)
  have "{min off (length (f_data f))..<off + length a} \<union> {off + length a..<off + length a + length b} =
      {min off (length (f_data f))..<off + (length a + length b)}" by auto
  then show ?thesis using Some by (auto simp: write_file_def overwrite_append length_overwrite fun_eq_iff add.assoc Un_assoc)
qed (simp add: write_file_def)

lemma sys_files: "sys e s = (x, s') \<Longrightarrow> px_files s' = px_files s"
  by (auto simp: sys_def Let_def split: if_splits)

lemma sys_signals: "sys e s = (x, s') \<Longrightarrow> px_signals s' \<le> px_signals s \<and> (x = E_INTR \<longrightarrow> px_signals s' < px_signals s)"
  by (auto simp: sys_def Let_def split: if_splits)

lemma write_file_signals [simp]: "px_signals (write_file p off bs s) = px_signals s"
  by (simp add: write_file_def split: option.splits)

lemma fsync_touched: "sys_fsync e p s = (x, s') \<Longrightarrow> touched p lo hi s s'"
  using sys_files [of e s] by (auto simp: sys_fsync_def touched_def split: if_splits option.splits prod.splits)

lemma open_files: "sys_open e False p s = (x, s') \<Longrightarrow> px_files s' = px_files s \<and> (x = E_OK \<longrightarrow> px_files s p \<noteq> None)"
  using sys_files [of e s] by (auto simp: sys_open_def split: if_splits option.splits prod.splits)

text \<open>A crash: what was written since the last sync may hold anything, and nothing is pending afterwards.\<close>

definition crashed :: "posix \<Rightarrow> posix \<Rightarrow> bool" where
  "crashed s s' \<longleftrightarrow> (\<forall>p. case px_files s p of None \<Rightarrow> px_files s' p = None
     | Some f \<Rightarrow> (\<exists>f'. px_files s' p = Some f' \<and> f_ino f' = f_ino f \<and> length (f_data f') = length (f_data f) \<and> f_dirty f' = {} \<and>
         (\<forall>i<length (f_data f). i \<notin> f_dirty f \<longrightarrow> f_data f' ! i = f_data f ! i)))"

text \<open>The bytes at a place of a file, and that they are on stable storage.\<close>

definition content :: "posix \<Rightarrow> string \<Rightarrow> nat \<Rightarrow> bytes \<Rightarrow> bool" where
  "content s p off bs \<longleftrightarrow> (\<exists>f. px_files s p = Some f \<and> off + length bs \<le> length (f_data f) \<and> take (length bs) (drop off (f_data f)) = bs)"

definition durable :: "posix \<Rightarrow> string \<Rightarrow> nat \<Rightarrow> bytes \<Rightarrow> bool" where
  "durable s p off bs \<longleftrightarrow> content s p off bs \<and> (\<forall>f. px_files s p = Some f \<longrightarrow> f_dirty f \<inter> {off..<off + length bs} = {})"

lemma content_nth:
  "content s p off bs \<longleftrightarrow> (\<exists>f. px_files s p = Some f \<and> off + length bs \<le> length (f_data f) \<and> (\<forall>i<length bs. f_data f ! (off + i) = bs ! i))"
  unfolding content_def by (auto simp: list_eq_iff_nth_eq)

lemma durable_survives: "durable s p off bs \<Longrightarrow> crashed s s' \<Longrightarrow> content s' p off bs"
proof -
  assume d: "durable s p off bs" and c: "crashed s s'"
  obtain f where f: "px_files s p = Some f" "off + length bs \<le> length (f_data f)" "\<forall>i<length bs. f_data f ! (off + i) = bs ! i"
      "f_dirty f \<inter> {off..<off + length bs} = {}" using d by (auto simp: durable_def content_nth)
  obtain f' where f': "px_files s' p = Some f'" "length (f_data f') = length (f_data f)"
      "\<forall>i<length (f_data f). i \<notin> f_dirty f \<longrightarrow> f_data f' ! i = f_data f ! i"
    using spec [OF c [unfolded crashed_def], of p] f(1) by auto
  have "f_data f' ! (off + i) = bs ! i" if "i < length bs" for i
  proof -
    have "off + i \<notin> f_dirty f" using f(4) that by auto
    then show ?thesis using f' f that by simp
  qed
  then show ?thesis using f' f(2) by (auto simp: content_nth)
qed

lemma touched_durable:
  assumes "touched p lo hi s s'" "durable s q off bs" "q \<noteq> p \<or> off + length bs \<le> lo \<or> hi \<le> off"
  shows "durable s' q off bs"
proof (cases "q = p")
  case False
  then have "px_files s' q = px_files s q" using assms(1) by (simp add: touched_def)
  then show ?thesis using assms(2) by (simp add: durable_def content_def)
next
  case True
  obtain f where f: "px_files s p = Some f" "off + length bs \<le> length (f_data f)" "\<forall>i<length bs. f_data f ! (off + i) = bs ! i"
      "f_dirty f \<inter> {off..<off + length bs} = {}" using assms(2) True by (auto simp: durable_def content_nth)
  obtain f' where f': "px_files s' p = Some f'" "length (f_data f) \<le> length (f_data f')"
      "\<forall>i<length (f_data f). i < lo \<or> hi \<le> i \<longrightarrow> f_data f' ! i = f_data f ! i \<and> (i \<in> f_dirty f' \<longrightarrow> i \<in> f_dirty f)"
    using assms(1) f(1) by (auto simp: touched_def)
  have "off + i < lo \<or> hi \<le> off + i" if "i < length bs" for i using assms(3) True that by auto
  then have i: "f_data f' ! (off + i) = bs ! i \<and> off + i \<notin> f_dirty f'" if "i < length bs" for i
  proof -
    have "off + i \<notin> f_dirty f" "off + i < length (f_data f)" using f(2,4) that by auto
    then show ?thesis using f' f(3) that \<open>\<And>i. i < length bs \<Longrightarrow> off + i < lo \<or> hi \<le> off + i\<close> [OF that] by auto
  qed
  then have "f_dirty f' \<inter> {off..<off + length bs} = {}" by (auto simp: le_iff_add)
  then show ?thesis using i f' f(2) True by (auto simp: durable_def content_nth)
qed

text \<open>Every file outside \<open>A\<close> keeps its bytes, synced ones stay synced; files may grow or appear.\<close>

definition kept :: "string set \<Rightarrow> posix \<Rightarrow> posix \<Rightarrow> bool" where
  "kept A s s' \<longleftrightarrow> (\<forall>q f. q \<notin> A \<and> px_files s q = Some f \<longrightarrow>
     (\<exists>f'. px_files s' q = Some f' \<and> f_ino f' = f_ino f \<and> length (f_data f) \<le> length (f_data f') \<and>
       (\<forall>i<length (f_data f). f_data f' ! i = f_data f ! i \<and> (i \<in> f_dirty f' \<longrightarrow> i \<in> f_dirty f))))"

lemma kept_same: "px_files s' = px_files s \<Longrightarrow> kept A s s'"
  by (auto simp: kept_def)

lemma kept_trans: "kept A s s' \<Longrightarrow> kept A s' s'' \<Longrightarrow> kept A s s''"
  unfolding kept_def by fastforce

lemma kept_mono: "kept A s s' \<Longrightarrow> A \<subseteq> B \<Longrightarrow> kept B s s'"
  unfolding kept_def by blast

lemma kept_cong: "kept A s t \<Longrightarrow> px_files t' = px_files t \<Longrightarrow> kept A s t'"
  by (simp add: kept_def)

lemma kept_durable: "kept A s s' \<Longrightarrow> durable s q off bs \<Longrightarrow> q \<notin> A \<Longrightarrow> durable s' q off bs"
proof -
  assume k: "kept A s s'" and d: "durable s q off bs" and q: "q \<notin> A"
  obtain f where f: "px_files s q = Some f" "off + length bs \<le> length (f_data f)" "\<forall>i<length bs. f_data f ! (off + i) = bs ! i"
      "f_dirty f \<inter> {off..<off + length bs} = {}" using d by (auto simp: durable_def content_nth)
  obtain f' where f': "px_files s' q = Some f'" "length (f_data f) \<le> length (f_data f')"
      "\<forall>i<length (f_data f). f_data f' ! i = f_data f ! i \<and> (i \<in> f_dirty f' \<longrightarrow> i \<in> f_dirty f)"
    using k q f(1) unfolding kept_def by blast
  have "i \<notin> f_dirty f'" if "off \<le> i" "i < off + length bs" for i
  proof -
    have "i < length (f_data f)" "i \<notin> f_dirty f" using that f(2,4) by auto
    then show ?thesis using f'(3) by blast
  qed
  then have "f_dirty f' \<inter> {off..<off + length bs} = {}" by auto
  then show ?thesis using f f' by (auto simp: durable_def content_nth)
qed

lemma kept_file: "kept A s s' \<Longrightarrow> px_files s q = Some f \<Longrightarrow> q \<notin> A \<Longrightarrow> \<exists>f'. px_files s' q = Some f' \<and> f_ino f' = f_ino f \<and> length (f_data f) \<le> length (f_data f')"
  unfolding kept_def by blast

lemma kept_append: "px_files s p = Some f \<Longrightarrow> length (f_data f) \<le> off \<Longrightarrow> kept A s (write_file p off bs s)"
  by (auto simp: kept_def write_file_def length_overwrite nth_overwrite)

lemma open_kept: "sys_open e c p s = (x, s') \<Longrightarrow> kept A s s'"
  using sys_files [of e s] by (auto simp: sys_open_def kept_def split: if_splits option.splits prod.splits)

lemma fsync_kept: "sys_fsync e p s = (x, s') \<Longrightarrow> kept A s s'"
  using sys_files [of e s] by (auto simp: sys_fsync_def kept_def split: if_splits option.splits prod.splits)

lemma fsync_clean: "sys_fsync e p s = (E_OK, s') \<Longrightarrow> px_files s' p = map_option (\<lambda>f. f\<lparr>f_dirty := {}\<rparr>) (px_files s p)"
  using sys_files [of e s] by (auto simp: sys_fsync_def split: if_splits prod.splits)

lemma mkdir_files: "sys_mkdir e p s = (x, s') \<Longrightarrow> px_files s' = px_files s"
  using sys_files [of e s] by (auto simp: sys_mkdir_def split: if_splits prod.splits)

lemma durable_written:
  assumes "px_files s p = Some f" "f_data f = overwrite off bs d" "f_dirty f = {}"
  shows "durable s p off bs"
proof -
  have "take (length bs) (drop off (f_data f)) = bs" by (simp add: assms(2) overwrite_def)
  then show ?thesis using assms by (auto simp: durable_def content_def length_overwrite)
qed

text \<open>An environment in which no call fails; calls may still move fewer bytes than asked.\<close>

definition quiet :: "penv \<Rightarrow> bool" where
  "quiet e \<longleftrightarrow> (\<forall>t. pe_errno e t = E_OK)"

lemma quiet_sys: "quiet e \<Longrightarrow> sys e s = (x, s') \<Longrightarrow> x = E_OK"
  by (auto simp: quiet_def sys_def Let_def split: if_splits)

end
