(* ===== verification/Store_Media.thy ===== *)
theory Store_Media
  imports Store_Posix
begin

text \<open>
  The media layer of the object store (\<open>storage_objects/slot_media.cpp\<close>): zero filling, ready markers,
  extent verification, materialisation of segment files, object headers and checkpoint containers.
  Messages of a status are not modelled. The walk up to the root of a file system may not end, so it is
  a partial function; it ends for every absolute path. The other loops end because every call either moves
  bytes or is one of the finitely many that a signal interrupts.
\<close>

section \<open>Helpers\<close>

definition kAlignment :: nat where "kAlignment = 4096"
definition kZeroChunkBytes :: nat where "kZeroChunkBytes = 4 * 1024 * 1024"

definition is_aligned :: "nat \<Rightarrow> bool" where "is_aligned v \<longleftrightarrow> v mod kAlignment = 0"

definition aligned_buffer :: "penv \<Rightarrow> nat \<Rightarrow> posix \<Rightarrow> bool \<times> posix" where
  "aligned_buffer e bytes s = (if bytes = 0 then (False, s) else let (x, s) = sys e s in (x = E_OK, s))"

definition last_slash :: "string \<Rightarrow> nat option" where
  "last_slash p = (let tail = takeWhile (\<lambda>c. c \<noteq> CHR ''/'') (rev p)
     in if length tail = length p then None else Some (length p - length tail - 1))"

definition parent_of :: "string \<Rightarrow> string" where
  "parent_of p = (case last_slash p of None \<Rightarrow> ''.'' | Some 0 \<Rightarrow> ''/'' | Some (Suc n) \<Rightarrow> take (Suc n) p)"

section \<open>Loops over system calls\<close>

lemma sys_pwrite_measure:
  assumes "sys_pwrite e p buf off s = (r, s')"
  shows "r = Inl E_INTR \<Longrightarrow> px_signals s' < px_signals s" and "r = Inr n \<Longrightarrow> n \<le> length buf"
proof -
  obtain x t where x: "sys e s = (x, t)" by (metis surj_pair)
  then show "r = Inl E_INTR \<Longrightarrow> px_signals s' < px_signals s" "r = Inr n \<Longrightarrow> n \<le> length buf"
    using assms sys_signals [OF x] by (auto simp: sys_pwrite_def Let_def split: if_splits)
qed

lemma sys_pread_measure:
  assumes "sys_pread e p want off s = (r, s')"
  shows "r = Inl E_INTR \<Longrightarrow> px_signals s' < px_signals s" and "r = Inr bs \<Longrightarrow> length bs \<le> want"
proof -
  obtain x t where x: "sys e s = (x, t)" by (metis surj_pair)
  then show "r = Inl E_INTR \<Longrightarrow> px_signals s' < px_signals s" "r = Inr bs \<Longrightarrow> length bs \<le> want"
    using assms sys_signals [OF x] by (auto simp: sys_pread_def Let_def split: if_splits option.splits)
qed

function zero_loop :: "penv \<Rightarrow> string \<Rightarrow> nat \<Rightarrow> nat \<Rightarrow> nat \<Rightarrow> posix \<Rightarrow> StatusCode \<times> posix" where
  "zero_loop e p offset bytes written s =
     (if written < bytes
      then let chunk = min (bytes - written) kZeroChunkBytes
        in if \<not> is_aligned chunk then (INVALID_ARGUMENT, s)
           else case sys_pwrite e p (replicate chunk 0) (offset + written) s of
               (Inl E_INTR, s) \<Rightarrow> zero_loop e p offset bytes written s
             | (Inl x, s) \<Rightarrow> (INTERNAL, s)
             | (Inr n, s) \<Rightarrow> if n = 0 then (INTERNAL, s) else zero_loop e p offset bytes (written + n) s
      else (OK, s))"
  by pat_completeness auto
termination
  by (relation "measures [\<lambda>(e, p, offset, bytes, written, s). bytes - written, \<lambda>(e, p, offset, bytes, written, s). px_signals s]")
    (auto dest: sys_pwrite_measure [OF sym])

definition write_zeros :: "penv \<Rightarrow> string \<Rightarrow> nat \<Rightarrow> nat \<Rightarrow> posix \<Rightarrow> StatusCode \<times> posix" where
  "write_zeros e p offset bytes s =
     (if bytes = 0 then (OK, s)
      else let (ok, s) = aligned_buffer e kZeroChunkBytes s
        in if \<not> ok then (INTERNAL, s) else zero_loop e p offset bytes 0 s)"

function pwrite_loop :: "penv \<Rightarrow> string \<Rightarrow> nat \<Rightarrow> bytes \<Rightarrow> nat \<Rightarrow> posix \<Rightarrow> StatusCode \<times> posix" where
  "pwrite_loop e p offset buf written s =
     (if written < length buf
      then case sys_pwrite e p (drop written buf) (offset + written) s of
          (Inl E_INTR, s) \<Rightarrow> pwrite_loop e p offset buf written s
        | (Inl x, s) \<Rightarrow> (INTERNAL, s)
        | (Inr n, s) \<Rightarrow> if n = 0 then (INTERNAL, s) else pwrite_loop e p offset buf (written + n) s
      else (OK, s))"
  by pat_completeness auto
termination
  by (relation "measures [\<lambda>(e, p, offset, buf, written, s). length buf - written, \<lambda>(e, p, offset, buf, written, s). px_signals s]")
    (auto dest: sys_pwrite_measure [OF sym])

function pread_loop :: "penv \<Rightarrow> string \<Rightarrow> nat \<Rightarrow> nat \<Rightarrow> bytes \<Rightarrow> posix \<Rightarrow> (StatusCode \<times> bytes) \<times> posix" where
  "pread_loop e p offset want got s =
     (if length got < want
      then case sys_pread e p (want - length got) (offset + length got) s of
          (Inl E_INTR, s) \<Rightarrow> pread_loop e p offset want got s
        | (Inl x, s) \<Rightarrow> ((INTERNAL, got), s)
        | (Inr bs, s) \<Rightarrow> if bs = [] then ((OK, got), s) else pread_loop e p offset want (got @ bs) s
      else ((OK, got), s))"
  by pat_completeness auto
termination
  by (relation "measures [\<lambda>(e, p, offset, want, got, s). want - length got, \<lambda>(e, p, offset, want, got, s). px_signals s]")
    (auto dest: sys_pread_measure [OF sym] simp flip: length_greater_0_conv)

declare zero_loop.simps [simp del] pwrite_loop.simps [simp del] pread_loop.simps [simp del]

section \<open>Directories\<close>

definition ensure_dir_char :: "penv \<Rightarrow> string \<Rightarrow> nat \<Rightarrow> StatusCode \<times> posix \<Rightarrow> StatusCode \<times> posix" where
  "ensure_dir_char e path i r = (let (st, s) = r; part = take (Suc i) path
     in if st \<noteq> OK then r
        else if path ! i \<noteq> CHR ''/'' \<and> Suc i \<noteq> length path then r
        else if part = ''/'' then r
        else let dir = (if length part > 1 \<and> last part = CHR ''/'' then butlast part else part);
                 (x, s) = sys_mkdir e dir s
             in if x \<noteq> E_OK \<and> x \<noteq> E_EXIST then (INTERNAL, s) else (OK, s))"

definition ensure_directory :: "penv \<Rightarrow> string \<Rightarrow> posix \<Rightarrow> StatusCode \<times> posix" where
  "ensure_directory e path s =
     (if path = '''' then (INVALID_ARGUMENT, s) else fold (ensure_dir_char e path) [0..<length path] (OK, s))"

definition sync_directory :: "penv \<Rightarrow> string \<Rightarrow> posix \<Rightarrow> StatusCode \<times> posix" where
  "sync_directory e path s = (let (x, s) = sys e s
     in if x \<noteq> E_OK then (INTERNAL, s) else let (x, s) = sys e s in (if x \<noteq> E_OK then INTERNAL else OK, s))"

partial_function (option) lock_root_loop :: "penv \<Rightarrow> string \<Rightarrow> u64 \<Rightarrow> posix \<Rightarrow> ((StatusCode \<times> string) \<times> posix) option" where
  "lock_root_loop e dir current s =
     (if dir = ''/'' then Some ((OK, dir), s)
      else let parent = parent_of dir; (x, s) = sys e s
        in if x \<noteq> E_OK then Some ((INTERNAL, ''''), s)
           else if pe_dev e parent \<noteq> current then Some ((OK, dir), s)
           else lock_root_loop e parent (pe_dev e parent) s)"

definition filesystem_lock_root :: "penv \<Rightarrow> string \<Rightarrow> posix \<Rightarrow> ((StatusCode \<times> string) \<times> posix) option" where
  "filesystem_lock_root e path s = (let dir = parent_of path; (x, s) = sys e s
     in if x \<noteq> E_OK then Some ((INTERNAL, ''''), s) else lock_root_loop e dir (pe_dev e dir) s)"

section \<open>Ready markers\<close>

definition read_ready_record :: "penv \<Rightarrow> string \<Rightarrow> fnode \<Rightarrow> posix \<Rightarrow> u64 option \<times> posix" where
  "read_ready_record e path f s = (let marker = path @ ''.ready''; (x, s) = sys_open e False marker s
     in if x \<noteq> E_OK then (None, s)
        else case sys_pread e marker 24 0 s of
            (Inl x, s) \<Rightarrow> (None, s)
          | (Inr bs, s) \<Rightarrow>
              (if length bs = 24 \<and> load_u64 (drop 8 bs) = pe_dev e path \<and> load_u64 (drop 16 bs) = f_ino f
               then Some (load_u64 bs) else None, s))"

definition segment_ready :: "penv \<Rightarrow> string \<Rightarrow> fnode \<Rightarrow> nat \<Rightarrow> posix \<Rightarrow> bool \<times> posix" where
  "segment_ready e path f file_bytes s = (let (r, s) = read_ready_record e path f s in (r = Some (of_nat file_bytes), s))"

definition truncate_file :: "string \<Rightarrow> posix \<Rightarrow> posix" where
  "truncate_file p s = s\<lparr>px_files := (px_files s)(p := map_option (\<lambda>f. f\<lparr>f_data := []\<rparr>) (px_files s p))\<rparr>"

definition publish_segment_ready :: "penv \<Rightarrow> string \<Rightarrow> fnode \<Rightarrow> nat \<Rightarrow> posix \<Rightarrow> StatusCode \<times> posix" where
  "publish_segment_ready e path f file_bytes s =
     (let pending = path @ ''.ready.pending''; marker = path @ ''.ready'';
          (x1, s1) = sys_open e True pending s
      in if x1 \<noteq> E_OK then (INTERNAL, s1)
         else let (r, s2) = sys_pwrite e pending (store_u64 (of_nat file_bytes) @ store_u64 (pe_dev e path) @ store_u64 (f_ino f)) 0 (truncate_file pending s1)
           in if r \<noteq> Inr 24 then (INTERNAL, s2)
              else let (x3, s3) = sys_fsync e pending s2
                in if x3 \<noteq> E_OK then (INTERNAL, s3)
                   else let (x4, s4) = sys_rename e pending marker s3
                     in if x4 \<noteq> E_OK then (INTERNAL, s4) else sync_directory e (parent_of path) s4)"

section \<open>Extents\<close>

definition bad_extent_flags :: u32 where
  "bad_extent_flags = or (or (or (or (or (or (or (or 0x2 0x4) 0x800) 0x8) 0x2000) 0x100) 0x80) 0x200) 0x400"

definition extent_unsafe :: "nat \<Rightarrow> nat \<Rightarrow> fiemap_extent \<Rightarrow> bool" where
  "extent_unsafe file_bytes cursor x \<longleftrightarrow> and (fe_flags x) bad_extent_flags \<noteq> 0 \<or> fe_logical x \<noteq> cursor \<or>
     fe_length x = 0 \<or> fe_length x > file_bytes - cursor \<or> \<not> is_aligned (fe_physical x) \<or> \<not> is_aligned (fe_length x) \<or>
     fe_physical x > 2 ^ 64 - 1 - fe_length x"

fun extent_batch :: "nat \<Rightarrow> nat \<times> nat \<times> nat \<Rightarrow> fiemap_extent list \<Rightarrow> StatusCode + nat \<times> nat \<times> nat" where
  "extent_batch file_bytes (cursor, physical_end, extents) [] = Inr (cursor, physical_end, extents)"
| "extent_batch file_bytes (cursor, physical_end, extents) (x # xs) =
     (if extent_unsafe file_bytes cursor x then Inl DATA_LOSS
      else let extents = (if extents = 0 \<or> fe_physical x \<noteq> physical_end then Suc extents else extents)
        in if extents > 124 then Inl RESOURCE_EXHAUSTED
           else extent_batch file_bytes (cursor + fe_length x, fe_physical x + fe_length x, extents) xs)"

lemma extent_batch_advances:
  "extent_batch fb (c, pe, n) xs = Inr (c', pe', n') \<Longrightarrow> c \<le> c' \<and> (xs \<noteq> [] \<longrightarrow> c < c')"
proof (induction xs arbitrary: c pe n)
  case (Cons x xs)
  then have "0 < fe_length x" by (auto simp: extent_unsafe_def split: if_splits)
  moreover have "c + fe_length x \<le> c'" using Cons by (auto simp: Let_def split: if_splits)
  ultimately show ?case by simp
qed simp

function verify_loop :: "penv \<Rightarrow> string \<Rightarrow> nat \<Rightarrow> nat \<times> nat \<times> nat \<Rightarrow> posix \<Rightarrow> StatusCode \<times> posix" where
  "verify_loop e p file_bytes st s =
     (if fst st < file_bytes
      then let xs = pe_fiemap e (px_tick s) p (fst st) (file_bytes - fst st); (x, s) = sys e s
        in if x \<noteq> E_OK then (INTERNAL, s)
           else if xs = [] then (DATA_LOSS, s)
           else case extent_batch file_bytes st xs of
               Inl r \<Rightarrow> (r, s)
             | Inr st' \<Rightarrow> verify_loop e p file_bytes st' s
      else (OK, s))"
  by pat_completeness auto
termination
proof (relation "measure (\<lambda>(e, p, fb, st, s). fb - fst st)", simp, goal_cases)
  case (1 e p fb st s xs r x t st')
  obtain c pe n c' pe' n' where st: "st = (c, pe, n)" "st' = (c', pe', n')" by (metis prod_cases3)
  show ?case using 1 extent_batch_advances [of fb c pe n xs c' pe' n'] unfolding st by auto
qed

declare verify_loop.simps [simp del]

definition verify_segment_extents :: "penv \<Rightarrow> string \<Rightarrow> nat \<Rightarrow> posix \<Rightarrow> StatusCode \<times> posix" where
  "verify_segment_extents e p file_bytes s = verify_loop e p file_bytes (0, 0, 0) s"

section \<open>Segment files\<close>

definition free_bytes :: "penv \<Rightarrow> nat \<Rightarrow> nat" where
  "free_bytes e t = unat (pe_bavail e t * pe_frsize e t)"

text \<open>The part of \<open>materialise_segment_file\<close> after the file is open and locked.\<close>

definition extend_segment_file :: "penv \<Rightarrow> string \<Rightarrow> nat \<Rightarrow> nat \<Rightarrow> posix \<Rightarrow> StatusCode \<times> posix" where
  "extend_segment_file e path old_size file_bytes s =
     (if old_size < file_bytes
      then let (x, s1) = sys e s
        in if x \<noteq> E_OK then (INTERNAL, s1)
           else if free_bytes e (px_tick s) < file_bytes - old_size then (RESOURCE_EXHAUSTED, s1)
           else write_zeros e path old_size (file_bytes - old_size) s1
      else (OK, s))"

definition fill_segment_file :: "penv \<Rightarrow> string \<Rightarrow> nat \<Rightarrow> fnode \<Rightarrow> posix \<Rightarrow> StatusCode \<times> posix" where
  "fill_segment_file e path file_bytes f s =
     (let (st, s1) = extend_segment_file e path (length (f_data f)) file_bytes s
      in if st \<noteq> OK then (st, s1)
         else let (x, s2) = sys_fsync e path s1
           in if x \<noteq> E_OK then (INTERNAL, s2)
              else let (st, s3) = verify_segment_extents e path file_bytes s2
                in if st \<noteq> OK then (st, s3) else publish_segment_ready e path f file_bytes s3)"

text \<open>Opening and locking: the lock of the file system first, then the file itself.\<close>

definition open_segment_file :: "penv \<Rightarrow> string \<Rightarrow> string \<Rightarrow> posix \<Rightarrow> fnode option \<times> posix" where
  "open_segment_file e path mount s =
     (let (x1, s1) = sys_open e True (mount @ ''/.tutti_segment_precreate.lock'') s
      in if x1 \<noteq> E_OK then (None, s1)
      else let (x2, s2) = sys e s1
      in if x2 \<noteq> E_OK then (None, s2)
      else let (x3, s3) = sys_open e True path s2
      in if x3 \<noteq> E_OK then (None, s3)
      else let (x4, s4) = sys e s3
      in if x4 \<noteq> E_OK then (None, s4)
      else let (x5, s5) = sys e s4
      in if x5 \<noteq> E_OK then (None, s5) else (px_files s5 path, s5))"

definition materialise_segment_file :: "penv \<Rightarrow> string \<Rightarrow> nat \<Rightarrow> posix \<Rightarrow> (StatusCode \<times> posix) option" where
  "materialise_segment_file e path file_bytes s =
     (if file_bytes = 0 \<or> \<not> is_aligned file_bytes then Some (INVALID_ARGUMENT, s)
      else let (st, s1) = ensure_directory e (parent_of path) s
        in if st \<noteq> OK then Some (st, s1)
           else case filesystem_lock_root e path s1 of
               None \<Rightarrow> None
             | Some ((st, mount), s2) \<Rightarrow>
                 if st \<noteq> OK then Some (st, s2)
                 else (case open_segment_file e path mount s2 of
                     (None, s3) \<Rightarrow> Some (INTERNAL, s3)
                   | (Some f, s3) \<Rightarrow>
                       if length (f_data f) > file_bytes then Some (INVALID_ARGUMENT, s3)
                       else let (r, s4) = read_ready_record e path f s3
                         in if r \<noteq> None \<and> unat (the r) = file_bytes \<and> length (f_data f) = file_bytes then Some (OK, s4)
                            else if r \<noteq> None \<and> unat (the r) \<noteq> file_bytes then Some (INVALID_ARGUMENT, s4)
                            else Some (fill_segment_file e path file_bytes f s4)))"

definition segment_file_is_ready :: "penv \<Rightarrow> string \<Rightarrow> nat \<Rightarrow> posix \<Rightarrow> (StatusCode \<times> bool) \<times> posix" where
  "segment_file_is_ready e path file_bytes s =
     (if file_bytes = 0 \<or> \<not> is_aligned file_bytes then ((INVALID_ARGUMENT, False), s)
      else let (x, s) = sys_open e False path s
        in if x = E_NOENT then ((OK, False), s)
           else if x \<noteq> E_OK then ((INTERNAL, False), s)
           else let (x, s) = sys e s
             in if x \<noteq> E_OK then ((INTERNAL, False), s)
                else let (x, s) = sys e s
                  in if x \<noteq> E_OK then ((INTERNAL, False), s)
                     else case px_files s path of None \<Rightarrow> ((INTERNAL, False), s)
                       | Some f \<Rightarrow> if length (f_data f) \<noteq> file_bytes then ((OK, False), s)
                           else let (r, s) = segment_ready e path f file_bytes s in ((OK, r), s))"

definition zero_file_range :: "penv \<Rightarrow> string \<Rightarrow> nat \<Rightarrow> nat \<Rightarrow> posix \<Rightarrow> StatusCode \<times> posix" where
  "zero_file_range e path offset bytes s =
     (if \<not> is_aligned offset \<or> \<not> is_aligned bytes then (INVALID_ARGUMENT, s)
      else let (x, s) = sys_open e False path s
        in if x \<noteq> E_OK then (INTERNAL, s)
           else let (st, s) = write_zeros e path offset bytes s
             in if st \<noteq> OK then (st, s)
                else let (x, s) = sys_fsync e path s in (if x \<noteq> E_OK then INTERNAL else OK, s))"

section \<open>Headers and containers\<close>

text \<open>Object headers and checkpoint containers are written by the same sequence of calls.\<close>

definition write_block :: "penv \<Rightarrow> string \<Rightarrow> nat \<Rightarrow> bytes \<Rightarrow> posix \<Rightarrow> StatusCode \<times> posix" where
  "write_block e path offset buf s =
     (if buf = [] \<or> \<not> is_aligned (length buf) then (INVALID_ARGUMENT, s)
      else if \<not> is_aligned offset then (INVALID_ARGUMENT, s)
      else let (ok, s) = aligned_buffer e (length buf) s
        in if \<not> ok then (INTERNAL, s)
           else let (x, s) = sys_open e False path s
             in if x \<noteq> E_OK then (INTERNAL, s)
                else let (st, s) = pwrite_loop e path offset buf 0 s
                  in if st \<noteq> OK then (st, s)
                     else let (x, s) = sys_fsync e path s in (if x \<noteq> E_OK then INTERNAL else OK, s))"

definition write_object_header :: "penv \<Rightarrow> string \<Rightarrow> nat \<Rightarrow> bytes \<Rightarrow> posix \<Rightarrow> StatusCode \<times> posix" where
  "write_object_header e path offset header s = write_block e path offset header s"

definition write_checkpoint_container :: "penv \<Rightarrow> string \<Rightarrow> nat \<Rightarrow> bytes \<Rightarrow> posix \<Rightarrow> StatusCode \<times> posix" where
  "write_checkpoint_container e path offset img s = write_block e path offset img s"

text \<open>Reading: the bytes found, padded with zeros to the size of the buffer.\<close>

definition read_block :: "penv \<Rightarrow> string \<Rightarrow> nat \<Rightarrow> nat \<Rightarrow> posix \<Rightarrow> (StatusCode \<times> bytes) \<times> posix" where
  "read_block e path offset n s =
     (if n = 0 \<or> \<not> is_aligned n then ((INVALID_ARGUMENT, []), s)
      else if \<not> is_aligned offset then ((INVALID_ARGUMENT, []), s)
      else let (x, s) = sys_open e False path s
        in if x = E_NOENT then ((NOT_FOUND, []), s)
           else if x \<noteq> E_OK then ((INTERNAL, []), s)
           else let (ok, s) = aligned_buffer e n s
             in if \<not> ok then ((INTERNAL, []), s) else pread_loop e path offset n [] s)"

definition read_object_header :: "penv \<Rightarrow> string \<Rightarrow> nat \<Rightarrow> nat \<Rightarrow> posix \<Rightarrow> (StatusCode \<times> bytes) \<times> posix" where
  "read_object_header e path offset n s =
     (case read_block e path offset n s of
        ((st, got), s) \<Rightarrow>
          if st \<noteq> OK then ((st, []), s)
          else if got = [] then ((NOT_FOUND, []), s)
          else ((OK, got @ replicate (n - length got) 0), s))"

definition read_checkpoint_container :: "penv \<Rightarrow> string \<Rightarrow> nat \<Rightarrow> nat \<Rightarrow> posix \<Rightarrow> (StatusCode \<times> bytes) \<times> posix" where
  "read_checkpoint_container e path offset n s =
     (case read_block e path offset n s of
        ((st, got), s) \<Rightarrow> if st \<noteq> OK then ((st, []), s) else ((OK, got @ replicate (n - length got) 0), s))"

definition ensure_metadata_file :: "penv \<Rightarrow> string \<Rightarrow> nat \<Rightarrow> posix \<Rightarrow> StatusCode \<times> posix" where
  "ensure_metadata_file e path bytes s =
     (if bytes = 0 \<or> \<not> is_aligned bytes then (INVALID_ARGUMENT, s)
      else let dir = parent_of path; (st, s) = ensure_directory e dir s
        in if st \<noteq> OK then (st, s)
           else let (x, s) = sys_open e True path s
             in if x \<noteq> E_OK then (INTERNAL, s)
                else let (x, s) = sys e s
                  in if x \<noteq> E_OK then (INTERNAL, s)
                     else if bytes \<le> (case px_files s path of None \<Rightarrow> 0 | Some f \<Rightarrow> length (f_data f)) then (OK, s)
                     else let (x, s) = sys_truncate e path bytes s
                       in if x \<noteq> E_OK then (INTERNAL, s)
                          else let (st, s) = write_zeros e path 0 bytes s
                            in if st \<noteq> OK then (st, s)
                               else let (x, s) = sys_fsync e path s
                                 in if x \<noteq> E_OK then (INTERNAL, s) else sync_directory e dir s)"

section \<open>What the loops do to files\<close>

lemma sys_pwrite_files:
  assumes "sys_pwrite e p buf off s = (r, s')"
  shows "r = Inl x \<Longrightarrow> px_files s' = px_files s"
    and "r = Inr n \<Longrightarrow> px_files s' = px_files (write_file p off (take n buf) s) \<and> n \<le> length buf"
proof -
  obtain x t where x: "sys e s = (x, t)" by (metis surj_pair)
  note f = sys_files [OF x]
  show "r = Inl x \<Longrightarrow> px_files s' = px_files s" for x using assms x f by (auto simp: sys_pwrite_def Let_def split: if_splits)
  show "r = Inr n \<Longrightarrow> px_files s' = px_files (write_file p off (take n buf) s) \<and> n \<le> length buf"
    using assms x f by (auto simp: sys_pwrite_def Let_def write_file_def split: if_splits option.splits)
qed

lemma pwrite_loop_step:
  assumes "written < length buf" "sys_pwrite e p (drop written buf) (offset + written) s = (r, s1)"
  shows "pwrite_loop e p offset buf written s =
    (case r of Inl E_INTR \<Rightarrow> pwrite_loop e p offset buf written s1 | Inl x \<Rightarrow> (INTERNAL, s1)
     | Inr n \<Rightarrow> if n = 0 then (INTERNAL, s1) else pwrite_loop e p offset buf (written + n) s1)"
  using assms by (subst pwrite_loop.simps) (auto split: sum.splits errno.splits)

lemma pwrite_loop_done: "\<not> written < length buf \<Longrightarrow> pwrite_loop e p offset buf written s = (OK, s)"
  by (simp add: pwrite_loop.simps)

text \<open>Whatever happens, a loop has written a prefix of what it was asked to write.\<close>

definition wrote_part :: "string \<Rightarrow> nat \<Rightarrow> bytes \<Rightarrow> StatusCode \<Rightarrow> posix \<Rightarrow> posix \<Rightarrow> bool" where
  "wrote_part p off bs st s s' \<longleftrightarrow> (\<exists>m\<le>length bs. px_files s' = px_files (write_file p off (take m bs) s) \<and> (st = OK \<longrightarrow> m = length bs))"

lemma wrote_none: "px_files s' = px_files s \<Longrightarrow> st \<noteq> OK \<or> bs = [] \<Longrightarrow> wrote_part p off bs st s s'"
  unfolding wrote_part_def by (rule exI [of _ 0]) (auto simp: write_file_def)

lemma wrote_more:
  assumes "px_files s1 = px_files (write_file p off (take n bs) s)" "n \<le> length bs" "wrote_part p (off + n) (drop n bs) st s1 s'"
  shows "wrote_part p off bs st s s'"
proof -
  obtain m where m: "m \<le> length bs - n" "px_files s' = px_files (write_file p (off + n) (take m (drop n bs)) s1)" "st = OK \<longrightarrow> m = length bs - n"
    using assms(3) by (auto simp: wrote_part_def)
  have "px_files s' = px_files (write_file p (off + length (take n bs)) (take m (drop n bs)) (write_file p off (take n bs) s))"
    using m(2) write_file_cong [OF assms(1)] assms(2) by simp
  then have "px_files s' = px_files (write_file p off (take (n + m) bs) s)" by (simp only: write_file_append take_add)
  then show ?thesis unfolding wrote_part_def using m(1,3) assms(2) by (intro exI [of _ "n + m"]) auto
qed

lemma wrote_skip: "px_files s1 = px_files s \<Longrightarrow> wrote_part p off bs st s1 s' \<Longrightarrow> wrote_part p off bs st s s'"
  unfolding wrote_part_def using write_file_cong by metis

lemma wrote_touched: "wrote_part p off bs st s s' \<Longrightarrow> touched p off (off + length bs) s s'"
proof -
  assume "wrote_part p off bs st s s'"
  then obtain m where m: "m \<le> length bs" "px_files s' = px_files (write_file p off (take m bs) s)" by (auto simp: wrote_part_def)
  have "touched p off (off + length bs) s (write_file p off (take m bs) s)" using m(1) by (intro touched_write) auto
  then show ?thesis using m(2) by (rule touched_cong)
qed

lemma pwrite_loop_wrote:
  "pwrite_loop e p offset buf written s = (st, s') \<Longrightarrow> wrote_part p (offset + written) (drop written buf) st s s'"
proof (induction e p offset buf written s arbitrary: st s' rule: pwrite_loop.induct)
  case (1 e p offset buf written s)
  show ?case
  proof (cases "written < length buf")
    case w: True
    obtain r s1 where r: "sys_pwrite e p (drop written buf) (offset + written) s = (r, s1)" by (metis surj_pair)
    note step = pwrite_loop_step [OF w r]
    consider "r = Inl E_INTR" | x where "r = Inl x" "x \<noteq> E_INTR" | "r = Inr 0" | n where "r = Inr n" "n \<noteq> 0" by (cases r) auto
    then show ?thesis
    proof cases
      case 1
      then have "wrote_part p (offset + written) (drop written buf) st s1 s'" using "1.prems" step by (intro "1.IH"(1) [OF w r [symmetric]]) simp_all
      then show ?thesis using sys_pwrite_files(1) [OF r 1] wrote_skip by blast
    next
      case 2
      then show ?thesis using "1.prems" step sys_pwrite_files(1) [OF r] by (cases x) (auto intro!: wrote_none)
    next
      case 3
      then show ?thesis using "1.prems" step sys_pwrite_files(2) [OF r 3] by (auto intro!: wrote_none simp: write_file_def)
    next
      case (4 n)
      then have "wrote_part p (offset + (written + n)) (drop (written + n) buf) st s1 s'"
        using "1.prems" step by (intro "1.IH"(2) [OF w r [symmetric]]) simp_all
      then have "wrote_part p (offset + written + n) (drop n (drop written buf)) st s1 s'" by (simp add: ac_simps)
      then show ?thesis using sys_pwrite_files(2) [OF r 4(1)] wrote_more by blast
    qed
  qed (use "1.prems" in \<open>auto simp: pwrite_loop_done intro: wrote_none\<close>)
qed

lemma zero_loop_step:
  assumes "written < bytes" "is_aligned (min (bytes - written) kZeroChunkBytes)"
    and "sys_pwrite e p (replicate (min (bytes - written) kZeroChunkBytes) 0) (offset + written) s = (r, s1)"
  shows "zero_loop e p offset bytes written s =
    (case r of Inl E_INTR \<Rightarrow> zero_loop e p offset bytes written s1 | Inl x \<Rightarrow> (INTERNAL, s1)
     | Inr n \<Rightarrow> if n = 0 then (INTERNAL, s1) else zero_loop e p offset bytes (written + n) s1)"
  using assms by (subst zero_loop.simps) (auto simp: Let_def split: sum.splits errno.splits)

lemma zero_loop_wrote:
  "zero_loop e p offset bytes written s = (st, s') \<Longrightarrow> wrote_part p (offset + written) (replicate (bytes - written) 0) st s s'"
proof (induction e p offset bytes written s arbitrary: st s' rule: zero_loop.induct)
  case (1 e p offset bytes written s)
  let ?c = "min (bytes - written) kZeroChunkBytes"
  show ?case
  proof (cases "written < bytes \<and> is_aligned ?c")
    case True
    then have w: "written < bytes" and a: "\<not> \<not> is_aligned ?c" by auto
    obtain r s1 where r: "sys_pwrite e p (replicate ?c 0) (offset + written) s = (r, s1)" by (metis surj_pair)
    note step = zero_loop_step [OF w a [simplified] r]
    consider "r = Inl E_INTR" | x where "r = Inl x" "x \<noteq> E_INTR" | "r = Inr 0" | n where "r = Inr n" "n \<noteq> 0" by (cases r) auto
    then show ?thesis
    proof cases
      case 1
      then have "wrote_part p (offset + written) (replicate (bytes - written) 0) st s1 s'"
        using "1.prems" step by (intro "1.IH"(1) [OF w refl a r [symmetric]]) simp_all
      then show ?thesis using sys_pwrite_files(1) [OF r 1] wrote_skip by blast
    next
      case 2
      then show ?thesis using "1.prems" step sys_pwrite_files(1) [OF r] by (cases x) (auto intro!: wrote_none)
    next
      case 3
      then show ?thesis using "1.prems" step sys_pwrite_files(2) [OF r 3] by (auto intro!: wrote_none simp: write_file_def)
    next
      case (4 n)
      then have "wrote_part p (offset + (written + n)) (replicate (bytes - (written + n)) 0) st s1 s'"
        using "1.prems" step by (intro "1.IH"(2) [OF w refl a r [symmetric]]) simp_all
      then have "wrote_part p (offset + written + n) (drop n (replicate (bytes - written) 0)) st s1 s'" by (simp add: ac_simps)
      moreover have n: "n \<le> length (replicate (bytes - written) (0 :: u8))" using sys_pwrite_files(2) [OF r 4(1)] by simp
      moreover have "take n (replicate ?c (0 :: u8)) = take n (replicate (bytes - written) 0)" using sys_pwrite_files(2) [OF r 4(1)] by simp
      ultimately show ?thesis using sys_pwrite_files(2) [OF r 4(1)] wrote_more by metis
    qed
  next
    case False
    then have "zero_loop e p offset bytes written s = (if written < bytes then INVALID_ARGUMENT else OK, s)"
      by (subst zero_loop.simps) (auto simp: Let_def)
    then show ?thesis using "1.prems" by (auto intro!: wrote_none split: if_splits)
  qed
qed

lemma aligned_buffer_files: "aligned_buffer e n s = (ok, s') \<Longrightarrow> px_files s' = px_files s"
  using sys_files [of e s] by (auto simp: aligned_buffer_def split: if_splits prod.splits)

lemma quiet_buffer: "quiet e \<Longrightarrow> aligned_buffer e n s = (ok, s') \<Longrightarrow> 0 < n \<Longrightarrow> ok"
  using quiet_sys by (auto simp: aligned_buffer_def split: prod.splits)

lemma write_zeros_wrote: "write_zeros e p off n s = (st, s') \<Longrightarrow> wrote_part p off (replicate n 0) st s s'"
proof -
  assume w: "write_zeros e p off n s = (st, s')"
  obtain ok s1 where b: "aligned_buffer e kZeroChunkBytes s = (ok, s1)" by (metis surj_pair)
  note f = aligned_buffer_files [OF b]
  show ?thesis
  proof (cases "n = 0 \<or> \<not> ok")
    case True
    then show ?thesis using w b f by (auto simp: write_zeros_def intro!: wrote_none split: if_splits)
  next
    case False
    then have "zero_loop e p off n 0 s1 = (st, s')" using w b by (simp add: write_zeros_def)
    then show ?thesis using zero_loop_wrote [of e p off n 0 s1] wrote_skip [OF f] by simp
  qed
qed

lemma wrote_synced:
  assumes "wrote_part p off bs OK s s'" "px_files s p = Some f" "bs \<noteq> []" "sys_fsync e p s' = (E_OK, s'')"
  shows "durable s'' p off bs"
proof -
  have "px_files s' = px_files (write_file p off bs s)" using assms(1) by (auto simp: wrote_part_def)
  then obtain f' where "px_files s' p = Some f'" "f_data f' = overwrite off bs (f_data f)" using assms(2,3) by (auto simp: write_file_def)
  then have "px_files s'' p = Some (f'\<lparr>f_dirty := {}\<rparr>)" "f_data (f'\<lparr>f_dirty := {}\<rparr>) = overwrite off bs (f_data f)"
    using fsync_clean [OF assms(4)] by auto
  then show ?thesis by (rule durable_written) simp
qed

text \<open>A header or container write: only the addressed bytes change, and success means they are durable.\<close>

lemma write_block_spec:
  assumes "write_block e p off buf s = (st, s')"
  shows "touched p off (off + length buf) s s'" and "st = OK \<Longrightarrow> durable s' p off buf"
proof -
  obtain ok s1 where b: "aligned_buffer e (length buf) s = (ok, s1)" by (metis surj_pair)
  obtain x s2 where o: "sys_open e False p s1 = (x, s2)" by (metis surj_pair)
  obtain st3 s3 where l: "pwrite_loop e p off buf 0 s2 = (st3, s3)" by (metis surj_pair)
  obtain y s4 where y: "sys_fsync e p s3 = (y, s4)" by (metis surj_pair)
  have f: "px_files s2 = px_files s" "px_files s1 = px_files s" and ex: "x = E_OK \<longrightarrow> px_files s2 p \<noteq> None"
    using aligned_buffer_files [OF b] open_files [OF o] by auto
  have w: "wrote_part p off buf st3 s2 s3" using pwrite_loop_wrote [OF l] by simp
  then have t: "touched p off (off + length buf) s s3" "touched p off (off + length buf) s s4"
    using wrote_touched [OF wrote_skip [OF f(1) w]] fsync_touched [OF y] touched_trans by blast+
  have n: "touched p off (off + length buf) s s" "touched p off (off + length buf) s s1" "touched p off (off + length buf) s s2"
    using f by (auto intro: touched_same)
  show "touched p off (off + length buf) s s'" using assms b o l y t n by (auto simp: write_block_def split: if_splits)
  assume "st = OK"
  then have "s' = s4" "x = E_OK" "st3 = OK" "y = E_OK" "buf \<noteq> []" using assms b o l y by (auto simp: write_block_def split: if_splits)
  then show "durable s' p off buf" using w ex y wrote_synced by blast
qed

lemma zero_range_spec:
  assumes "zero_file_range e p off n s = (st, s')"
  shows "touched p off (off + n) s s'" and "st = OK \<Longrightarrow> 0 < n \<Longrightarrow> durable s' p off (replicate n 0)"
proof -
  obtain x s2 where o: "sys_open e False p s = (x, s2)" by (metis surj_pair)
  obtain st3 s3 where l: "write_zeros e p off n s2 = (st3, s3)" by (metis surj_pair)
  obtain y s4 where y: "sys_fsync e p s3 = (y, s4)" by (metis surj_pair)
  have f: "px_files s2 = px_files s" and ex: "x = E_OK \<longrightarrow> px_files s2 p \<noteq> None" using open_files [OF o] by auto
  have w: "wrote_part p off (replicate n 0) st3 s2 s3" using write_zeros_wrote [OF l] .
  then have t: "touched p off (off + n) s s3" "touched p off (off + n) s s4"
    using wrote_touched [OF wrote_skip [OF f w]] fsync_touched [OF y] touched_trans by fastforce+
  have m: "touched p off (off + n) s s" "touched p off (off + n) s s2" using f by (auto intro: touched_same)
  show "touched p off (off + n) s s'" using assms o l y t m by (auto simp: zero_file_range_def split: if_splits)
  assume "st = OK" "0 < n"
  then have "s' = s4" "x = E_OK" "st3 = OK" "y = E_OK" "replicate n (0 :: u8) \<noteq> []" using assms o l y by (auto simp: zero_file_range_def split: if_splits)
  then show "durable s' p off (replicate n 0)" using w ex y wrote_synced by blast
qed

subsection \<open>Reads\<close>

lemma sys_pread_spec:
  assumes "sys_pread e p want off s = (r, s')"
  shows "px_files s' = px_files s" and "r = Inr bs \<Longrightarrow> \<exists>f k. px_files s p = Some f \<and> 1 \<le> k \<and> bs = take (min k want) (drop off (f_data f))"
    and "quiet e \<Longrightarrow> px_files s p \<noteq> None \<Longrightarrow> \<exists>bs. r = Inr bs"
proof -
  obtain x t where x: "sys e s = (x, t)" by (metis surj_pair)
  note f = sys_files [OF x]
  show "px_files s' = px_files s" using assms x f by (auto simp: sys_pread_def split: if_splits option.splits)
  show "r = Inr bs \<Longrightarrow> \<exists>f k. px_files s p = Some f \<and> 1 \<le> k \<and> bs = take (min k want) (drop off (f_data f))"
    using assms x f by (auto simp: sys_pread_def split: if_splits option.splits) (metis max.cobounded1)
  show "quiet e \<Longrightarrow> px_files s p \<noteq> None \<Longrightarrow> \<exists>bs. r = Inr bs"
    using assms x f quiet_sys [OF _ x] by (auto simp: sys_pread_def split: if_splits option.splits)
qed

lemma pread_loop_step:
  assumes "length got < want" "sys_pread e p (want - length got) (offset + length got) s = (r, s1)"
  shows "pread_loop e p offset want got s =
    (case r of Inl E_INTR \<Rightarrow> pread_loop e p offset want got s1 | Inl x \<Rightarrow> ((INTERNAL, got), s1)
     | Inr bs \<Rightarrow> if bs = [] then ((OK, got), s1) else pread_loop e p offset want (got @ bs) s1)"
  using assms by (subst pread_loop.simps) (auto split: sum.splits errno.splits)

lemma pread_loop_spec:
  assumes "px_files s p = Some f" "off + want \<le> length (f_data f)" "got = take (length got) (drop off (f_data f))" "length got \<le> want"
    and "pread_loop e p off want got s = ((st, out), s')"
  shows "px_files s' = px_files s \<and> (st = OK \<longrightarrow> out = take want (drop off (f_data f))) \<and> (quiet e \<longrightarrow> st = OK)"
  using assms
proof (induction e p off want got s arbitrary: st out s' rule: pread_loop.induct)
  case (1 e p off want got s)
  show ?case
  proof (cases "length got < want")
    case w: True
    obtain r s1 where r: "sys_pread e p (want - length got) (off + length got) s = (r, s1)" by (metis surj_pair)
    note step = pread_loop_step [OF w r] and fs = sys_pread_spec(1) [OF r]
    have q: "quiet e \<Longrightarrow> \<exists>bs. r = Inr bs" using sys_pread_spec(3) [OF r] "1.prems"(1) by auto
    consider "r = Inl E_INTR" | x where "r = Inl x" "x \<noteq> E_INTR" | bs where "r = Inr bs" by (cases r) auto
    then show ?thesis
    proof cases
      case 1
      then have "px_files s' = px_files s1 \<and> (st = OK \<longrightarrow> out = take want (drop off (f_data f))) \<and> (quiet e \<longrightarrow> st = OK)"
        using "1.prems" fs step by (intro "1.IH"(1) [OF w r [symmetric]]) simp_all
      then show ?thesis using fs by simp
    next
      case 2
      then show ?thesis using "1.prems"(5) fs q step by (cases x) auto
    next
      case (3 bs)
      obtain k where k: "1 \<le> k" "bs = take (min k (want - length got)) (drop (off + length got) (f_data f))"
        using sys_pread_spec(2) [OF r 3] "1.prems"(1) by auto
      then have l: "length bs = min k (want - length got)" using "1.prems"(2) by simp
      then have ne: "bs \<noteq> []" using k(1) w by auto
      have "got @ bs = take (length (got @ bs)) (drop off (f_data f))"
        using "1.prems"(3) k(2) l by (simp add: take_add add.commute [of off] flip: drop_drop)
      moreover have "length (got @ bs) \<le> want" using l w by simp
      moreover have "pread_loop e p off want (got @ bs) s1 = ((st, out), s')" using "1.prems"(5) step 3 ne by simp
      ultimately have "px_files s' = px_files s1 \<and> (st = OK \<longrightarrow> out = take want (drop off (f_data f))) \<and> (quiet e \<longrightarrow> st = OK)"
        using "1.prems"(1,2) fs 3 ne by (intro "1.IH"(2) [OF w r [symmetric]]) (assumption | simp)+
      then show ?thesis using fs by simp
    qed
  next
    case False
    then have "pread_loop e p off want got s = ((OK, got), s)" "length got = want" using "1.prems"(4) by (auto simp: pread_loop.simps)
    then show ?thesis using "1.prems"(3,5) by auto
  qed
qed

lemma read_block_spec:
  assumes "read_block e p off n s = ((st, out), s')"
  shows "px_files s p = Some f \<Longrightarrow> off + n \<le> length (f_data f) \<Longrightarrow> st = OK \<Longrightarrow> out = take n (drop off (f_data f))"
    and "px_files s p = Some f \<Longrightarrow> off + n \<le> length (f_data f) \<Longrightarrow> quiet e \<Longrightarrow> is_aligned n \<Longrightarrow> is_aligned off \<Longrightarrow> 0 < n \<Longrightarrow> st = OK"
proof -
  obtain x s1 where o: "sys_open e False p s = (x, s1)" by (metis surj_pair)
  obtain ok s2 where b: "aligned_buffer e n s1 = (ok, s2)" by (metis surj_pair)
  obtain st3 o3 s3 where l: "pread_loop e p off n [] s2 = ((st3, o3), s3)" by (metis prod_cases3 prod.collapse)
  have f: "px_files s1 = px_files s" "px_files s2 = px_files s" using open_files [OF o] aligned_buffer_files [OF b] by auto
  have L: "px_files s p = Some f \<Longrightarrow> off + n \<le> length (f_data f) \<Longrightarrow>
      px_files s3 = px_files s2 \<and> (st3 = OK \<longrightarrow> o3 = take n (drop off (f_data f))) \<and> (quiet e \<longrightarrow> st3 = OK)"
    using f by (intro pread_loop_spec [OF _ _ _ _ l]) simp_all
  show "px_files s p = Some f \<Longrightarrow> off + n \<le> length (f_data f) \<Longrightarrow> st = OK \<Longrightarrow> out = take n (drop off (f_data f))"
    using assms o b l L by (auto simp: read_block_def split: if_splits)
  assume h: "px_files s p = Some f" "off + n \<le> length (f_data f)" "quiet e" "is_aligned n" "is_aligned off" "0 < n"
  have "x = E_OK"
  proof -
    obtain y t where y: "sys e s = (y, t)" by (metis surj_pair)
    then show ?thesis using o h(1) quiet_sys [OF h(3) y] sys_files [OF y] by (auto simp: sys_open_def)
  qed
  moreover have "ok" using quiet_buffer [OF h(3) b h(6)] .
  ultimately show "st = OK" using assms o b l L h by (auto simp: read_block_def)
qed

lemma pread_loop_files: "pread_loop e p off want got s = (r, s') \<Longrightarrow> px_files s' = px_files s"
proof (induction e p off want got s arbitrary: r s' rule: pread_loop.induct)
  case (1 e p off want got s)
  show ?case
  proof (cases "length got < want")
    case w: True
    obtain r' s1 where r: "sys_pread e p (want - length got) (off + length got) s = (r', s1)" by (metis surj_pair)
    note step = pread_loop_step [OF w r] and fs = sys_pread_spec(1) [OF r]
    consider "r' = Inl E_INTR" | x where "r' = Inl x" "x \<noteq> E_INTR" | "r' = Inr []" | bs where "r' = Inr bs" "bs \<noteq> []" by (cases r') auto
    then show ?thesis
    proof cases
      case 1
      then have "px_files s' = px_files s1" using "1.prems" step by (intro "1.IH"(1) [OF w r [symmetric]]) simp_all
      then show ?thesis using fs by simp
    next
      case 2
      then show ?thesis using "1.prems" fs step by (cases x) auto
    next
      case 3
      then show ?thesis using "1.prems" fs step by auto
    next
      case (4 bs)
      then have "px_files s' = px_files s1" using "1.prems" step by (intro "1.IH"(2) [OF w r [symmetric]]) simp_all
      then show ?thesis using fs by simp
    qed
  qed (use "1.prems" in \<open>auto simp: pread_loop.simps\<close>)
qed

lemma read_block_files: "read_block e p off n s = (r, s') \<Longrightarrow> px_files s' = px_files s"
  by (auto simp: read_block_def split: if_splits prod.splits dest!: open_files aligned_buffer_files pread_loop_files)

lemma read_header_files: "read_object_header e p off n s = (r, s') \<Longrightarrow> px_files s' = px_files s"
  by (auto simp: read_object_header_def split: prod.splits if_splits dest!: read_block_files)

lemma read_container_files: "read_checkpoint_container e p off n s = (r, s') \<Longrightarrow> px_files s' = px_files s"
  by (auto simp: read_checkpoint_container_def split: prod.splits if_splits dest!: read_block_files)

lemma read_header_content:
  assumes "read_object_header e p off (length bs) s = ((st, out), s')" "content s p off bs" "bs \<noteq> []"
  shows "st = OK \<Longrightarrow> out = bs" and "quiet e \<Longrightarrow> is_aligned (length bs) \<Longrightarrow> is_aligned off \<Longrightarrow> st = OK"
proof -
  obtain st1 got s1 where r: "read_block e p off (length bs) s = ((st1, got), s1)" by (metis prod_cases3 prod.collapse)
  obtain f where f: "px_files s p = Some f" "off + length bs \<le> length (f_data f)" "take (length bs) (drop off (f_data f)) = bs"
    using assms(2) by (auto simp: content_def)
  have g: "st1 = OK \<Longrightarrow> got = bs" using read_block_spec(1) [OF r f(1,2)] f(3) by simp
  show "st = OK \<Longrightarrow> out = bs" using assms(1) r g by (auto simp: read_object_header_def split: if_splits)
  show "quiet e \<Longrightarrow> is_aligned (length bs) \<Longrightarrow> is_aligned off \<Longrightarrow> st = OK"
    using assms r g read_block_spec(2) [OF r f(1,2)] by (auto simp: read_object_header_def)
qed

lemma read_container_content:
  assumes "read_checkpoint_container e p off (length bs) s = ((st, out), s')" "content s p off bs" "bs \<noteq> []"
  shows "st = OK \<Longrightarrow> out = bs" and "quiet e \<Longrightarrow> is_aligned (length bs) \<Longrightarrow> is_aligned off \<Longrightarrow> st = OK"
proof -
  obtain st1 got s1 where r: "read_block e p off (length bs) s = ((st1, got), s1)" by (metis prod_cases3 prod.collapse)
  obtain f where f: "px_files s p = Some f" "off + length bs \<le> length (f_data f)" "take (length bs) (drop off (f_data f)) = bs"
    using assms(2) by (auto simp: content_def)
  have g: "st1 = OK \<Longrightarrow> got = bs" using read_block_spec(1) [OF r f(1,2)] f(3) by simp
  show "st = OK \<Longrightarrow> out = bs" using assms(1) r g by (auto simp: read_checkpoint_container_def split: if_splits)
  show "quiet e \<Longrightarrow> is_aligned (length bs) \<Longrightarrow> is_aligned off \<Longrightarrow> st = OK"
    using assms r g read_block_spec(2) [OF r f(1,2)] by (auto simp: read_checkpoint_container_def)
qed

end
