(* ===== verification/Store_MediaProps.thy ===== *)
theory Store_MediaProps
  imports Store_Media
begin

text \<open>
  What materialising a segment file guarantees: the walk to the file-system root ends for absolute
  paths and not for relative ones, verified extents tile the file, no byte of an existing file is
  changed, and a ready marker only appears on a complete, synced and verified file.
\<close>

section \<open>The walk to the root of the file system\<close>

lemma last_slash_Some:
  assumes "last_slash p = Some n"
  shows "n < length p" "p ! n = CHR ''/''"
proof -
  let ?t = "takeWhile (\<lambda>c. c \<noteq> CHR ''/'') (rev p)"
  have l: "length ?t < length p" and n: "n = length p - length ?t - 1"
    using assms length_takeWhile_le [of "\<lambda>c. c \<noteq> CHR ''/''" "rev p"] by (auto simp: last_slash_def Let_def split: if_splits)
  then show "n < length p" by simp
  have "rev p ! length ?t = CHR ''/''" using nth_length_takeWhile [of "\<lambda>c. c \<noteq> CHR ''/''" "rev p"] l by simp
  then show "p ! n = CHR ''/''" using l n by (simp add: rev_nth)
qed

lemma last_slash_None: "last_slash p = None \<Longrightarrow> CHR ''/'' \<notin> set p"
proof -
  assume "last_slash p = None"
  then have "length (takeWhile (\<lambda>c. c \<noteq> CHR ''/'') (rev p)) = length (rev p)" by (simp add: last_slash_def Let_def split: if_splits)
  then have "takeWhile (\<lambda>c. c \<noteq> CHR ''/'') (rev p) = rev p" by (metis takeWhile_eq_take take_all order_refl)
  then show ?thesis by (metis set_rev set_takeWhileD)
qed

definition absolute :: "string \<Rightarrow> bool" where "absolute p \<longleftrightarrow> (\<exists>r. p = CHR ''/'' # r)"

lemma parent_absolute:
  assumes "absolute p" "p \<noteq> ''/''"
  shows "absolute (parent_of p)" "length (parent_of p) < length p"
proof -
  obtain c r where p: "p = CHR ''/'' # c # r" using assms by (metis absolute_def list.exhaust)
  obtain n where n: "last_slash p = Some n" using last_slash_None [of p] p by (cases "last_slash p") auto
  have "n < length p" using last_slash_Some(1) [OF n] .
  then show "absolute (parent_of p)" "length (parent_of p) < length p"
    using n p by (auto simp: parent_of_def absolute_def split: nat.splits)
qed

lemma lock_root_loop_total: "absolute dir \<Longrightarrow> \<exists>r. lock_root_loop e dir d s = Some r"
proof (induction "length dir" arbitrary: dir d s rule: less_induct)
  case less
  show ?case
  proof (cases "dir = ''/''")
    case True
    then show ?thesis by (simp add: lock_root_loop.simps)
  next
    case False
    note p = parent_absolute [OF less.prems False]
    show ?thesis using less.hyps [OF p(2,1)] False by (subst lock_root_loop.simps) (auto simp: Let_def split: prod.splits)
  qed
qed

lemma lock_root_total: "absolute p \<Longrightarrow> p \<noteq> ''/'' \<Longrightarrow> \<exists>r. filesystem_lock_root e p s = Some r"
  using lock_root_loop_total [OF parent_absolute(1), of p e] by (auto simp: filesystem_lock_root_def Let_def split: prod.splits)

text \<open>Below the current directory the walk never ends: the parent of \<open>.\<close> is \<open>.\<close> again.\<close>

lemma parent_dot: "parent_of ''.'' = ''.''"
  by (simp add: parent_of_def last_slash_def Let_def)

lemma lock_root_loop_never: "lock_root_loop e dir d s = Some r \<Longrightarrow> quiet e \<longrightarrow> dir \<noteq> ''.'' \<or> d \<noteq> pe_dev e ''.''"
proof (erule lock_root_loop.raw_induct [rotated], intro impI)
  fix f :: "penv \<Rightarrow> string \<Rightarrow> u64 \<Rightarrow> posix \<Rightarrow> ((StatusCode \<times> string) \<times> posix) option" and e dir d s r
  assume h: "\<And>e dir d s r. f e dir d s = Some r \<Longrightarrow> quiet e \<longrightarrow> dir \<noteq> ''.'' \<or> d \<noteq> pe_dev e ''.''" and q: "quiet e"
    and b: "(if dir = ''/'' then Some ((OK, dir), s)
      else let parent = parent_of dir; (x, s) = sys e s
        in if x \<noteq> E_OK then Some ((INTERNAL, ''''), s)
           else if pe_dev e parent \<noteq> d then Some ((OK, dir), s)
           else f e parent (pe_dev e parent) s) = Some r"
  obtain x t where x: "sys e s = (x, t)" by (metis surj_pair)
  have "x = E_OK" using quiet_sys [OF q x] .
  then show "dir \<noteq> ''.'' \<or> d \<noteq> pe_dev e ''.''" using h b x q by (auto simp: Let_def parent_dot split: if_splits)
qed

lemma lock_root_loop_diverges: "quiet e \<Longrightarrow> lock_root_loop e ''.'' (pe_dev e ''.'') s = None"
  using lock_root_loop_never by (metis not_Some_eq)

section \<open>Extents\<close>

text \<open>Safe extents that follow each other from one position to another, and how many physically
  contiguous runs they form.\<close>

fun tiles :: "nat \<Rightarrow> nat \<Rightarrow> fiemap_extent list \<Rightarrow> nat \<Rightarrow> bool" where
  "tiles file_bytes cursor [] c' \<longleftrightarrow> cursor = c'"
| "tiles file_bytes cursor (x # xs) c' \<longleftrightarrow> \<not> extent_unsafe file_bytes cursor x \<and> tiles file_bytes (cursor + fe_length x) xs c'"

fun runs :: "nat option \<Rightarrow> fiemap_extent list \<Rightarrow> nat" where
  "runs prev [] = 0"
| "runs prev (x # xs) = (if prev = Some (fe_physical x) then 0 else 1) + runs (Some (fe_physical x + fe_length x)) xs"

fun last_end :: "nat option \<Rightarrow> fiemap_extent list \<Rightarrow> nat option" where
  "last_end prev [] = prev"
| "last_end prev (x # xs) = last_end (Some (fe_physical x + fe_length x)) xs"

lemma runs_append: "runs prev (xs @ ys) = runs prev xs + runs (last_end prev xs) ys"
  by (induction xs arbitrary: prev) simp_all

lemma tiles_append: "tiles fb c (xs @ ys) c'' \<longleftrightarrow> (\<exists>c'. tiles fb c xs c' \<and> tiles fb c' ys c'')"
  by (induction xs arbitrary: c) auto

lemma extent_batch_spec:
  assumes "extent_batch fb (c, pe, n) xs = Inr (c', pe', n')" "n \<le> 124"
  shows "tiles fb c xs c' \<and> n' = n + runs (if n = 0 then None else Some pe) xs \<and> n' \<le> 124 \<and>
    (if n' = 0 then None else Some pe') = last_end (if n = 0 then None else Some pe) xs"
  using assms
proof (induction xs arbitrary: c pe n)
  case (Cons x xs)
  define m where "m = (if n = 0 \<or> fe_physical x \<noteq> pe then Suc n else n)"
  have m: "\<not> extent_unsafe fb c x" "m \<le> 124" "extent_batch fb (c + fe_length x, fe_physical x + fe_length x, m) xs = Inr (c', pe', n')"
    using Cons.prems by (auto simp: m_def Let_def split: if_splits)
  moreover have "0 < m" by (simp add: m_def)
  moreover have "m = n + (if (if n = 0 then None else Some pe) = Some (fe_physical x) then 0 else 1)" by (auto simp: m_def)
  ultimately show ?case using Cons.IH [OF m(3,2)] by auto
qed auto

lemma extent_batch_error: "extent_batch fb st xs = Inl r \<Longrightarrow> r \<noteq> OK"
  by (induction fb st xs rule: extent_batch.induct) (auto simp: Let_def split: if_splits)

lemma tiles_le: "tiles fb c xs c' \<Longrightarrow> c \<le> fb \<Longrightarrow> c' \<le> fb"
  by (induction xs arbitrary: c) (auto simp: extent_unsafe_def)

lemma verify_loop_step:
  assumes "verify_loop e p fb (c, pe, n) s = (OK, s')" "c < fb"
  shows "\<exists>c' pe' n' t. extent_batch fb (c, pe, n) (pe_fiemap e (px_tick s) p c (fb - c)) = Inr (c', pe', n') \<and>
    pe_fiemap e (px_tick s) p c (fb - c) \<noteq> [] \<and> verify_loop e p fb (c', pe', n') t = (OK, s')"
proof -
  obtain x t where x: "sys e s = (x, t)" by (metis surj_pair)
  let ?xs = "pe_fiemap e (px_tick s) p c (fb - c)"
  have l: "verify_loop e p fb (c, pe, n) s = (if x \<noteq> E_OK then (INTERNAL, t) else if ?xs = [] then (DATA_LOSS, t)
      else case extent_batch fb (c, pe, n) ?xs of Inl r \<Rightarrow> (r, t) | Inr st' \<Rightarrow> verify_loop e p fb st' t)"
    using assms(2) x by (subst verify_loop.simps) (simp add: Let_def)
  then have ok: "x = E_OK" "?xs \<noteq> []" using assms(1) by (auto split: if_splits)
  show ?thesis
  proof (cases "extent_batch fb (c, pe, n) ?xs")
    case (Inl r)
    then show ?thesis using extent_batch_error [OF Inl] l ok assms(1) by simp
  next
    case (Inr st')
    then show ?thesis using l ok assms(1) by (cases st') auto
  qed
qed

lemma verify_loop_spec:
  assumes "verify_loop e p fb (c, pe, n) s = (OK, s')" "n \<le> 124" "c \<le> fb"
  shows "\<exists>xs. tiles fb c xs fb \<and> n + runs (if n = 0 then None else Some pe) xs \<le> 124 \<and>
    (\<forall>x\<in>set xs. \<exists>t c. x \<in> set (pe_fiemap e t p c (fb - c)))"
  using assms
proof (induction "fb - c" arbitrary: c pe n s rule: less_induct)
  case less
  show ?case
  proof (cases "c < fb")
    case c: True
    let ?xs = "pe_fiemap e (px_tick s) p c (fb - c)"
    obtain c' pe' n' t where b: "extent_batch fb (c, pe, n) ?xs = Inr (c', pe', n')" "?xs \<noteq> []" "verify_loop e p fb (c', pe', n') t = (OK, s')"
      using verify_loop_step [OF less.prems(1) c] by blast
    note b' = extent_batch_spec [OF b(1) less.prems(2)]
    have le: "c < c'" "c' \<le> fb" using extent_batch_advances [OF b(1)] b(2) tiles_le [of fb c ?xs c'] b' c by auto
    then obtain ys where ys: "tiles fb c' ys fb" "n' + runs (if n' = 0 then None else Some pe') ys \<le> 124"
        "\<forall>x\<in>set ys. \<exists>t c. x \<in> set (pe_fiemap e t p c (fb - c))"
      using less.hyps [OF _ b(3)] b' c by (metis diff_less_mono2)
    have "tiles fb c (?xs @ ys) fb" using b' ys(1) tiles_append by blast
    moreover have "n + runs (if n = 0 then None else Some pe) (?xs @ ys) \<le> 124"
    proof -
      have l: "last_end (if n = 0 then None else Some pe) ?xs = (if n' = 0 then None else Some pe')" by (rule sym) (use b' in blast)
      have m: "n + runs (if n = 0 then None else Some pe) ?xs = n'" by (rule sym) (use b' in blast)
      show ?thesis using ys(2) by (simp only: runs_append l m add.assoc [symmetric])
    qed
    moreover have "\<forall>x\<in>set (?xs @ ys). \<exists>t c. x \<in> set (pe_fiemap e t p c (fb - c))" using ys(3) by auto
    ultimately show ?thesis by blast
  next
    case False
    then have "c = fb" using less.prems(3) by simp
    then show ?thesis using less.prems(2) by (intro exI [of _ "[]"]) simp
  qed
qed

definition extents_verified :: "penv \<Rightarrow> string \<Rightarrow> nat \<Rightarrow> bool" where
  "extents_verified e p fb \<longleftrightarrow> (\<exists>xs. tiles fb 0 xs fb \<and> runs None xs \<le> 124 \<and> (\<forall>x\<in>set xs. \<exists>t c. x \<in> set (pe_fiemap e t p c (fb - c))))"

lemma verify_extents: "verify_segment_extents e p fb s = (OK, s') \<Longrightarrow> extents_verified e p fb"
  using verify_loop_spec [of e p fb 0 0 0 s s'] by (auto simp: verify_segment_extents_def extents_verified_def)

lemma verify_loop_files: "verify_loop e p fb st s = (r, s') \<Longrightarrow> px_files s' = px_files s"
proof (induction e p fb st s arbitrary: r s' rule: verify_loop.induct)
  case (1 e p fb st s)
  obtain x t where x: "sys e s = (x, t)" by (metis surj_pair)
  show ?case
  proof (cases "fst st < fb \<and> x = E_OK \<and> pe_fiemap e (px_tick s) p (fst st) (fb - fst st) \<noteq> []")
    case True
    then show ?thesis
    proof (cases "extent_batch fb st (pe_fiemap e (px_tick s) p (fst st) (fb - fst st))")
      case (Inr st')
      then have "verify_loop e p fb st' t = (r, s')" using "1.prems" True x by (subst (asm) verify_loop.simps) (simp add: Let_def)
      then have "px_files s' = px_files t" using True Inr x by (intro "1.IH") auto
      then show ?thesis using sys_files [OF x] by simp
    qed (use "1.prems" True x sys_files [OF x] in \<open>subst (asm) verify_loop.simps, simp add: Let_def\<close>)
  qed (use "1.prems" x sys_files [OF x] in \<open>subst (asm) verify_loop.simps, auto simp: Let_def split: if_splits\<close>)
qed

section \<open>Materialisation\<close>

lemma ensure_dir_char_files: "ensure_dir_char e path i (st, s) = (st', s') \<Longrightarrow> px_files s' = px_files s"
  by (auto simp: ensure_dir_char_def Let_def split: if_splits prod.splits dest!: mkdir_files)

lemma ensure_directory_files: "ensure_directory e path s = (st, s') \<Longrightarrow> px_files s' = px_files s"
proof -
  assume d: "ensure_directory e path s = (st, s')"
  have "px_files (snd (fold (ensure_dir_char e path) is (st, t))) = px_files t" for "is" t st
  proof (induction "is" arbitrary: t st)
    case (Cons i "is")
    obtain st' t' where "ensure_dir_char e path i (st, t) = (st', t')" by (metis surj_pair)
    then show ?case using Cons ensure_dir_char_files by simp
  qed simp
  from this [of "[0..<length path]" OK s] show ?thesis using d by (auto simp: ensure_directory_def split: if_splits)
qed

lemma lock_root_loop_files: "lock_root_loop e dir d s = Some r \<Longrightarrow> px_files (snd r) = px_files s"
proof (erule lock_root_loop.raw_induct [rotated])
  fix f :: "penv \<Rightarrow> string \<Rightarrow> u64 \<Rightarrow> posix \<Rightarrow> ((StatusCode \<times> string) \<times> posix) option" and e dir d s r
  assume h: "\<And>e dir d s r. f e dir d s = Some r \<Longrightarrow> px_files (snd r) = px_files s"
    and b: "(if dir = ''/'' then Some ((OK, dir), s)
      else let parent = parent_of dir; (x, s) = sys e s
        in if x \<noteq> E_OK then Some ((INTERNAL, ''''), s)
           else if pe_dev e parent \<noteq> d then Some ((OK, dir), s)
           else f e parent (pe_dev e parent) s) = Some r"
  obtain x t where x: "sys e s = (x, t)" by (metis surj_pair)
  then show "px_files (snd r) = px_files s" using h b sys_files [OF x] by (auto simp: Let_def split: if_splits)
qed

lemma lock_root_files: "filesystem_lock_root e p s = Some ((st, m), s') \<Longrightarrow> px_files s' = px_files s"
  by (auto simp: filesystem_lock_root_def Let_def split: prod.splits if_splits dest!: sys_files lock_root_loop_files)

lemma open_create_spec:
  assumes "sys_open e True p s = (x, s')"
  shows "q \<noteq> p \<Longrightarrow> px_files s' q = px_files s q" and "x = E_OK \<Longrightarrow> px_files s' p \<noteq> None"
  using assms sys_files [of e s] by (auto simp: sys_open_def split: if_splits option.splits prod.splits)

lemma open_segment_spec:
  assumes "open_segment_file e p m s = (r, s')"
  shows "kept A s s'" and "r = Some f \<Longrightarrow> px_files s' p = Some f" and "q \<noteq> p \<Longrightarrow> last q \<noteq> CHR ''k'' \<Longrightarrow> px_files s' q = px_files s q"
proof -
  obtain x1 s1 where 1: "sys_open e True (m @ ''/.tutti_segment_precreate.lock'') s = (x1, s1)" by (metis surj_pair)
  obtain x2 s2 where 2: "sys e s1 = (x2, s2)" by (metis surj_pair)
  obtain x3 s3 where 3: "sys_open e True p s2 = (x3, s3)" by (metis surj_pair)
  obtain x4 s4 where 4: "sys e s3 = (x4, s4)" by (metis surj_pair)
  obtain x5 s5 where 5: "sys e s4 = (x5, s5)" by (metis surj_pair)
  note f = sys_files [OF 2] sys_files [OF 4] sys_files [OF 5]
  have k: "kept A s s1" "kept A s s2" "kept A s s3" "kept A s s4" "kept A s s5"
    using open_kept [OF 1, of A] open_kept [OF 3, of A] f by (auto intro: kept_cong kept_trans)
  show "kept A s s'" using assms 1 2 3 4 5 k by (auto simp: open_segment_file_def split: if_splits)
  show "r = Some f \<Longrightarrow> px_files s' p = Some f" using assms 1 2 3 4 5 by (auto simp: open_segment_file_def split: if_splits)
  assume q: "q \<noteq> p" "last q \<noteq> CHR ''k''"
  have "q \<noteq> m @ ''/.tutti_segment_precreate.lock''" using q(2) by auto
  then have "px_files s1 q = px_files s q" "px_files s3 q = px_files s2 q" using open_create_spec(1) [OF 1] open_create_spec(1) [OF 3] q by auto
  then show "px_files s' q = px_files s q" using assms 1 2 3 4 5 f by (auto simp: open_segment_file_def split: if_splits)
qed

text \<open>A marker that vouches for the present file.\<close>

definition marked :: "penv \<Rightarrow> posix \<Rightarrow> string \<Rightarrow> nat \<Rightarrow> bool" where
  "marked e s p fb \<longleftrightarrow> (\<exists>f m. px_files s p = Some f \<and> px_files s (p @ ''.ready'') = Some m \<and> 24 \<le> length (f_data m) \<and>
     load_u64 (f_data m) = of_nat fb \<and> load_u64 (drop 8 (f_data m)) = pe_dev e p \<and> load_u64 (drop 16 (f_data m)) = f_ino f)"

lemma read_ready_files: "read_ready_record e p f s = (r, s') \<Longrightarrow> px_files s' = px_files s"
  by (auto simp: read_ready_record_def Let_def split: if_splits prod.splits sum.splits dest!: open_files sys_pread_spec(1))

lemma load_take: "8 \<le> n \<Longrightarrow> load_u64 (take n bs) = load_u64 bs"
  by (rule load_u64_cong) simp

lemma read_ready_marked:
  assumes "read_ready_record e p f s = (Some r, s')" "px_files s p = Some f" "unat r = fb"
  shows "marked e s' p fb"
proof -
  obtain x s1 where 1: "sys_open e False (p @ ''.ready'') s = (x, s1)" by (metis surj_pair)
  obtain y s2 where 2: "sys_pread e (p @ ''.ready'') 24 0 s1 = (y, s2)" by (metis surj_pair)
  obtain bs where b: "y = Inr bs" "length bs = 24" "load_u64 (drop 8 bs) = pe_dev e p" "load_u64 (drop 16 bs) = f_ino f" "r = load_u64 bs" "s' = s2"
    using assms(1) 1 2 by (auto simp: read_ready_record_def split: if_splits sum.splits)
  obtain m k where m: "px_files s1 (p @ ''.ready'') = Some m" "bs = take (min k 24) (f_data m)" using sys_pread_spec(2) [OF 2 b(1)] by auto
  then have t: "bs = take 24 (f_data m)" "24 \<le> length (f_data m)" using b(2) by auto
  have "load_u64 (drop 8 bs) = load_u64 (drop 8 (f_data m))" "load_u64 (drop 16 bs) = load_u64 (drop 16 (f_data m))" "load_u64 bs = load_u64 (f_data m)"
    by (simp_all add: t drop_take load_take)
  moreover have "px_files s2 = px_files s" using open_files [OF 1] sys_pread_spec(1) [OF 2] by simp
  moreover have "r = of_nat fb" using assms(3) by auto
  ultimately show ?thesis using b t m(1) assms(2) open_files [OF 1] by (simp add: marked_def)
qed

lemma sync_directory_files: "sync_directory e p s = (st, s') \<Longrightarrow> px_files s' = px_files s"
  by (auto simp: sync_directory_def split: if_splits prod.splits dest!: sys_files)

text \<open>Publishing writes the marker and its pending copy only, and the marker appears with its full content.\<close>

lemma publish_spec:
  assumes "publish_segment_ready e p f fb s = (st, s')"
  shows "kept {p @ ''.ready.pending'', p @ ''.ready''} s s'" and "q \<noteq> p @ ''.ready.pending'' \<Longrightarrow> q \<noteq> p @ ''.ready'' \<Longrightarrow> px_files s' q = px_files s q"
    and "st = OK \<Longrightarrow> px_files s p = Some f' \<Longrightarrow> f_ino f' = f_ino f \<Longrightarrow> marked e s' p fb"
proof -
  let ?pd = "p @ ''.ready.pending''" and ?mk = "p @ ''.ready''"
  let ?rec = "store_u64 (of_nat fb) @ store_u64 (pe_dev e p) @ store_u64 (f_ino f)"
  obtain x1 s1 where 1: "sys_open e True ?pd s = (x1, s1)" by (metis surj_pair)
  obtain r s2 where 2: "sys_pwrite e ?pd ?rec 0 (truncate_file ?pd s1) = (r, s2)" by (metis surj_pair)
  obtain x3 s3 where 3: "sys_fsync e ?pd s2 = (x3, s3)" by (metis surj_pair)
  obtain x4 s4 where 4: "sys_rename e ?pd ?mk s3 = (x4, s4)" by (metis surj_pair)
  obtain st5 s5 where 5: "sync_directory e (parent_of p) s4 = (st5, s5)" by (metis surj_pair)
  note f5 = sync_directory_files [OF 5]
  have e1: "px_files s1 q = px_files s q" if "q \<noteq> ?pd" for q using open_create_spec(1) [OF 1 that] .
  have e2: "px_files s2 q = px_files s q" if "q \<noteq> ?pd" for q
    using e1 [OF that] that sys_pwrite_files [OF 2] by (cases r) (auto simp: truncate_file_def write_file_def split: if_splits option.splits)
  have e3: "px_files s3 q = px_files s q" if "q \<noteq> ?pd" for q
    using e2 [OF that] that 3 sys_files [of e s2] by (auto simp: sys_fsync_def split: if_splits prod.splits)
  have e4: "px_files s4 q = px_files s q" if "q \<noteq> ?pd" "q \<noteq> ?mk" for q
    using e3 [OF that(1)] that 4 sys_files [of e s3] by (auto simp: sys_rename_def split: if_splits prod.splits)
  have out: "s' = s1 \<or> s' = s2 \<or> s' = s3 \<or> s' = s4 \<or> s' = s5" using assms 1 2 3 4 5 by (auto simp: publish_segment_ready_def Let_def split: if_splits)
  then show same: "q \<noteq> ?pd \<Longrightarrow> q \<noteq> ?mk \<Longrightarrow> px_files s' q = px_files s q" for q using e1 e2 e3 e4 f5 by auto
  then show "kept {?pd, ?mk} s s'" by (auto simp: kept_def)
  assume ok: "st = OK" "px_files s p = Some f'" "f_ino f' = f_ino f"
  then have ok': "x1 = E_OK" "r = Inr 24" "x3 = E_OK" "x4 = E_OK" "s' = s5" using assms 1 2 3 4 5 by (auto simp: publish_segment_ready_def Let_def split: if_splits)
  have "take 24 ?rec = ?rec" by simp
  then have "px_files s2 = px_files (write_file ?pd 0 ?rec (truncate_file ?pd s1))" using sys_pwrite_files(2) [OF 2 ok'(2)] by simp
  moreover obtain g where "px_files s1 ?pd = Some g" using open_create_spec(2) [OF 1 ok'(1)] by auto
  moreover have "?rec \<noteq> []" by (simp add: store_u64_def)
  ultimately obtain h where h: "px_files s2 ?pd = Some h" "f_data h = ?rec" by (auto simp: truncate_file_def write_file_def overwrite_def)
  then have "px_files s3 ?pd = Some (h\<lparr>f_dirty := {}\<rparr>)" using fsync_clean [OF 3 [unfolded ok'(3)]] by simp
  then have "px_files s4 ?mk = Some (h\<lparr>f_dirty := {}\<rparr>)" using 4 ok'(4) sys_files [of e s3] by (auto simp: sys_rename_def split: if_splits prod.splits)
  then show "marked e s' p fb" using same [of p] ok ok'(5) f5 h(2) load_store_u64 [of "f_ino f" "[]"] by (auto simp: marked_def)
qed

lemma extend_spec:
  assumes "extend_segment_file e p old fb s = (st, s')" "px_files s p = Some f" "length (f_data f) = old" "old \<le> fb"
  shows "kept A s s'" and "q \<noteq> p \<Longrightarrow> px_files s' q = px_files s q"
    and "\<exists>f'. px_files s' p = Some f' \<and> f_ino f' = f_ino f \<and> (st = OK \<longrightarrow> length (f_data f') = fb)"
proof -
  obtain x s1 where 1: "sys e s = (x, s1)" by (metis surj_pair)
  obtain st2 s2 where 2: "write_zeros e p old (fb - old) s1 = (st2, s2)" by (metis surj_pair)
  note f1 = sys_files [OF 1]
  obtain m where m: "m \<le> fb - old" "px_files s2 = px_files (write_file p old (replicate m 0) s)" "st2 = OK \<longrightarrow> m = fb - old"
  proof -
    obtain m where "m \<le> fb - old" "px_files s2 = px_files (write_file p old (take m (replicate (fb - old) 0)) s)" "st2 = OK \<longrightarrow> m = fb - old"
      using wrote_skip [OF f1 write_zeros_wrote [OF 2]] unfolding wrote_part_def length_replicate by blast
    then show thesis using that [of m] by (simp add: min_absorb2)
  qed
  have k: "kept A s s2" using kept_cong [OF kept_append m(2)] assms(2,3) by simp
  have out: "s' = s \<and> st = OK \<and> old = fb \<or> s' = s1 \<and> st \<noteq> OK \<or> s' = s2 \<and> st = st2" using assms(1,4) 1 2 by (auto simp: extend_segment_file_def split: if_splits)
  then show "kept A s s'" using k f1 kept_same by auto
  show "q \<noteq> p \<Longrightarrow> px_files s' q = px_files s q" using out f1 m(2) by (auto simp: write_file_def split: option.splits if_splits)
  have "\<exists>f'. px_files s2 p = Some f' \<and> f_ino f' = f_ino f \<and> (st2 = OK \<longrightarrow> length (f_data f') = fb)"
    using m assms(2-4) by (auto simp: write_file_def length_overwrite)
  then show "\<exists>f'. px_files s' p = Some f' \<and> f_ino f' = f_ino f \<and> (st = OK \<longrightarrow> length (f_data f') = fb)"
    using out f1 assms(2,3) by auto
qed

definition completed :: "penv \<Rightarrow> posix \<Rightarrow> string \<Rightarrow> nat \<Rightarrow> bool" where
  "completed e s p fb \<longleftrightarrow> (\<exists>f. px_files s p = Some f \<and> length (f_data f) = fb \<and> f_dirty f = {}) \<and> extents_verified e p fb"

lemma fill_spec:
  assumes "fill_segment_file e p fb f s = (st, s')" "px_files s p = Some f" "length (f_data f) \<le> fb"
  shows "kept {p @ ''.ready.pending'', p @ ''.ready''} s s'"
    and "st = OK \<Longrightarrow> marked e s' p fb" and "st = OK \<or> px_files s' (p @ ''.ready'') \<noteq> px_files s (p @ ''.ready'') \<Longrightarrow> completed e s' p fb"
proof -
  obtain st1 s1 where 1: "extend_segment_file e p (length (f_data f)) fb s = (st1, s1)" by (metis surj_pair)
  obtain x s2 where 2: "sys_fsync e p s1 = (x, s2)" by (metis surj_pair)
  obtain st3 s3 where 3: "verify_segment_extents e p fb s2 = (st3, s3)" by (metis surj_pair)
  obtain st4 s4 where 4: "publish_segment_ready e p f fb s3 = (st4, s4)" by (metis surj_pair)
  note x1 = extend_spec [OF 1 assms(2) refl assms(3)]
  have f3: "px_files s3 = px_files s2" using 3 verify_loop_files by (simp add: verify_segment_extents_def)
  have e2: "px_files s2 q = px_files s q" if "q \<noteq> p" for q
    using x1(2) [OF that] that 2 sys_files [of e s1] by (auto simp: sys_fsync_def split: if_splits prod.splits)
  let ?A = "{p @ ''.ready.pending'', p @ ''.ready''}"
  have k2: "kept ?A s s2" using kept_trans [OF x1(1) fsync_kept [OF 2]] .
  have k3: "kept ?A s s3" using kept_cong [OF k2 f3] .
  have k4: "kept ?A s s4" using kept_trans [OF k3 publish_spec(1) [OF 4]] .
  have out: "s' = s1 \<and> st = st1 \<and> st1 \<noteq> OK \<or> s' = s2 \<and> st \<noteq> OK \<or> s' = s3 \<and> st \<noteq> OK \<or> s' = s4 \<and> st = st4 \<and> st1 = OK \<and> x = E_OK \<and> st3 = OK"
    using assms(1) 1 2 3 4 by (auto simp: fill_segment_file_def split: if_splits)
  then show "kept ?A s s'" using x1(1) k2 k3 k4 by blast
  have c: "\<exists>g. px_files s2 p = Some g \<and> f_ino g = f_ino f \<and> length (f_data g) = fb \<and> f_dirty g = {}" if "st1 = OK" "x = E_OK"
    using x1(3) fsync_clean [OF 2 [unfolded that(2)]] that(1) by auto
  have "px_files s4 p = px_files s3 p" using publish_spec(2) [OF 4, of p] by simp
  then have d: "completed e s4 p fb" if "st1 = OK" "x = E_OK" "st3 = OK"
    using c [OF that(1,2)] f3 verify_extents [OF 3 [unfolded that(3)]] by (auto simp: completed_def)
  show "st = OK \<Longrightarrow> marked e s' p fb" using out c publish_spec(3) [OF 4] f3 by auto
  have n: "p @ ''.ready'' \<noteq> p" by simp
  show "st = OK \<or> px_files s' (p @ ''.ready'') \<noteq> px_files s (p @ ''.ready'') \<Longrightarrow> completed e s' p fb"
    using out d x1(2) [OF n] e2 [OF n] f3 by auto
qed

text \<open>How a call ends: without touching the marker, with the file found ready, or in the part that fills the file.\<close>

lemma materialise_cases:
  assumes "materialise_segment_file e p fb s = Some (st, s')"
  defines "A \<equiv> {p @ ''.ready.pending'', p @ ''.ready''}"
  obtains (still) "st \<noteq> OK" "kept A s s'" "px_files s' (p @ ''.ready'') = px_files s (p @ ''.ready'')"
    | (ready) f where "st = OK" "kept A s s'" "px_files s' (p @ ''.ready'') = px_files s (p @ ''.ready'')" "marked e s' p fb"
        "px_files s' p = Some f" "length (f_data f) = fb"
    | (fill) f t where "kept A s t" "px_files t (p @ ''.ready'') = px_files s (p @ ''.ready'')" "px_files t p = Some f"
        "fill_segment_file e p fb f t = (st, s')" "length (f_data f) \<le> fb"
proof -
  obtain st1 s1 where 1: "ensure_directory e (parent_of p) s = (st1, s1)" by (metis surj_pair)
  note f1 = ensure_directory_files [OF 1]
  show thesis
  proof (cases "fb = 0 \<or> \<not> is_aligned fb \<or> st1 \<noteq> OK")
    case True
    then have "st \<noteq> OK \<and> px_files s' = px_files s" using assms(1) 1 f1 by (auto simp: materialise_segment_file_def split: if_splits)
    then show thesis using still kept_same [of s' s A] by auto
  next
    case g: False
    then obtain st2 mnt s2 where 2: "filesystem_lock_root e p s1 = Some ((st2, mnt), s2)"
      using assms(1) 1 by (auto simp: materialise_segment_file_def split: option.splits)
    have f2: "px_files s2 = px_files s" using lock_root_files [OF 2] f1 by simp
    obtain r s3 where 3: "open_segment_file e p mnt s2 = (r, s3)" by (metis surj_pair)
    have k3: "kept A s s3" and m3: "px_files s3 (p @ ''.ready'') = px_files s (p @ ''.ready'')"
      using open_segment_spec(1,3) [OF 3] f2 by (auto simp: kept_def)
    show thesis
    proof (cases "st2 = OK \<and> r \<noteq> None")
      case False
      then have "st \<noteq> OK \<and> (s' = s2 \<or> s' = s3)" using assms(1) 1 2 3 g by (auto simp: materialise_segment_file_def split: if_splits)
      then show thesis using still k3 m3 f2 kept_same [of s2 s A] by auto
    next
      case True
      then obtain f where f: "r = Some f" by auto
      note pf = open_segment_spec(2) [OF 3 f]
      obtain r4 s4 where 4: "read_ready_record e p f s3 = (r4, s4)" by (metis surj_pair)
      note f4 = read_ready_files [OF 4]
      have k4: "kept A s s4" using kept_cong [OF k3 f4] .
      consider "st \<noteq> OK" "px_files s' = px_files s3"
        | "st = OK" "s' = s4" "r4 \<noteq> None" "unat (the r4) = fb" "length (f_data f) = fb"
        | "fill_segment_file e p fb f s4 = (st, s')" "length (f_data f) \<le> fb"
        using assms(1) 1 2 3 4 g True f f4 by (auto simp: materialise_segment_file_def split: if_splits)
      then show thesis
      proof cases
        case 1
        then show thesis using still kept_cong [OF k3] m3 by auto
      next
        case 2
        then show thesis using ready read_ready_marked [OF _ pf] 4 k4 m3 f4 pf by auto
      next
        case 3
        then show thesis using fill [of s4 f] k4 m3 f4 pf by auto
      qed
    qed
  qed
qed

lemma materialise_kept: "materialise_segment_file e p fb s = Some (st, s') \<Longrightarrow> kept {p @ ''.ready.pending'', p @ ''.ready''} s s'"
  by (erule materialise_cases) (auto intro: kept_trans fill_spec(1))

text \<open>(C7) A segment file is only published when it can be used for direct transfers. Whatever calls fail,
  materialising a file changes no byte of any existing file but its own markers and leaves synced bytes
  synced; on success the file has the requested size and carries a marker with its size, device and
  inode; and a marker that was not there before means that the file is complete, fully synced, and that the
  extents the file system reported for it tile it exactly with safe, aligned extents in at most 124
  physically contiguous runs.\<close>

theorem materialise_publishes_verified:
  assumes "materialise_segment_file e p fb s = Some (st, s')"
  shows "kept {p @ ''.ready.pending'', p @ ''.ready''} s s' \<and>
    (st = OK \<longrightarrow> marked e s' p fb \<and> (\<exists>f. px_files s' p = Some f \<and> length (f_data f) = fb)) \<and>
    (px_files s (p @ ''.ready'') = None \<and> px_files s' (p @ ''.ready'') \<noteq> None \<longrightarrow> completed e s' p fb)"
  using assms
proof (cases rule: materialise_cases)
  case (fill f t)
  note fs = fill_spec [OF fill(4,3,5)]
  show ?thesis using kept_trans [OF fill(1) fs(1)] fs(2,3) fill(2) by (auto simp: completed_def)
qed auto

definition demo_penv :: penv where
  "demo_penv = \<lparr>pe_errno = \<lambda>_. E_OK, pe_count = \<lambda>_. 4096, pe_dev = \<lambda>p. if p = ''/m'' then 1 else 0, pe_bavail = \<lambda>_. 8, pe_frsize = \<lambda>_. 4096,
     pe_fiemap = \<lambda>_ _ _ _. [\<lparr>fe_logical = 0, fe_physical = 8192, fe_length = 4096, fe_flags = 1\<rparr>]\<rparr>"

definition demo_px :: posix where
  "demo_px = \<lparr>px_tick = 0, px_signals = 0, px_files = (\<lambda>_. None), px_dirs = {}, px_next_ino = 7\<rparr>"

lemma demo_sys: "sys demo_penv s = (E_OK, s\<lparr>px_tick := Suc (px_tick s)\<rparr>)"
  by (simp add: sys_def demo_penv_def)

lemma demo_parent: "parent_of ''/m/0.seg'' = ''/m''"
  by (simp add: parent_of_def last_slash_def Let_def)

lemma demo_dir: "ensure_directory demo_penv ''/m'' demo_px = (OK, demo_px\<lparr>px_tick := 1, px_dirs := {''/m''}\<rparr>)"
  by (simp add: ensure_directory_def ensure_dir_char_def sys_mkdir_def demo_sys upt_rec) (simp add: demo_px_def)

lemma demo_root: "filesystem_lock_root demo_penv ''/m/0.seg'' s = Some ((OK, ''/m''), s\<lparr>px_tick := Suc (Suc (px_tick s))\<rparr>)"
proof -
  have "parent_of ''/m'' = ''/''" by (simp add: parent_of_def last_slash_def Let_def)
  then show ?thesis by (simp add: filesystem_lock_root_def demo_parent demo_sys lock_root_loop.simps Let_def) (simp add: demo_penv_def)
qed

lemma demo_fill:
  assumes "px_files s ''/m/0.seg'' = Some f" "f_data f = []"
  shows "fst (fill_segment_file demo_penv ''/m/0.seg'' 4096 f s) = OK"
proof -
  have w: "sys_pwrite demo_penv p buf off s = (Inr (min 4096 (length buf)), write_file p off (take (min 4096 (length buf)) buf) (s\<lparr>px_tick := Suc (px_tick s)\<rparr>))" for p buf off s
    by (simp add: sys_pwrite_def demo_sys Let_def) (simp add: demo_penv_def Let_def)
  have z: "fst (zero_loop demo_penv p 0 4096 0 s) = OK" for p s
    by (subst zero_loop.simps) (simp add: w kZeroChunkBytes_def is_aligned_def kAlignment_def, subst zero_loop.simps, simp)
  have x: "fst (extend_segment_file demo_penv p 0 4096 s) = OK" for p s
    by (simp add: extend_segment_file_def demo_sys write_zeros_def aligned_buffer_def kZeroChunkBytes_def z free_bytes_def) (simp add: demo_penv_def)
  have v: "fst (verify_segment_extents demo_penv p 4096 s) = OK" for p s
    unfolding verify_segment_extents_def
    by (subst verify_loop.simps) (simp add: demo_sys Let_def, simp add: demo_penv_def extent_unsafe_def bad_extent_flags_def is_aligned_def kAlignment_def, subst verify_loop.simps, simp)
  have "fst (publish_segment_ready demo_penv p f 4096 s) = OK" for p s
    by (simp add: publish_segment_ready_def sys_open_def demo_sys w sys_fsync_def sys_rename_def sync_directory_def Let_def split: option.splits)
  then show ?thesis using x [of "''/m/0.seg''" s] v assms(2)
    by (auto simp: fill_segment_file_def sys_fsync_def demo_sys split: prod.splits) (metis fst_conv)+
qed

theorem materialise_publishes_verified_witness:
  "\<exists>s'. materialise_segment_file demo_penv ''/m/0.seg'' 4096 demo_px = Some (OK, s') \<and>
     marked demo_penv s' ''/m/0.seg'' 4096 \<and> completed demo_penv s' ''/m/0.seg'' 4096"
proof -
  obtain s' where m: "materialise_segment_file demo_penv ''/m/0.seg'' 4096 demo_px = Some (OK, s')"
  proof -
    let ?f = "\<lparr>f_ino = 8, f_data = [], f_dirty = {}\<rparr>"
    have "\<exists>s. materialise_segment_file demo_penv ''/m/0.seg'' 4096 demo_px = Some (fill_segment_file demo_penv ''/m/0.seg'' 4096 ?f s) \<and> px_files s ''/m/0.seg'' = Some ?f"
      by (simp add: materialise_segment_file_def demo_parent demo_dir demo_root open_segment_file_def sys_open_def demo_sys is_aligned_def kAlignment_def Let_def)
        (simp add: demo_px_def demo_sys sys_open_def read_ready_record_def Let_def, rule exI, rule conjI, rule refl, simp)
    then obtain s where s: "materialise_segment_file demo_penv ''/m/0.seg'' 4096 demo_px = Some (fill_segment_file demo_penv ''/m/0.seg'' 4096 ?f s)"
      "px_files s ''/m/0.seg'' = Some ?f" by (elim exE conjE)
    obtain st s' where f: "fill_segment_file demo_penv ''/m/0.seg'' 4096 ?f s = (st, s')" by (rule prod.exhaust)
    show thesis using that [of s'] s(1) demo_fill [OF s(2)] by (simp add: f)
  qed
  have "px_files demo_px p = None" for p by (simp add: demo_px_def)
  then show ?thesis using materialise_publishes_verified [OF m] m by (auto simp: marked_def)
qed

end
