(* ===== verification/Store_Residency.thy ===== *)
theory Store_Residency
  imports Store_Media
begin

text \<open>
  The cross-rank residency bitmap (\<open>storage_objects/residency_bitmap.cpp\<close>): one mapped file per
  rank, a header and one bit per slot. A shared mapping is the file itself, so the operations act on the
  files of \<open>Store_Posix\<close>. A bitmap stands for the set of slots whose bit is set; the operations
  refine the set operations and leave the header alone.
\<close>

section \<open>Layout\<close>

definition kResMagic :: bytes where "kResMagic = [84, 85, 84, 84, 73, 82, 69, 83]"
definition kResVersion :: u32 where "kResVersion = 1"
definition kResHeaderBytes :: nat where "kResHeaderBytes = 4096"
definition kResVersionOffset :: nat where "kResVersionOffset = 8"
definition kRankIdOffset :: nat where "kRankIdOffset = 12"
definition kRankCountOffset :: nat where "kRankCountOffset = 16"
definition kSlotCountOffset :: nat where "kSlotCountOffset = 20"
definition kFingerprintOffset :: nat where "kFingerprintOffset = 28"

lemmas res_layout = kResHeaderBytes_def kResVersionOffset_def kRankIdOffset_def kRankCountOffset_def
  kSlotCountOffset_def kFingerprintOffset_def

datatype ResidencyRejection = RNone | EmptyFile | ResBadMagic | ResUnsupportedVersion | ResTruncatedBuffer
  | SlotCountMismatch | FingerprintMismatch | RankCountMismatch

definition residency_file_bytes :: "u64 \<Rightarrow> u64" where
  "residency_file_bytes slot_count = round_up (of_nat kResHeaderBytes + (slot_count + 7) div 8) 4096"

definition residency_bit_offset :: "u64 \<Rightarrow> nat" where
  "residency_bit_offset slot = kResHeaderBytes + unat slot div 8"

definition residency_bit_shift :: "u64 \<Rightarrow> nat" where
  "residency_bit_shift slot = unat slot mod 8"

definition encode_residency_header :: "u32 \<Rightarrow> u32 \<Rightarrow> u64 \<Rightarrow> u64 \<Rightarrow> bytes \<Rightarrow> bytes" where
  "encode_residency_header rank_id rank_count slot_count digest out =
     (let out = put 0 (replicate kResHeaderBytes 0) out;
          out = put 0 kResMagic out;
          out = put kResVersionOffset (store_u32 kResVersion) out;
          out = put kRankIdOffset (store_u32 rank_id) out;
          out = put kRankCountOffset (store_u32 rank_count) out;
          out = put kSlotCountOffset (store_u64 slot_count) out
      in put kFingerprintOffset (store_u64 digest) out)"

definition validate_residency_header :: "bytes \<Rightarrow> u32 \<Rightarrow> u64 \<Rightarrow> u64 \<Rightarrow> ResidencyRejection" where
  "validate_residency_header d rank_count slot_count digest =
     (if length d < kResHeaderBytes then ResTruncatedBuffer
      else if \<forall>i<8. d ! i = 0 then EmptyFile
      else if take 8 d \<noteq> kResMagic then ResBadMagic
      else if load_u32 (drop kResVersionOffset d) \<noteq> kResVersion then ResUnsupportedVersion
      else if load_u32 (drop kRankCountOffset d) \<noteq> rank_count then RankCountMismatch
      else if load_u64 (drop kSlotCountOffset d) \<noteq> slot_count then SlotCountMismatch
      else if load_u64 (drop kFingerprintOffset d) \<noteq> digest then FingerprintMismatch
      else RNone)"

section \<open>Operations\<close>

record ResidencyBitmap =
  b_base :: "string option"
  b_mapped_bytes :: nat
  b_slot_count :: u64
  b_writable :: bool

definition bitmap_init :: ResidencyBitmap where
  "bitmap_init = \<lparr>b_base = None, b_mapped_bytes = 0, b_slot_count = 0, b_writable = False\<rparr>"

definition bitmap_usable :: "ResidencyBitmap \<Rightarrow> bool" where "bitmap_usable b \<longleftrightarrow> b_base b \<noteq> None"

definition bitmap_close :: "ResidencyBitmap \<Rightarrow> ResidencyBitmap" where
  "bitmap_close b = b\<lparr>b_base := None, b_mapped_bytes := 0, b_slot_count := 0, b_writable := False\<rparr>"

text \<open>A store into the mapping.\<close>

definition map_store :: "string \<Rightarrow> (bytes \<Rightarrow> bytes) \<Rightarrow> posix \<Rightarrow> posix" where
  "map_store p g s = s\<lparr>px_files := (px_files s)(p := map_option (\<lambda>f. f\<lparr>f_data := g (f_data f),
     f_dirty := f_dirty f \<union> {..<length (f_data f)}\<rparr>) (px_files s p))\<rparr>"

definition file_size :: "posix \<Rightarrow> string \<Rightarrow> nat" where
  "file_size s p = (case px_files s p of None \<Rightarrow> 0 | Some f \<Rightarrow> length (f_data f))"

definition file_bytes_of :: "posix \<Rightarrow> string \<Rightarrow> bytes" where
  "file_bytes_of s p = (case px_files s p of None \<Rightarrow> [] | Some f \<Rightarrow> f_data f)"

definition bitmap_open_writable :: "penv \<Rightarrow> string \<Rightarrow> u32 \<Rightarrow> u32 \<Rightarrow> u64 \<Rightarrow> u64 \<Rightarrow> ResidencyBitmap \<Rightarrow> posix \<Rightarrow> (StatusCode \<times> ResidencyBitmap) \<times> posix" where
  "bitmap_open_writable e path rank_id rank_count slot_count digest b s =
     (let b = bitmap_close b in
      if slot_count = 0 then ((INVALID_ARGUMENT, b), s)
      else let want = unat (residency_file_bytes slot_count);
               (x, s) = sys_open e True path s
        in if x \<noteq> E_OK then ((INTERNAL, b), s)
        else let (x, s) = sys e s
        in if x \<noteq> E_OK then ((INTERNAL, b), s)
        else let fresh = (file_size s path = 0);
                 (x, s) = (if fresh then sys_truncate e path want s else (E_OK, s))
        in if x \<noteq> E_OK then ((INTERNAL, b), s)
        else if \<not> fresh \<and> file_size s path \<noteq> want then ((INVALID_ARGUMENT, b), s)
        else let (x, s) = sys e s
        in if x \<noteq> E_OK then ((INTERNAL, b), s)
        else let opened = b\<lparr>b_base := Some path, b_mapped_bytes := want, b_slot_count := slot_count, b_writable := True\<rparr>;
                 rejection = validate_residency_header (file_bytes_of s path) rank_count slot_count digest
        in if fresh \<or> rejection = EmptyFile
           then ((OK, opened), map_store path (encode_residency_header rank_id rank_count slot_count digest) s)
           else if rejection \<noteq> RNone then ((INVALID_ARGUMENT, b), s)
           else ((OK, opened), s))"

definition bitmap_open_readonly :: "penv \<Rightarrow> string \<Rightarrow> u32 \<Rightarrow> u64 \<Rightarrow> u64 \<Rightarrow> ResidencyBitmap \<Rightarrow> posix \<Rightarrow> (StatusCode \<times> ResidencyBitmap) \<times> posix" where
  "bitmap_open_readonly e path rank_count slot_count digest b s =
     (let b = bitmap_close b in
      if slot_count = 0 then ((INVALID_ARGUMENT, b), s)
      else let want = unat (residency_file_bytes slot_count);
               (x, s) = sys_open e False path s
        in if x \<noteq> E_OK then ((INTERNAL, b), s)
        else let (x, s) = sys e s
        in if x \<noteq> E_OK then ((INTERNAL, b), s)
        else if file_size s path \<noteq> want then ((INVALID_ARGUMENT, b), s)
        else let (x, s) = sys e s
        in if x \<noteq> E_OK then ((INTERNAL, b), s)
        else if validate_residency_header (file_bytes_of s path) rank_count slot_count digest \<noteq> RNone then ((INVALID_ARGUMENT, b), s)
        else ((OK, b\<lparr>b_base := Some path, b_mapped_bytes := want, b_slot_count := slot_count, b_writable := False\<rparr>), s))"

definition bitmap_test :: "ResidencyBitmap \<Rightarrow> posix \<Rightarrow> u64 \<Rightarrow> bool" where
  "bitmap_test b s slot =
     (case b_base b of None \<Rightarrow> False
      | Some p \<Rightarrow> if slot \<ge> b_slot_count b then False
          else and (drop_bit (residency_bit_shift slot) (file_bytes_of s p ! residency_bit_offset slot)) 1 \<noteq> 0)"

definition bitmap_set :: "ResidencyBitmap \<Rightarrow> u64 \<Rightarrow> posix \<Rightarrow> posix" where
  "bitmap_set b slot s =
     (case b_base b of None \<Rightarrow> s
      | Some p \<Rightarrow> if \<not> b_writable b \<or> slot \<ge> b_slot_count b then s
          else map_store p (\<lambda>d. d[residency_bit_offset slot := or (d ! residency_bit_offset slot) (push_bit (residency_bit_shift slot) 1)]) s)"

definition bitmap_clear :: "ResidencyBitmap \<Rightarrow> u64 \<Rightarrow> posix \<Rightarrow> posix" where
  "bitmap_clear b slot s =
     (case b_base b of None \<Rightarrow> s
      | Some p \<Rightarrow> if \<not> b_writable b \<or> slot \<ge> b_slot_count b then s
          else map_store p (\<lambda>d. d[residency_bit_offset slot := and (d ! residency_bit_offset slot) (not (push_bit (residency_bit_shift slot) 1))]) s)"

definition bitmap_clear_all :: "ResidencyBitmap \<Rightarrow> posix \<Rightarrow> posix" where
  "bitmap_clear_all b s =
     (case b_base b of None \<Rightarrow> s
      | Some p \<Rightarrow> if \<not> b_writable b then s
          else map_store p (\<lambda>d. put kResHeaderBytes (replicate (b_mapped_bytes b - kResHeaderBytes) 0) d) s)"

definition bitmap_sync :: "penv \<Rightarrow> ResidencyBitmap \<Rightarrow> posix \<Rightarrow> StatusCode \<times> posix" where
  "bitmap_sync e b s = (if b_base b = None \<or> \<not> b_writable b then (OK, s)
     else let (x, s) = sys e s in (if x \<noteq> E_OK then INTERNAL else OK, s))"

definition all_ranks_committed :: "ResidencyBitmap list \<Rightarrow> posix \<Rightarrow> u64 \<Rightarrow> bool" where
  "all_ranks_committed ranks s slot = (if ranks = [] then False else list_all (\<lambda>b. bitmap_usable b \<and> bitmap_test b s slot) ranks)"

section \<open>Bitmaps as sets\<close>

definition bits :: "ResidencyBitmap \<Rightarrow> posix \<Rightarrow> u64 set" where "bits b s = {slot. bitmap_test b s slot}"

definition bitmap_ok :: "ResidencyBitmap \<Rightarrow> posix \<Rightarrow> bool" where
  "bitmap_ok b s \<longleftrightarrow> (\<exists>p f. b_base b = Some p \<and> px_files s p = Some f \<and> b_writable b \<and> length (f_data f) = b_mapped_bytes b \<and>
     kResHeaderBytes + (unat (b_slot_count b) + 7) div 8 \<le> b_mapped_bytes b)"

lemma mask_bits: "and (drop_bit k (w :: u8)) 1 \<noteq> 0 \<longleftrightarrow> bit w k"
  by (simp add: and_one_eq odd_iff_mod_2_eq_one [symmetric] bit_iff_odd_drop_bit)

lemma slot_place: "unat a div 8 = unat b div 8 \<and> unat a mod 8 = unat b mod 8 \<longleftrightarrow> a = (b :: u64)"
  by (metis div_mult_mod_eq word_unat_eq_iff)

lemma offset_in: "bitmap_ok b s \<Longrightarrow> slot < b_slot_count b \<Longrightarrow> residency_bit_offset slot < b_mapped_bytes b"
proof -
  assume "bitmap_ok b s" "slot < b_slot_count b"
  then have "kResHeaderBytes + (unat (b_slot_count b) + 7) div 8 \<le> b_mapped_bytes b" "unat slot < unat (b_slot_count b)"
    by (auto simp: bitmap_ok_def word_less_nat_alt)
  moreover then have "unat slot div 8 < (unat (b_slot_count b) + 7) div 8" by linarith
  ultimately show ?thesis by (simp add: residency_bit_offset_def)
qed

lemma map_store_data: "px_files s p = Some f \<Longrightarrow> file_bytes_of (map_store p g s) p = g (f_data f)" "px_files s p = Some f \<Longrightarrow> file_bytes_of s p = f_data f"
  by (simp_all add: map_store_def file_bytes_of_def)

lemma map_store_ok: "bitmap_ok b s \<Longrightarrow> b_base b = Some p \<Longrightarrow> (\<And>d. length d = b_mapped_bytes b \<Longrightarrow> length (g d) = length d) \<Longrightarrow> bitmap_ok b (map_store p g s)"
  by (auto simp: bitmap_ok_def map_store_def)

lemma bits_update:
  assumes ok: "bitmap_ok b s" and p: "b_base b = Some p" and slot: "slot < b_slot_count b"
    and h: "\<And>w k. k < 8 \<Longrightarrow> bit (h w) k = (if k = residency_bit_shift slot then v else bit w k)"
  shows "bits b (map_store p (\<lambda>d. d[residency_bit_offset slot := h (d ! residency_bit_offset slot)]) s) = (if v then insert slot (bits b s) else bits b s - {slot})"
proof -
  obtain f where f: "px_files s p = Some f" "length (f_data f) = b_mapped_bytes b" using ok p by (auto simp: bitmap_ok_def)
  note o = offset_in [OF ok slot]
  have "bitmap_test b (map_store p (\<lambda>d. d[residency_bit_offset slot := h (d ! residency_bit_offset slot)]) s) t =
      (if t = slot then v else bitmap_test b s t)" if "t < b_slot_count b" for t
  proof (cases "residency_bit_offset t = residency_bit_offset slot")
    case True
    then have "t = slot \<longleftrightarrow> residency_bit_shift t = residency_bit_shift slot" using slot_place [of t slot] by (auto simp: residency_bit_offset_def residency_bit_shift_def)
    moreover have "residency_bit_shift t < 8" by (simp add: residency_bit_shift_def)
    ultimately show ?thesis using True that not_le [of "b_slot_count b" t] o f p h by (auto simp: bitmap_test_def map_store_data mask_bits)
  next
    case False
    then have "t \<noteq> slot" by auto
    then show ?thesis using False that f p by (simp add: bitmap_test_def map_store_data mask_bits)
  qed
  moreover have "\<not> bitmap_test b s' t" if "\<not> t < b_slot_count b" for t s' using that p by (simp add: bitmap_test_def)
  ultimately have "bitmap_test b (map_store p (\<lambda>d. d[residency_bit_offset slot := h (d ! residency_bit_offset slot)]) s) t =
      (if t = slot then v else bitmap_test b s t)" for t using slot by (cases "t < b_slot_count b") auto
  then show ?thesis by (auto simp: bits_def)
qed

lemma shift_small: "residency_bit_shift slot < 8"
  by (simp add: residency_bit_shift_def)

text \<open>(C15) The residency bitmap implements a set of slots: on a mapped writable bitmap, setting, clearing and clearing
  everything are insertion, deletion and the empty set, for slots within range (out of range nothing changes and nothing
  is reported), the file keeps its size, and a slot counts as committed on all ranks only if every rank has a usable
  bitmap whose set contains it.\<close>

theorem residency_refines_set:
  assumes "bitmap_ok b s"
  shows "bits b (bitmap_set b slot s) = bits b s \<union> ({slot} \<inter> {..<b_slot_count b}) \<and>
    bits b (bitmap_clear b slot s) = bits b s - {slot} \<and>
    bits b (bitmap_clear_all b s) = {} \<and>
    bits b s \<subseteq> {..<b_slot_count b} \<and>
    bitmap_ok b (bitmap_set b slot s) \<and> bitmap_ok b (bitmap_clear b slot s) \<and> bitmap_ok b (bitmap_clear_all b s) \<and>
    (all_ranks_committed ranks s slot \<longleftrightarrow> ranks \<noteq> [] \<and> (\<forall>r\<in>set ranks. bitmap_usable r \<and> slot \<in> bits r s))"
proof -
  obtain p f where p: "b_base b = Some p" "px_files s p = Some f" "b_writable b" "length (f_data f) = b_mapped_bytes b"
      "kResHeaderBytes + (unat (b_slot_count b) + 7) div 8 \<le> b_mapped_bytes b" using assms by (auto simp: bitmap_ok_def)
  have sub: "bits b s \<subseteq> {..<b_slot_count b}" for s using p(1) by (auto simp: bits_def bitmap_test_def split: if_splits)
  have set: "bits b (bitmap_set b slot s) = bits b s \<union> ({slot} \<inter> {..<b_slot_count b})"
  proof (cases "slot < b_slot_count b")
    case True
    have "bits b (map_store p (\<lambda>d. d[residency_bit_offset slot := or (d ! residency_bit_offset slot) (push_bit (residency_bit_shift slot) 1)]) s) =
        (if True then insert slot (bits b s) else bits b s - {slot})"
      by (rule bits_update [OF assms p(1) True, where h = "\<lambda>w. or w (push_bit (residency_bit_shift slot) 1)" and v = True]) (auto simp: bit_simps)
    then show ?thesis using True not_le [of "b_slot_count b" slot] p by (auto simp: bitmap_set_def)
  qed (use p in \<open>simp add: bitmap_set_def not_less\<close>)
  have clr: "bits b (bitmap_clear b slot s) = bits b s - {slot}"
  proof (cases "slot < b_slot_count b")
    case True
    have "bits b (map_store p (\<lambda>d. d[residency_bit_offset slot := and (d ! residency_bit_offset slot) (not (push_bit (residency_bit_shift slot) 1))]) s) =
        (if False then insert slot (bits b s) else bits b s - {slot})"
      by (rule bits_update [OF assms p(1) True, where h = "\<lambda>w. and w (not (push_bit (residency_bit_shift slot) 1))" and v = False])
        (auto simp: bit_simps shift_small)
    then show ?thesis using True not_le [of "b_slot_count b" slot] p by (auto simp: bitmap_clear_def)
  qed (use p sub [of s] in \<open>auto simp: bitmap_clear_def not_less\<close>)
  let ?z = "replicate (b_mapped_bytes b - kResHeaderBytes) 0"
  have zl: "kResHeaderBytes + length ?z \<le> length d" if "length d = b_mapped_bytes b" for d :: bytes using that p(5) by simp
  have "put kResHeaderBytes ?z (f_data f) ! residency_bit_offset t = 0" if "t < b_slot_count b" for t
    using offset_in [OF assms that] p(4) zl [of "f_data f"] by (subst nth_put) (auto simp: residency_bit_offset_def)
  then have all: "bits b (bitmap_clear_all b s) = {}"
    using p by (auto simp: bits_def bitmap_test_def bitmap_clear_all_def map_store_data mask_bits split: if_splits)
  have ok: "bitmap_ok b (bitmap_set b slot s)" "bitmap_ok b (bitmap_clear b slot s)" "bitmap_ok b (bitmap_clear_all b s)"
    using assms p(1,3) zl by (auto simp: bitmap_set_def bitmap_clear_def bitmap_clear_all_def length_put intro!: map_store_ok)
  have "all_ranks_committed ranks s slot \<longleftrightarrow> ranks \<noteq> [] \<and> (\<forall>r\<in>set ranks. bitmap_usable r \<and> slot \<in> bits r s)"
    by (auto simp: all_ranks_committed_def list_all_iff bits_def)
  then show ?thesis using set clr all ok sub by blast
qed

definition demo_bitmap :: ResidencyBitmap where
  "demo_bitmap = \<lparr>b_base = Some ''r0.bitmap'', b_mapped_bytes = 8192, b_slot_count = 10, b_writable = True\<rparr>"

definition demo_bitmap_px :: posix where
  "demo_bitmap_px = \<lparr>px_tick = 0, px_signals = 0,
     px_files = [''r0.bitmap'' \<mapsto> \<lparr>f_ino = 1, f_data = replicate 8192 0, f_dirty = {}\<rparr>], px_dirs = {}, px_next_ino = 2\<rparr>"

theorem residency_refines_set_witness:
  "bits demo_bitmap (bitmap_set demo_bitmap 3 demo_bitmap_px) = bits demo_bitmap demo_bitmap_px \<union> {3}"
proof -
  have ok: "bitmap_ok demo_bitmap demo_bitmap_px" by (simp add: bitmap_ok_def demo_bitmap_def demo_bitmap_px_def kResHeaderBytes_def)
  show ?thesis using residency_refines_set [OF ok, of 3] by (simp add: demo_bitmap_def)
qed

end
