(* ===== verification/Store_Placement.thy ===== *)
theory Store_Placement
  imports Store_Posix
begin

text \<open>
  Where a slot lives (\<open>storage_objects/slot_placement_policy.cpp\<close>): slots rotate over the mounts and fill
  fixed-size segment files. The values are 64-bit in the code; none of the expressions can wrap, since
  every offset stays within a file whose size was checked, so they are natural numbers. Different slots
  occupy disjoint byte ranges, provided no mount is listed twice, with or without its trailing slash.
\<close>

section \<open>Paths\<close>

definition join :: "string \<Rightarrow> string \<Rightarrow> string" where
  "join dir leaf = (if dir = '''' then leaf else if last dir = CHR ''/'' then dir @ leaf else dir @ ''/'' @ leaf)"

definition digit :: "nat \<Rightarrow> char" where "digit n = char_of (48 + n)"

fun to_string :: "nat \<Rightarrow> string" where
  "to_string n = (if n < 10 then [digit n] else to_string (n div 10) @ [digit (n mod 10)])"

declare to_string.simps [simp del]

record FixedSegmentFilePlacement =
  pl_mounts :: "string list"
  pl_subdir :: string
  pl_slot_bytes :: nat
  pl_file_bytes :: nat
  pl_header_bytes :: nat
  pl_slots_per_file :: nat

definition make_placement :: "string list \<Rightarrow> string \<Rightarrow> nat \<Rightarrow> nat \<Rightarrow> nat \<Rightarrow> FixedSegmentFilePlacement" where
  "make_placement mounts subdir slot_bytes file_bytes header_bytes =
     \<lparr>pl_mounts = mounts, pl_subdir = subdir, pl_slot_bytes = slot_bytes, pl_file_bytes = file_bytes, pl_header_bytes = header_bytes,
      pl_slots_per_file = (if slot_bytes = 0 then 0 else file_bytes div slot_bytes)\<rparr>"

definition geometry_valid :: "FixedSegmentFilePlacement \<Rightarrow> bool" where
  "geometry_valid pl \<longleftrightarrow> pl_mounts pl \<noteq> [] \<and> pl_slots_per_file pl > 0"

definition path_for_slot :: "FixedSegmentFilePlacement \<Rightarrow> nat \<Rightarrow> string" where
  "path_for_slot pl slot =
     (let device = slot mod length (pl_mounts pl); file_id = (slot div length (pl_mounts pl)) div pl_slots_per_file pl
      in join (join (pl_mounts pl ! device) (pl_subdir pl)) (to_string file_id @ ''.seg''))"

definition uri_for_slot :: "FixedSegmentFilePlacement \<Rightarrow> nat \<Rightarrow> string" where
  "uri_for_slot pl slot = ''file://'' @ path_for_slot pl slot"

definition header_offset_for_slot :: "FixedSegmentFilePlacement \<Rightarrow> nat \<Rightarrow> nat" where
  "header_offset_for_slot pl slot = (slot div length (pl_mounts pl)) mod pl_slots_per_file pl * pl_slot_bytes pl"

definition payload_offset_for_slot :: "FixedSegmentFilePlacement \<Rightarrow> nat \<Rightarrow> nat" where
  "payload_offset_for_slot pl slot = header_offset_for_slot pl slot + pl_header_bytes pl"

section \<open>Different slots, different paths\<close>

lemma digit_inj: "a < 10 \<Longrightarrow> b < 10 \<Longrightarrow> digit a = digit b \<Longrightarrow> a = b"
  by (simp add: digit_def)

lemma digit_no_slash: "a < 10 \<Longrightarrow> digit a \<noteq> CHR ''/''"
proof -
  assume "a < 10"
  then have "of_char (digit a) = (48 + a :: nat)" by (simp add: digit_def)
  moreover have "of_char (CHR ''/'') = (47 :: nat)" by simp
  ultimately show ?thesis by (metis add_eq_self_zero add_leD1 le_add1 numeral_le_iff semiring_norm not_numeral_le_zero Suc_n_not_le_n eval_nat_numeral(3))
qed

lemma to_string_slash: "CHR ''/'' \<notin> set (to_string n)"
proof (induction n rule: to_string.induct)
  case (1 n)
  then show ?case using digit_no_slash [of n] digit_no_slash [of "n mod 10"] by (subst to_string.simps) auto
qed

lemma to_string_inj: "to_string m = to_string n \<Longrightarrow> m = n"
proof (induction m arbitrary: n rule: to_string.induct)
  case (1 m)
  have len: "to_string k \<noteq> []" for k by (subst to_string.simps) simp
  show ?case
  proof (cases "m < 10")
    case True
    then have "to_string n = [digit m]" using "1.prems" by (simp add: to_string.simps)
    then have "n < 10" using len by (subst (asm) to_string.simps) (auto split: if_splits)
    then show ?thesis using True "1.prems" digit_inj by (simp add: to_string.simps)
  next
    case False
    then have m: "to_string m = to_string (m div 10) @ [digit (m mod 10)]" by (simp add: to_string.simps)
    moreover have "to_string n = [digit n]" if "n < 10" using that by (simp add: to_string.simps)
    ultimately have "\<not> n < 10" using "1.prems" len [of "m div 10"] by auto
    then have "to_string n = to_string (n div 10) @ [digit (n mod 10)]" by (simp add: to_string.simps)
    then have "to_string (m div 10) = to_string (n div 10)" "digit (m mod 10) = digit (n mod 10)" using m "1.prems" by auto
    then have "m div 10 = n div 10" "m mod 10 = n mod 10" using "1.IH" [OF False] digit_inj [of "m mod 10" "n mod 10"] by auto
    then show ?thesis by (metis div_mult_mod_eq)
  qed
qed

lemma last_component:
  assumes "a @ CHR ''/'' # x = b @ CHR ''/'' # y" "CHR ''/'' \<notin> set x" "CHR ''/'' \<notin> set y"
  shows "a = b \<and> x = y"
proof -
  have "takeWhile (\<lambda>c. c \<noteq> CHR ''/'') (rev (a @ CHR ''/'' # x)) = rev x" "takeWhile (\<lambda>c. c \<noteq> CHR ''/'') (rev (b @ CHR ''/'' # y)) = rev y"
    using assms(2,3) by (auto simp: takeWhile_append2 takeWhile_tail)
  then have "x = y" using assms(1) by (metis rev_rev_ident)
  then show ?thesis using assms(1) by simp
qed

text \<open>A mount without its trailing slash.\<close>

definition strip :: "string \<Rightarrow> string" where
  "strip m = (if m \<noteq> '''' \<and> last m = CHR ''/'' then butlast m else m)"

lemma join_strip: "m \<noteq> '''' \<Longrightarrow> join m leaf = strip m @ CHR ''/'' # leaf"
  by (auto simp: join_def strip_def) (metis append_butlast_last_id append_Cons append_Nil append_assoc)

definition placement_ok :: "FixedSegmentFilePlacement \<Rightarrow> bool" where
  "placement_ok pl \<longleftrightarrow> geometry_valid pl \<and> distinct (map strip (pl_mounts pl)) \<and> '''' \<notin> set (pl_mounts pl) \<and>
     pl_subdir pl \<noteq> '''' \<and> last (pl_subdir pl) \<noteq> CHR ''/'' \<and> pl_slots_per_file pl * pl_slot_bytes pl \<le> pl_file_bytes pl"

lemma path_eq:
  assumes "placement_ok pl"
  shows "path_for_slot pl s = strip (pl_mounts pl ! (s mod length (pl_mounts pl))) @ CHR ''/'' # pl_subdir pl @
    CHR ''/'' # to_string ((s div length (pl_mounts pl)) div pl_slots_per_file pl) @ ''.seg''"
proof -
  have "s mod length (pl_mounts pl) < length (pl_mounts pl)" using assms by (simp add: placement_ok_def geometry_valid_def)
  then have "pl_mounts pl ! (s mod length (pl_mounts pl)) \<noteq> ''''" using assms by (metis placement_ok_def nth_mem)
  then show ?thesis using assms by (simp add: path_for_slot_def Let_def join_strip placement_ok_def) (simp add: strip_def)
qed

lemma path_inj:
  assumes "placement_ok pl" "path_for_slot pl s = path_for_slot pl t"
  shows "s mod length (pl_mounts pl) = t mod length (pl_mounts pl)"
    "(s div length (pl_mounts pl)) div pl_slots_per_file pl = (t div length (pl_mounts pl)) div pl_slots_per_file pl"
proof -
  let ?n = "length (pl_mounts pl)"
  let ?x = "\<lambda>s. to_string ((s div ?n) div pl_slots_per_file pl) @ ''.seg''"
  have n: "CHR ''/'' \<notin> set (?x s)" for s using to_string_slash by simp
  have "strip (pl_mounts pl ! (s mod ?n)) @ CHR ''/'' # pl_subdir pl = strip (pl_mounts pl ! (t mod ?n)) @ CHR ''/'' # pl_subdir pl \<and> ?x s = ?x t"
    by (rule last_component) (use n assms(2) path_eq [OF assms(1)] in simp_all)
  then have m: "strip (pl_mounts pl ! (s mod ?n)) = strip (pl_mounts pl ! (t mod ?n))" and i: "to_string ((s div ?n) div pl_slots_per_file pl) = to_string ((t div ?n) div pl_slots_per_file pl)"
    by auto
  have "s mod ?n < ?n" "t mod ?n < ?n" "distinct (map strip (pl_mounts pl))" using assms(1) by (simp_all add: placement_ok_def geometry_valid_def)
  then show "s mod ?n = t mod ?n" using m by (metis length_map nth_eq_iff_index_eq nth_map)
  show "(s div ?n) div pl_slots_per_file pl = (t div ?n) div pl_slots_per_file pl" using to_string_inj [OF i] .
qed

lemma slots_disjoint:
  assumes "placement_ok pl" "s \<noteq> t" "path_for_slot pl s = path_for_slot pl t"
  shows "header_offset_for_slot pl s + pl_slot_bytes pl \<le> header_offset_for_slot pl t \<or>
    header_offset_for_slot pl t + pl_slot_bytes pl \<le> header_offset_for_slot pl s"
proof -
  let ?n = "length (pl_mounts pl)" and ?k = "pl_slots_per_file pl" and ?b = "pl_slot_bytes pl"
  define i j where "i = (s div ?n) mod ?k" and "j = (t div ?n) mod ?k"
  have "i \<noteq> j"
  proof
    assume "i = j"
    then have "s div ?n = t div ?n" using path_inj(2) [OF assms(1,3)] unfolding i_def j_def by (metis div_mult_mod_eq)
    then show False using path_inj(1) [OF assms(1,3)] assms(2) by (metis div_mult_mod_eq)
  qed
  then consider "Suc i \<le> j" | "Suc j \<le> i" by linarith
  then have "i * ?b + ?b \<le> j * ?b \<or> j * ?b + ?b \<le> i * ?b"
    by cases (use mult_le_mono1 [of "Suc i" j ?b] mult_le_mono1 [of "Suc j" i ?b] in \<open>auto simp: add.commute\<close>)
  then show ?thesis by (simp add: header_offset_for_slot_def i_def j_def)
qed

lemma slot_in_file: "placement_ok pl \<Longrightarrow> header_offset_for_slot pl s + pl_slot_bytes pl \<le> pl_file_bytes pl"
proof -
  assume ok: "placement_ok pl"
  let ?i = "(s div length (pl_mounts pl)) mod pl_slots_per_file pl"
  have "Suc ?i \<le> pl_slots_per_file pl" using ok by (simp add: placement_ok_def geometry_valid_def Suc_leI)
  then have "Suc ?i * pl_slot_bytes pl \<le> pl_slots_per_file pl * pl_slot_bytes pl" by (rule mult_le_mono1)
  then show ?thesis using ok by (simp add: header_offset_for_slot_def placement_ok_def)
qed

text \<open>(C16) Slots do not overlap: with a valid geometry and mounts that differ after dropping a trailing slash, the byte
  ranges of two different slots are in different files or disjoint, every slot lies inside its segment file, and it starts at a
  block boundary when the slot size is a whole number of blocks.\<close>

theorem placement_slots_disjoint:
  assumes "placement_ok pl" "s \<noteq> t"
  shows "(path_for_slot pl s \<noteq> path_for_slot pl t \<or>
      {header_offset_for_slot pl s..<header_offset_for_slot pl s + pl_slot_bytes pl} \<inter>
      {header_offset_for_slot pl t..<header_offset_for_slot pl t + pl_slot_bytes pl} = {}) \<and>
    header_offset_for_slot pl s + pl_slot_bytes pl \<le> pl_file_bytes pl \<and>
    (4096 dvd pl_slot_bytes pl \<longrightarrow> 4096 dvd header_offset_for_slot pl s)"
proof -
  have "4096 dvd pl_slot_bytes pl \<longrightarrow> 4096 dvd header_offset_for_slot pl s" by (simp add: header_offset_for_slot_def)
  then show ?thesis using slots_disjoint [OF assms] slot_in_file [OF assms(1)] by fastforce
qed

theorem placement_slots_disjoint_witness:
  "let pl = make_placement [''/d0'', ''/d1/''] ''r0/segments'' 8192 16384 4096
   in path_for_slot pl 0 = path_for_slot pl 2 \<and>
      {header_offset_for_slot pl 0..<header_offset_for_slot pl 0 + pl_slot_bytes pl} \<inter>
      {header_offset_for_slot pl 2..<header_offset_for_slot pl 2 + pl_slot_bytes pl} = {} \<and>
      header_offset_for_slot pl 0 + pl_slot_bytes pl \<le> pl_file_bytes pl \<and> 4096 dvd header_offset_for_slot pl 0"
proof -
  let ?pl = "make_placement [''/d0'', ''/d1/''] ''r0/segments'' 8192 16384 4096"
  have "placement_ok ?pl" by (simp add: placement_ok_def geometry_valid_def make_placement_def strip_def)
  moreover have "path_for_slot ?pl 0 = path_for_slot ?pl 2" by (simp add: path_for_slot_def make_placement_def numeral_2_eq_2)
  moreover have "4096 dvd pl_slot_bytes ?pl" by (simp add: make_placement_def)
  ultimately show ?thesis using placement_slots_disjoint [of ?pl 0 2, OF _ zero_neq_numeral] unfolding Let_def by blast
qed

text \<open>The trailing slash matters: the same directory listed in both spellings puts two slots at one place.\<close>

lemma placement_slash_collision:
  "path_for_slot (make_placement [''/d'', ''/d/''] ''r0/segments'' 8192 16384 4096) 0 =
     path_for_slot (make_placement [''/d'', ''/d/''] ''r0/segments'' 8192 16384 4096) 1 \<and>
   header_offset_for_slot (make_placement [''/d'', ''/d/''] ''r0/segments'' 8192 16384 4096) 0 =
     header_offset_for_slot (make_placement [''/d'', ''/d/''] ''r0/segments'' 8192 16384 4096) 1"
  by (simp add: path_for_slot_def header_offset_for_slot_def make_placement_def join_def)

end
