(* ===== verification/Spec2Isabelle.thy ===== *)
theory Spec2Isabelle
  imports Snvm_DevClaims Snvm_ControlProps Store_Checkpoint Store_Alloc Store_MediaProps Store_Residency Store_Placement
begin

text \<open>
  Verification of the kernel-side NVMe device manager of Tutti
  (\<open>src/csrc/device_manager/nvme/kernel_modules/snvme\<close>).
\<close>

end
